(* ===== verification/KV_Prelude.thy ===== *)
theory KV_Prelude
  imports Main "HOL-Library.Word"
begin

text \<open>
  What every component of the development shares: the faults a C++ step can end in (a failed
  \<open>assert\<close>, an access outside a vector, a call of \<open>exit\<close>), results of fallible steps as
  sums, checked vector reads and writes, the conversions between \<open>int\<close> and \<open>uint32_t\<close>,
  and the collections the component proofs draw on.
\<close>

section \<open>Collections\<close>

named_theorems handler_defs \<open>definitions of the handlers of a component\<close>
named_theorems frame_simps \<open>fields an operation leaves unchanged\<close>
named_theorems inv_intros \<open>preservation lemmas of the component invariants\<close>

section \<open>Faults and results\<close>

text \<open>
  A fault carries the source line it is raised at. An out-of-range \<open>operator[]\<close> is undefined
  behaviour in C++; the model stops there with a value of its own, so that no theorem can rest on
  what such a read returns. The same holds for a pointer that is null or freed; an exception that
  nothing catches ends the process.
\<close>

datatype fault = Assert_failed nat | Out_of_range nat | Exit_called int | Bad_pointer nat | Uncaught nat

type_synonym 'a result = "fault + 'a"

definition rbind :: "'a result \<Rightarrow> ('a \<Rightarrow> 'b result) \<Rightarrow> 'b result" where
  "rbind m f = (case m of Inl e \<Rightarrow> Inl e | Inr x \<Rightarrow> f x)"

definition is_ok :: "'a result \<Rightarrow> bool" where
  "is_ok m \<longleftrightarrow> (case m of Inl _ \<Rightarrow> False | Inr _ \<Rightarrow> True)"

definition assert_at :: "nat \<Rightarrow> bool \<Rightarrow> unit result" where
  "assert_at ln b = (if b then Inr () else Inl (Assert_failed ln))"

definition vec_at :: "nat \<Rightarrow> 'a list \<Rightarrow> int \<Rightarrow> 'a result" where
  "vec_at ln xs i =
     (if 0 \<le> i \<and> i < int (length xs) then Inr (xs ! nat i) else Inl (Out_of_range ln))"

definition vec_put :: "nat \<Rightarrow> 'a list \<Rightarrow> int \<Rightarrow> 'a \<Rightarrow> 'a list result" where
  "vec_put ln xs i v =
     (if 0 \<le> i \<and> i < int (length xs) then Inr (xs[nat i := v]) else Inl (Out_of_range ln))"

text \<open>The value of an optional, or the fault.\<close>

definition or_fault :: "fault \<Rightarrow> 'a option \<Rightarrow> 'a result" where
  "or_fault e x = (case x of None \<Rightarrow> Inl e | Some y \<Rightarrow> Inr y)"

lemma or_fault_simps [simp]: "or_fault e (Some y) = Inr y" "or_fault e None = Inl e"
  by (simp_all add: or_fault_def)

lemma rbind_Inl [simp]: "rbind (Inl e) f = Inl e"
  by (simp add: rbind_def)

lemma rbind_Inr [simp]: "rbind (Inr x) f = f x"
  by (simp add: rbind_def)

lemma rbind_eq_Inr: "rbind m f = Inr y \<longleftrightarrow> (\<exists>x. m = Inr x \<and> f x = Inr y)"
  by (cases m) auto

lemma rbind_eq_Inl: "rbind m f = Inl e \<longleftrightarrow> m = Inl e \<or> (\<exists>x. m = Inr x \<and> f x = Inl e)"
  by (cases m) auto

lemma is_ok_simps [simp]: "is_ok (Inr x)" "\<not> is_ok (Inl e)"
  by (simp_all add: is_ok_def)

lemma is_ok_iff: "is_ok m \<longleftrightarrow> (\<exists>x. m = Inr x)"
  by (cases m) auto

lemma assert_at_True [simp]: "assert_at ln True = Inr ()"
  by (simp add: assert_at_def)

lemma assert_at_False [simp]: "assert_at ln False = Inl (Assert_failed ln)"
  by (simp add: assert_at_def)

lemma assert_at_eq_Inr [simp]: "assert_at ln b = Inr u \<longleftrightarrow> b"
  by (simp add: assert_at_def)

lemma vec_at_eq_Inr:
  "vec_at ln xs i = Inr x \<longleftrightarrow> 0 \<le> i \<and> i < int (length xs) \<and> x = xs ! nat i"
  by (auto simp: vec_at_def)

lemma vec_at_in_range: "0 \<le> i \<Longrightarrow> i < int (length xs) \<Longrightarrow> vec_at ln xs i = Inr (xs ! nat i)"
  by (simp add: vec_at_def)

lemma vec_put_eq_Inr:
  "vec_put ln xs i v = Inr ys \<longleftrightarrow> 0 \<le> i \<and> i < int (length xs) \<and> ys = xs[nat i := v]"
  by (auto simp: vec_put_def)

lemma vec_put_in_range:
  "0 \<le> i \<Longrightarrow> i < int (length xs) \<Longrightarrow> vec_put ln xs i v = Inr (xs[nat i := v])"
  by (simp add: vec_put_def)

lemmas result_simps = rbind_eq_Inr vec_at_eq_Inr vec_put_eq_Inr

section \<open>Machine integers at the boundary\<close>

text \<open>
  The raft code computes with \<open>int\<close>, whose overflow is undefined, on log indices and terms
  that grow by one; the model uses \<open>int\<close> for them. The persisted node record stores them as
  \<open>uint32_t\<close>, and reading back converts to \<open>int\<close> modulo two to the power 32.
\<close>

type_synonym u8 = "8 word"
type_synonym u32 = "32 word"
type_synonym u64 = "64 word"

definition to_u32 :: "int \<Rightarrow> u32" where
  "to_u32 x = word_of_int x"

definition of_u32 :: "u32 \<Rightarrow> int" where
  "of_u32 w = sint w"

definition int32_range :: "int \<Rightarrow> bool" where
  "int32_range x \<longleftrightarrow> - (2 ^ 31) \<le> x \<and> x < 2 ^ 31"

lemma of_to_u32 [simp]: "int32_range x \<Longrightarrow> of_u32 (to_u32 x) = x"
  by (simp add: int32_range_def of_u32_def to_u32_def int_word_sint)

lemma int32_range_of_u32 [simp]: "int32_range (of_u32 w)"
proof -
  have "- (2 ^ 31) \<le> sint w" using sint_ge [of w] by simp
  moreover have "sint w < 2 ^ 31" using sint_lt [of w] by simp
  ultimately show ?thesis by (simp add: int32_range_def of_u32_def)
qed

lemma int32_range_minus_one [simp]: "int32_range (-1)"
  by (simp add: int32_range_def)

section \<open>Lists\<close>

lemma last_conv_nth_int: "xs \<noteq> [] \<Longrightarrow> last xs = xs ! nat (int (length xs) - 1)"
  by (simp add: last_conv_nth nat_diff_distrib')

end
