(* ===== verification/Lock_Queue.thy ===== *)
theory Lock_Queue
  imports KV_Prelude
begin

text \<open>
  \<open>LockQueue<T>\<close> of include/common/LockQueue.h: the queue between the raft node and the
  key-value server, between a request handler and the apply loop, and in front of the log writer
  thread. Every operation holds the queue's mutex from its first to its last access, so each is
  one atomic step on the queue's content; waiting on the condition variable is the only place
  where other threads' pushes can come in between, and they are an argument of the operation.
\<close>

section \<open>Operations\<close>

record 'a lock_queue =
  m_queue :: "'a list"

definition empty_queue :: "'a lock_queue" where
  "empty_queue = \<lparr>m_queue = []\<rparr>"

definition Push :: "'a \<Rightarrow> 'a lock_queue \<Rightarrow> 'a lock_queue" where
  "Push data q = q\<lparr>m_queue := m_queue q @ [data]\<rparr>"

text \<open>\<open>Pop\<close> waits while the queue is empty: \<open>None\<close> is a call that is still waiting.\<close>

definition Pop :: "'a lock_queue \<Rightarrow> ('a \<times> 'a lock_queue) option" where
  "Pop q = (case m_queue q of [] \<Rightarrow> None | x # xs \<Rightarrow> Some (x, q\<lparr>m_queue := xs\<rparr>))"

text \<open>The second component is the caller's \<open>*resData\<close>, written on success only.\<close>

definition TryPop :: "'a \<Rightarrow> 'a lock_queue \<Rightarrow> bool \<times> 'a \<times> 'a lock_queue" where
  "TryPop resData q =
     (case m_queue q of [] \<Rightarrow> (False, resData, q) | x # xs \<Rightarrow> (True, x, q\<lparr>m_queue := xs\<rparr>))"

text \<open>The loop of \<open>TryPopBulk\<close>: the queue, the output vector and \<open>count\<close>.\<close>

fun bulk_loop :: "nat \<Rightarrow> 'a list \<Rightarrow> 'a list \<Rightarrow> nat \<Rightarrow> 'a list \<times> 'a list \<times> nat" where
  "bulk_loop maxCount [] out count = ([], out, count)"
| "bulk_loop maxCount (x # xs) out count =
     (if count < maxCount then bulk_loop maxCount xs (out @ [x]) (Suc count)
      else (x # xs, out, count))"

definition TryPopBulk ::
  "'a list \<Rightarrow> nat \<Rightarrow> 'a lock_queue \<Rightarrow> nat \<times> 'a list \<times> 'a lock_queue" where
  "TryPopBulk out maxCount q =
     (if maxCount = 0 then (0, out, q)
      else (case bulk_loop maxCount (m_queue q) out 0 of
              (rest, out', count) \<Rightarrow> (count, out', q\<lparr>m_queue := rest\<rparr>)))"

text \<open>
  \<open>timeOutPop\<close> checks the predicate before it waits, so other threads' pushes matter only when
  the queue is empty; \<open>arrived\<close> are the elements they push before the wait ends.
\<close>

definition timeOutPop :: "'a list \<Rightarrow> 'a \<Rightarrow> 'a lock_queue \<Rightarrow> bool \<times> 'a \<times> 'a lock_queue" where
  "timeOutPop arrived resData q =
     (let q' = (if m_queue q = [] then fold Push arrived q else q) in TryPop resData q')"

lemmas queue_defs = empty_queue_def Push_def Pop_def TryPop_def timeOutPop_def

section \<open>The interface of a queue\<close>

text \<open>
  What the clients of the queue rely on: elements come out in the order they went in. The laws
  are stated over an abstraction to lists; the facts that clients use follow inside the locale.
\<close>

locale fifo_queue =
  fixes emp :: "'q" and enq :: "'a \<Rightarrow> 'q \<Rightarrow> 'q" and deq :: "'q \<Rightarrow> ('a \<times> 'q) option"
    and content :: "'q \<Rightarrow> 'a list"
  assumes content_emp: "content emp = []"
    and content_enq: "content (enq x q) = content q @ [x]"
    and deq_None: "deq q = None \<longleftrightarrow> content q = []"
    and deq_Some: "deq q = Some (x, q') \<Longrightarrow> content q = x # content q'"
begin

lemma content_fold_enq: "content (fold enq xs q) = content q @ xs"
  by (induction xs arbitrary: q) (simp_all add: content_enq)

lemma deq_of_content: "content q = x # xs \<Longrightarrow> \<exists>q'. deq q = Some (x, q') \<and> content q' = xs"
  using deq_None deq_Some by (cases "deq q") fastforce+

text \<open>The first element pushed on an empty queue is the first one popped, whatever follows it.\<close>

lemma first_in_first_out:
  "content q = [] \<Longrightarrow> \<exists>q'. deq (fold enq (x # xs) q) = Some (x, q') \<and> content q' = xs"
  by (rule deq_of_content) (simp add: content_fold_enq content_enq)

end

interpretation lq: fifo_queue empty_queue Push Pop m_queue
  by unfold_locales (auto simp: queue_defs split: list.splits)

section \<open>Properties\<close>

lemma bulk_loop_eq:
  "count \<le> maxCount \<Longrightarrow> bulk_loop maxCount xs out count =
     (drop (maxCount - count) xs, out @ take (maxCount - count) xs,
      count + min (maxCount - count) (length xs))"
  by (induction maxCount xs out count rule: bulk_loop.induct)
     (auto simp: Suc_diff_Suc [symmetric] take_Cons' drop_Cons' min_def not_less)

text \<open>\<open>TryPopBulk\<close> moves exactly the first \<open>maxCount\<close> elements of the queue (all of them
  when there are fewer) to the end of the output vector, in queue order, leaves the others in
  order, and returns how many it moved; with \<open>maxCount = 0\<close> it changes nothing.\<close>

lemma TryPopBulk_moves_prefix:
  "TryPopBulk out maxCount q =
     (min maxCount (length (m_queue q)), out @ take maxCount (m_queue q),
      q\<lparr>m_queue := drop maxCount (m_queue q)\<rparr>)"
  by (simp add: TryPopBulk_def bulk_loop_eq)

text \<open>\<open>timeOutPop\<close> succeeds exactly when the queue holds an element or one arrives before
  the deadline; it then returns the oldest element and keeps the rest in order, and on a timeout
  it leaves the result and the queue as they were.\<close>

lemma timeOutPop_spec:
  "timeOutPop arrived res q =
     (let avail = (if m_queue q = [] then arrived else m_queue q) in
      case avail of [] \<Rightarrow> (False, res, q) | x # xs \<Rightarrow> (True, x, q\<lparr>m_queue := xs\<rparr>))"
proof -
  have "fold Push xs q = q\<lparr>m_queue := m_queue q @ xs\<rparr>" for xs
    by (induction xs arbitrary: q) (simp_all add: Push_def)
  then show ?thesis
    by (auto simp: timeOutPop_def TryPop_def Let_def split: list.splits)
qed

end
