(* ===== verification/Raft_State.thy ===== *)
theory Raft_State
  imports Lock_Queue
begin

text \<open>
  The state of one raft node (class \<open>raft\<close> of include/raft/raft.h), the messages of
  proto/raftRPC.proto, the record the node keeps in its memory-mapped state file
  (\<open>Persister::NodeSnapshot\<close>), and the accessors every handler uses.

  \<open>m_lastLogIndex\<close> and \<open>m_lastLogTerm\<close> are left out: they are scratch variables that
  \<open>getLastLogIndex\<close> and \<open>getLastLogTerm\<close> overwrite before every read. \<open>m_peers\<close> is
  represented by its size, which is all the handlers use of it. The clock is an argument \<open>now\<close>.
\<close>

section \<open>Data\<close>

datatype Identity = follower | leader | candidate

datatype Vote = voted | normal | Killed | expired

record LogEntry =
  command :: string
  logterm :: int
  logindex :: int

record RequestVoteArgs =
  rv_term :: int
  rv_candidateid :: int
  rv_lastlogindex :: int
  rv_lastlogterm :: int

record RequestVoteReply =
  rvr_term :: int
  rvr_votegranted :: bool
  rvr_votestate :: Vote

record AppendEntriesArgs =
  ae_term :: int
  ae_leaderid :: int
  ae_prevlogindex :: int
  ae_prevlogterm :: int
  ae_entries :: "LogEntry list"
  ae_leadercommit :: int

record AppendEntriesReply =
  aer_term :: int
  aer_success :: bool
  aer_updatenextindex :: int

record InstallSnapshotRequest =
  is_leaderid :: int
  is_term :: int
  is_lastsnapshotincludeindex :: int
  is_lastsnapshotincludeterm :: int
  is_data :: string

record InstallSnapshotResponse =
  isr_term :: int

text \<open>The \<open>ApplyMsg\<close> class with the values its constructor gives the fields.\<close>

record ApplyMsg =
  CommandValid :: bool
  Command :: string
  CommandIndex :: int
  SnapshotValid :: bool
  Snapshot_data :: string
  SnapshotTerm :: int
  SnapshotIndex :: int

definition new_ApplyMsg :: ApplyMsg where
  "new_ApplyMsg = \<lparr>CommandValid = False, Command = [], CommandIndex = -1,
     SnapshotValid = False, Snapshot_data = [], SnapshotTerm = -1, SnapshotIndex = -1\<rparr>"

text \<open>
  The persisted node record. The process id, the ip address and the port it also holds are never
  read back by any function of the program and are not modelled.
\<close>

record NodeInfo =
  ni_node_id :: u32
  ni_role :: u32
  ni_commit_index :: u32
  ni_last_applied :: u32
  ni_log_len :: u32
  ni_term :: u32
  ni_snapshot_index :: u32
  ni_snapshot_term :: u32
  ni_votedFor :: u32
  ni_writedIndex :: u32

text \<open>A new state file is \<open>ftruncate\<close>d to the record's size, so it reads as zeros.\<close>

definition zero_NodeInfo :: NodeInfo where
  "zero_NodeInfo = \<lparr>ni_node_id = 0, ni_role = 0, ni_commit_index = 0, ni_last_applied = 0,
     ni_log_len = 0, ni_term = 0, ni_snapshot_index = 0, ni_snapshot_term = 0,
     ni_votedFor = 0, ni_writedIndex = 0\<rparr>"

record raft =
  m_id :: int
  m_peers_size :: nat
  m_logs :: "LogEntry list"
  m_commitIndex :: int
  m_stableLogIndex :: int
  m_lastSnapshotIndex :: int
  m_lastSnapshotTerm :: int
  m_nextIndex :: "int list"
  m_matchIndex :: "int list"
  m_state :: Identity
  m_currentTerm :: int
  m_voteForId :: int
  m_lastElectionTime :: int
  m_lastHearBeatTime :: int
  m_replicatePending :: bool
  m_writedIndex :: int
  m_lastApplied :: int
  fmp :: NodeInfo
  m_snapshotFile :: string
  applyChan :: "ApplyMsg lock_queue"

section \<open>Accessors\<close>

definition getLastLogIndexandTerm :: "raft \<Rightarrow> int \<times> int" where
  "getLastLogIndexandTerm r =
     (if m_logs r = [] then (m_lastSnapshotIndex r, m_lastSnapshotTerm r)
      else (logindex (m_logs r ! (length (m_logs r) - 1)),
            logterm (m_logs r ! (length (m_logs r) - 1))))"

definition getLastLogTerm :: "raft \<Rightarrow> int" where
  "getLastLogTerm r = snd (getLastLogIndexandTerm r)"

definition getLastLogIndex :: "raft \<Rightarrow> int" where
  "getLastLogIndex r = fst (getLastLogIndexandTerm r)"

definition getPrevLogInfo :: "raft \<Rightarrow> int \<Rightarrow> (int \<times> int) result" where
  "getPrevLogInfo r server =
     rbind (vec_at 202 (m_nextIndex r) server) (\<lambda>nextIndex.
       if nextIndex = m_lastSnapshotIndex r + 1 then Inr (m_lastSnapshotIndex r, m_lastSnapshotTerm r)
       else (let index = nextIndex - 1; v_index = index - m_lastSnapshotIndex r - 1 in
             rbind (vec_at 213 (m_logs r) v_index) (\<lambda>e. Inr (index, logterm e))))"

definition GetState :: "raft \<Rightarrow> int \<times> bool" where
  "GetState r = (m_currentTerm r, m_state r = leader)"

section \<open>Persisting the node record\<close>

text \<open>
  The enumerators' values, as the conversions to \<open>uint32_t\<close> and to the protocol's
  \<open>int32\<close> write them.
\<close>

fun role_code :: "Identity \<Rightarrow> int" where
  "role_code follower = 0"
| "role_code leader = 1"
| "role_code candidate = 2"

text \<open>
  \<open>persistState\<close> copies the node's variables into the mapped record. The flush and the
  compaction of the write-ahead log that \<open>SaveRaftState\<close> then starts are operations of the
  persister and are modelled there.
\<close>

definition persistState :: "raft \<Rightarrow> raft" where
  "persistState r = r\<lparr>fmp := \<lparr>
     ni_node_id = to_u32 (m_id r),
     ni_role = to_u32 (role_code (m_state r)),
     ni_commit_index = to_u32 (m_commitIndex r),
     ni_last_applied = to_u32 (m_lastApplied r),
     ni_log_len = word_of_nat (length (m_logs r)),
     ni_term = to_u32 (m_currentTerm r),
     ni_snapshot_index = to_u32 (m_lastSnapshotIndex r),
     ni_snapshot_term = to_u32 (m_lastSnapshotTerm r),
     ni_votedFor = to_u32 (m_voteForId r),
     ni_writedIndex = to_u32 (m_writedIndex r)\<rparr>\<rparr>"

lemma persistState_simps [simp]:
  "m_id (persistState r) = m_id r"
  "m_peers_size (persistState r) = m_peers_size r"
  "m_logs (persistState r) = m_logs r"
  "m_commitIndex (persistState r) = m_commitIndex r"
  "m_stableLogIndex (persistState r) = m_stableLogIndex r"
  "m_lastSnapshotIndex (persistState r) = m_lastSnapshotIndex r"
  "m_lastSnapshotTerm (persistState r) = m_lastSnapshotTerm r"
  "m_nextIndex (persistState r) = m_nextIndex r"
  "m_matchIndex (persistState r) = m_matchIndex r"
  "m_state (persistState r) = m_state r"
  "m_currentTerm (persistState r) = m_currentTerm r"
  "m_voteForId (persistState r) = m_voteForId r"
  "m_lastElectionTime (persistState r) = m_lastElectionTime r"
  "m_lastHearBeatTime (persistState r) = m_lastHearBeatTime r"
  "m_replicatePending (persistState r) = m_replicatePending r"
  "m_writedIndex (persistState r) = m_writedIndex r"
  "m_lastApplied (persistState r) = m_lastApplied r"
  "m_snapshotFile (persistState r) = m_snapshotFile r"
  "applyChan (persistState r) = applyChan r"
  by (simp_all add: persistState_def)

lemma getLast_persistState [simp]:
  "getLastLogIndex (persistState r) = getLastLogIndex r"
  "getLastLogTerm (persistState r) = getLastLogTerm r"
  "getLastLogIndexandTerm (persistState r) = getLastLogIndexandTerm r"
  by (simp_all add: getLastLogIndex_def getLastLogTerm_def getLastLogIndexandTerm_def)

section \<open>Starting a node\<close>

text \<open>
  \<open>raft::init\<close> on the node \<open>me\<close> of \<open>n\<close> peers: \<open>info\<close> is the record
  \<open>ReadRaftState\<close> reads and \<open>logs\<close> the entries \<open>ReadPersistedLogs\<close> recovers for the
  snapshot index stored in it; \<open>file\<close> is the content of the mapped record. The sleeps, the
  printing and the thread starts have no effect on the state.
\<close>

definition raft_init ::
  "int \<Rightarrow> int \<Rightarrow> nat \<Rightarrow> NodeInfo \<Rightarrow> (int \<Rightarrow> LogEntry list) \<Rightarrow> string \<Rightarrow> ApplyMsg lock_queue \<Rightarrow> raft" where
  "raft_init now me n info logs_after snapshot ch =
     (let snapshot_index = of_u32 (ni_snapshot_index info);
          logs = logs_after snapshot_index;
          r = \<lparr>m_id = me, m_peers_size = n, m_logs = logs,
            m_commitIndex = of_u32 (ni_commit_index info),
            m_stableLogIndex = 0,
            m_lastSnapshotIndex = snapshot_index,
            m_lastSnapshotTerm = of_u32 (ni_snapshot_term info),
            m_nextIndex = replicate n 0, m_matchIndex = replicate n 0,
            m_state = follower,
            m_currentTerm = of_u32 (ni_term info),
            m_voteForId = of_u32 (ni_votedFor info),
            m_lastElectionTime = now, m_lastHearBeatTime = now,
            m_replicatePending = False, m_writedIndex = -1,
            m_lastApplied = (if snapshot_index > 0 then snapshot_index else 0),
            fmp = info, m_snapshotFile = snapshot, applyChan = ch\<rparr>
      in r\<lparr>m_stableLogIndex := getLastLogIndex r\<rparr>)"

text \<open>A node started for the first time: all its files are new and empty.\<close>

definition fresh_node :: "int \<Rightarrow> nat \<Rightarrow> raft" where
  "fresh_node me n = raft_init 0 me n zero_NodeInfo (\<lambda>_. []) [] empty_queue"

lemma fresh_node_eq:
  "fresh_node me n = \<lparr>m_id = me, m_peers_size = n, m_logs = [], m_commitIndex = 0,
     m_stableLogIndex = 0, m_lastSnapshotIndex = 0, m_lastSnapshotTerm = 0,
     m_nextIndex = replicate n 0, m_matchIndex = replicate n 0, m_state = follower,
     m_currentTerm = 0, m_voteForId = 0, m_lastElectionTime = 0, m_lastHearBeatTime = 0,
     m_replicatePending = False, m_writedIndex = -1, m_lastApplied = 0, fmp = zero_NodeInfo,
     m_snapshotFile = [], applyChan = \<lparr>m_queue = []\<rparr>\<rparr>"
  by (simp add: fresh_node_def raft_init_def zero_NodeInfo_def of_u32_def empty_queue_def
        getLastLogIndex_def getLastLogIndexandTerm_def)

section \<open>The order of log positions\<close>

text \<open>
  \<open>RequestVote\<close> compares two logs by the term of the last entry first and by its index when the
  terms are equal. The order as a type class instance, so that the library's order lemmas apply.
\<close>

datatype log_position = Log_position (pos_term: int) (pos_index: int)

instantiation log_position :: linorder
begin

definition less_eq_log_position :: "log_position \<Rightarrow> log_position \<Rightarrow> bool" where
  "less_eq_log_position p q \<longleftrightarrow>
     pos_term p < pos_term q \<or> pos_term p = pos_term q \<and> pos_index p \<le> pos_index q"

definition less_log_position :: "log_position \<Rightarrow> log_position \<Rightarrow> bool" where
  "less_log_position p q \<longleftrightarrow>
     pos_term p < pos_term q \<or> pos_term p = pos_term q \<and> pos_index p < pos_index q"

instance
  by intro_classes (auto simp: less_eq_log_position_def less_log_position_def log_position.expand)

end

definition last_position :: "raft \<Rightarrow> log_position" where
  "last_position r = Log_position (getLastLogTerm r) (getLastLogIndex r)"

section \<open>Well-formed logs\<close>

text \<open>
  The handlers find the entry with index \<open>i\<close> at vector position \<open>i - m_lastSnapshotIndex - 1\<close>.
  That is right when the entries' indices are contiguous from the snapshot on.
\<close>

definition contiguous :: "int \<Rightarrow> LogEntry list \<Rightarrow> bool" where
  "contiguous snap es \<longleftrightarrow> (\<forall>k < length es. logindex (es ! k) = snap + 1 + int k)"

definition log_ok :: "raft \<Rightarrow> bool" where
  "log_ok r \<longleftrightarrow> contiguous (m_lastSnapshotIndex r) (m_logs r)"

lemma contiguous_Nil [simp]: "contiguous snap []"
  by (simp add: contiguous_def)

lemma contiguous_nth: "contiguous snap es \<Longrightarrow> k < length es \<Longrightarrow> logindex (es ! k) = snap + 1 + int k"
  by (simp add: contiguous_def)

lemma contiguous_snoc:
  "contiguous snap (es @ [e]) \<longleftrightarrow> contiguous snap es \<and> logindex e = snap + 1 + int (length es)"
  by (auto simp: contiguous_def nth_append less_Suc_eq)

lemma contiguous_append:
  "contiguous snap (xs @ ys) \<longleftrightarrow> contiguous snap xs \<and> contiguous (snap + int (length xs)) ys"
  by (induction ys rule: rev_induct)
     (auto simp: contiguous_snoc append_assoc [symmetric] simp del: append_assoc)

lemma contiguous_take [intro]: "contiguous snap es \<Longrightarrow> contiguous snap (take n es)"
  by (simp add: contiguous_def)

lemma contiguous_drop:
  "contiguous snap es \<Longrightarrow> n \<le> length es \<Longrightarrow> contiguous (snap + int n) (drop n es)"
  by (auto simp: contiguous_def)

lemma contiguous_update:
  "contiguous snap es \<Longrightarrow> logindex e = logindex (es ! k) \<Longrightarrow> contiguous snap (es[k := e])"
  by (cases "k < length es") (auto simp: contiguous_def nth_list_update)

lemma last_index_contiguous:
  "log_ok r \<Longrightarrow> getLastLogIndex r = m_lastSnapshotIndex r + int (length (m_logs r))"
  by (cases "m_logs r") (auto simp: log_ok_def contiguous_def getLastLogIndex_def getLastLogIndexandTerm_def)

lemma getLastLogIndexandTerm_eq: "getLastLogIndexandTerm r = (getLastLogIndex r, getLastLogTerm r)"
  by (simp add: getLastLogIndex_def getLastLogTerm_def)

lemma log_ok_persistState [simp]: "log_ok (persistState r) \<longleftrightarrow> log_ok r"
  by (simp add: log_ok_def)

text \<open>The order a node keeps between the marks it puts on its log.\<close>

definition marks_ok :: "raft \<Rightarrow> bool" where
  "marks_ok r \<longleftrightarrow> m_lastSnapshotIndex r \<le> m_lastApplied r \<and> m_lastApplied r \<le> m_commitIndex r
     \<and> m_commitIndex r \<le> getLastLogIndex r"

text \<open>The vectors a leader keeps have one element per peer.\<close>

definition vecs_ok :: "raft \<Rightarrow> bool" where
  "vecs_ok r \<longleftrightarrow> length (m_nextIndex r) = m_peers_size r \<and> length (m_matchIndex r) = m_peers_size r"

definition raft_ok :: "raft \<Rightarrow> bool" where
  "raft_ok r \<longleftrightarrow> log_ok r \<and> marks_ok r \<and> vecs_ok r"

lemmas raft_ok_defs = raft_ok_def marks_ok_def vecs_ok_def

lemma raft_ok_persistState [simp]: "raft_ok (persistState r) \<longleftrightarrow> raft_ok r"
  by (simp add: raft_ok_defs)

end
