(* ===== verification/Raft_Election.thy ===== *)
theory Raft_Election
  imports Raft_State
begin

text \<open>
  Leader election: \<open>electionTimeOutTicker\<close>, \<open>doElection\<close>, \<open>RequestVote\<close> on the voter and
  \<open>handleRequestVoteResponse\<close> on the candidate, of src/raft/raft.cc. Each definition is one
  critical section under the node's mutex; where the source releases the mutex in the middle
  (\<open>doElection\<close>), the effects are listed in the order in which they happen.
\<close>

section \<open>Candidate: starting an election\<close>

text \<open>
  The critical section of \<open>doElection\<close>: the node becomes a candidate of the next term, votes for
  itself, restarts its timer and prepares one request per other peer.
\<close>

definition vote_request :: "raft \<Rightarrow> RequestVoteArgs" where
  "vote_request r = \<lparr>rv_term = m_currentTerm r, rv_candidateid = m_id r,
     rv_lastlogindex = getLastLogIndex r, rv_lastlogterm = getLastLogTerm r\<rparr>"

definition other_peers :: "raft \<Rightarrow> int list" where
  "other_peers r = filter (\<lambda>i. i \<noteq> m_id r) (map int [0..<m_peers_size r])"

definition doElection_locked :: "int \<Rightarrow> raft \<Rightarrow> raft \<times> (int \<times> RequestVoteArgs) list" where
  "doElection_locked now r =
     (if m_state r = leader then (r, [])
      else (let r' = r\<lparr>m_state := candidate, m_currentTerm := m_currentTerm r + 1,
                       m_voteForId := m_id r, m_lastElectionTime := now\<rparr>
            in (r', map (\<lambda>i. (i, vote_request r')) (other_peers r'))))"

text \<open>
  The mutex is then released, the requests are handed to the scheduler one by one, and the deferred
  \<open>persistState\<close> runs when the block ends, after the last of them.
\<close>

datatype effect = Send_vote int RequestVoteArgs | Persist NodeInfo

definition doElection :: "int \<Rightarrow> raft \<Rightarrow> raft \<times> effect list" where
  "doElection now r =
     (if m_state r = leader then (r, [])
      else (case doElection_locked now r of
              (r', requests) \<Rightarrow>
                (let r'' = persistState r' in
                 (r'', map (\<lambda>(i, a). Send_vote i a) requests @ [Persist (fmp r'')]))))"

text \<open>
  One turn of \<open>electionTimeOutTicker\<close>: the node sleeps for the chosen time and starts an election
  unless its timer was set to a moment after the turn began.
\<close>

definition electionTimeOut :: "int \<Rightarrow> int \<Rightarrow> raft \<Rightarrow> raft \<times> effect list" where
  "electionTimeOut wakeTime now r =
     (if m_state r = leader then (r, [])
      else if m_lastElectionTime r > wakeTime then (r, []) else doElection now r)"

section \<open>Voter\<close>

definition log_up_to_date :: "RequestVoteArgs \<Rightarrow> raft \<Rightarrow> bool" where
  "log_up_to_date req r \<longleftrightarrow> rv_lastlogterm req > getLastLogTerm r \<or>
     (rv_lastlogterm req = getLastLogTerm r \<and> rv_lastlogindex req \<ge> getLastLogIndex r)"

definition RequestVote :: "int \<Rightarrow> RequestVoteArgs \<Rightarrow> raft \<Rightarrow> (raft \<times> RequestVoteReply) result" where
  "RequestVote now req r =
     (if rv_term req < m_currentTerm r then
        Inr (r, \<lparr>rvr_term = m_currentTerm r, rvr_votegranted = False, rvr_votestate = expired\<rparr>)
      else
        let r1 = (if rv_term req > m_currentTerm r then
                    persistState (r\<lparr>m_state := follower, m_currentTerm := rv_term req,
                                     m_voteForId := -1\<rparr>)
                  else r) in
        rbind (assert_at 471 (rv_term req = m_currentTerm r1)) (\<lambda>_.
        if \<not> log_up_to_date req r1 then
          Inr (r1, \<lparr>rvr_term = m_currentTerm r1, rvr_votegranted = False, rvr_votestate = voted\<rparr>)
        else if m_voteForId r1 \<noteq> -1 \<and> m_voteForId r1 \<noteq> rv_candidateid req then
          Inr (persistState r1,
               \<lparr>rvr_term = m_currentTerm r1, rvr_votegranted = False, rvr_votestate = voted\<rparr>)
        else
          (let r2 = r1\<lparr>m_voteForId := rv_candidateid req, m_lastElectionTime := now\<rparr> in
           Inr (persistState r2,
                \<lparr>rvr_term = m_currentTerm r2, rvr_votegranted = True, rvr_votestate = normal\<rparr>))))"

section \<open>Candidate: counting votes\<close>

text \<open>
  \<open>votedNum\<close> is the counter shared by the callbacks of one election. Assigning 0 to
  \<open>votedNum\<close> after the promotion resets the callback's own pointer, not the counter, so the
  counter is returned as it was incremented. The loop over the peers sets every entry of the two
  vectors but the node's own.
\<close>

fun reset_peers :: "int \<Rightarrow> int \<Rightarrow> int list \<Rightarrow> raft \<Rightarrow> raft result" where
  "reset_peers self nxt [] r = Inr r"
| "reset_peers self nxt (i # ps) r =
     (if i = self then reset_peers self nxt ps r
      else rbind (vec_put 404 (m_nextIndex r) i nxt) (\<lambda>ni.
           rbind (vec_put 405 (m_matchIndex r) i 0) (\<lambda>mi.
           reset_peers self nxt ps (r\<lparr>m_nextIndex := ni, m_matchIndex := mi\<rparr>))))"

definition majority :: "raft \<Rightarrow> int" where
  "majority r = int (m_peers_size r div 2 + 1)"

definition handleRequestVoteResponse ::
  "RequestVoteArgs \<Rightarrow> RequestVoteReply \<Rightarrow> int \<Rightarrow> bool \<Rightarrow> raft \<Rightarrow> (raft \<times> int) result" where
  "handleRequestVoteResponse args reply votedNum ok r =
     (if \<not> ok then Inr (r, votedNum)
      else if rvr_term reply > m_currentTerm r then
        Inr (persistState (r\<lparr>m_currentTerm := rvr_term reply, m_state := follower,
                              m_voteForId := -1\<rparr>), votedNum)
      else if rvr_term reply < m_currentTerm r then Inr (r, votedNum)
      else if m_state r \<noteq> candidate \<or> rv_term args \<noteq> m_currentTerm r then Inr (r, votedNum)
      else
        rbind (assert_at 368 (rvr_term reply = m_currentTerm r)) (\<lambda>_.
        if \<not> rvr_votegranted reply then Inr (r, votedNum)
        else
          (let votedNum' = votedNum + 1 in
           if votedNum' \<ge> majority r then
             rbind (reset_peers (m_id r) (getLastLogIndex r + 1)
                      (map int [0..<m_peers_size r]) (r\<lparr>m_state := leader\<rparr>)) (\<lambda>r'.
             Inr (persistState r', votedNum'))
           else Inr (r, votedNum'))))"

lemmas election_defs = doElection_locked_def doElection_def electionTimeOut_def RequestVote_def
  handleRequestVoteResponse_def

section \<open>The promotion loop\<close>

lemma reset_peers_frame:
  "reset_peers self nxt ps r = Inr r' \<Longrightarrow>
     \<exists>ni mi. r' = r\<lparr>m_nextIndex := ni, m_matchIndex := mi\<rparr>
       \<and> length ni = length (m_nextIndex r) \<and> length mi = length (m_matchIndex r)"
proof (induction ps arbitrary: r)
  case Nil
  then show ?case
    by (intro exI [of _ "m_nextIndex r"] exI [of _ "m_matchIndex r"]) simp
next
  case (Cons i ps)
  show ?case
  proof (cases "i = self")
    case False
    with Cons.prems obtain ni mi where
      "reset_peers self nxt ps (r\<lparr>m_nextIndex := ni, m_matchIndex := mi\<rparr>) = Inr r'"
      "length ni = length (m_nextIndex r)" "length mi = length (m_matchIndex r)"
      by (auto simp: result_simps)
    then show ?thesis using Cons.IH by fastforce
  qed (use Cons in simp)
qed

lemma reset_peers_ok:
  assumes "length (m_nextIndex r) = n" "length (m_matchIndex r) = n" "set ps \<subseteq> {0..<int n}"
  shows "\<exists>r'. reset_peers self nxt ps r = Inr r' \<and>
    (\<forall>j<n. (int j \<in> set ps \<and> int j \<noteq> self \<longrightarrow> m_nextIndex r' ! j = nxt \<and> m_matchIndex r' ! j = 0)
         \<and> (int j \<notin> set ps \<or> int j = self \<longrightarrow>
              m_nextIndex r' ! j = m_nextIndex r ! j \<and> m_matchIndex r' ! j = m_matchIndex r ! j))"
  using assms
proof (induction ps arbitrary: r)
  case (Cons i ps)
  show ?case
  proof (cases "i = self")
    case True
    with Cons.IH [OF Cons.prems(1,2)] Cons.prems(3) show ?thesis by auto
  next
    case False
    let ?r = "r\<lparr>m_nextIndex := (m_nextIndex r)[nat i := nxt],
                m_matchIndex := (m_matchIndex r)[nat i := 0]\<rparr>"
    have i: "0 \<le> i" "i < int n" using Cons.prems(3) by auto
    obtain r' where r': "reset_peers self nxt ps ?r = Inr r'"
      and upd: "\<forall>j<n. (int j \<in> set ps \<and> int j \<noteq> self \<longrightarrow> m_nextIndex r' ! j = nxt \<and> m_matchIndex r' ! j = 0)
         \<and> (int j \<notin> set ps \<or> int j = self \<longrightarrow>
              m_nextIndex r' ! j = m_nextIndex ?r ! j \<and> m_matchIndex r' ! j = m_matchIndex ?r ! j)"
      using Cons.IH [of ?r] Cons.prems by auto
    have "reset_peers self nxt (i # ps) r = Inr r'"
      using False i r' Cons.prems(1,2) by (simp add: vec_put_in_range)
    moreover have "int j = i \<longleftrightarrow> j = nat i" for j using i by auto
    ultimately show ?thesis
      using upd i False Cons.prems(1,2) by (intro exI [of _ r']) (auto simp: nth_list_update)
  qed
qed simp

lemma map_int_upt_subset: "set (map int [0..<n]) \<subseteq> {0..<int n}"
  by auto

section \<open>What a step may do to terms and votes\<close>

text \<open>
  \<open>quiet_step r r'\<close>: the node keeps its identity, its term does not fall, within a term the vote
  stays, a new term starts without a vote, and the step makes it neither a leader nor a candidate.
  All handlers but \<open>doElection\<close>, \<open>RequestVote\<close> and the vote count are quiet steps.
\<close>

definition quiet_step :: "raft \<Rightarrow> raft \<Rightarrow> bool" where
  "quiet_step r r' \<longleftrightarrow> m_id r' = m_id r \<and> m_peers_size r' = m_peers_size r
     \<and> m_currentTerm r \<le> m_currentTerm r'
     \<and> (m_currentTerm r' = m_currentTerm r \<longrightarrow> m_voteForId r' = m_voteForId r)
     \<and> (m_currentTerm r' \<noteq> m_currentTerm r \<longrightarrow> m_voteForId r' = -1)
     \<and> (m_state r' \<noteq> follower \<longrightarrow> m_state r' = m_state r \<and> m_currentTerm r' = m_currentTerm r)"

lemma quiet_refl [simp, intro]: "quiet_step r r"
  by (simp add: quiet_step_def)

lemma quiet_persistState [simp]: "quiet_step r (persistState r') \<longleftrightarrow> quiet_step r r'"
  by (simp add: quiet_step_def)

lemma quiet_trans: "quiet_step r s \<Longrightarrow> quiet_step s t \<Longrightarrow> quiet_step r t"
  by (auto simp: quiet_step_def)

text \<open>The term and the vote in the mapped file are those in memory.\<close>

definition vote_durable :: "raft \<Rightarrow> bool" where
  "vote_durable r \<longleftrightarrow> of_u32 (ni_term (fmp r)) = m_currentTerm r
     \<and> of_u32 (ni_votedFor (fmp r)) = m_voteForId r"

lemma vote_durable_persistState:
  "int32_range (m_currentTerm r) \<Longrightarrow> int32_range (m_voteForId r) \<Longrightarrow> vote_durable (persistState r)"
  by (simp add: vote_durable_def persistState_def)

section \<open>Properties\<close>

lemma log_up_to_date_eq:
  "log_up_to_date req r \<longleftrightarrow> last_position r \<le> Log_position (rv_lastlogterm req) (rv_lastlogindex req)"
  by (auto simp: log_up_to_date_def last_position_def less_eq_log_position_def)

lemma getLast_frame [simp]:
  "getLastLogIndex (r\<lparr>m_state := s\<rparr>) = getLastLogIndex r"
  "getLastLogIndex (r\<lparr>m_currentTerm := i\<rparr>) = getLastLogIndex r"
  "getLastLogIndex (r\<lparr>m_voteForId := i\<rparr>) = getLastLogIndex r"
  "getLastLogIndex (r\<lparr>m_lastElectionTime := i\<rparr>) = getLastLogIndex r"
  "getLastLogTerm (r\<lparr>m_state := s\<rparr>) = getLastLogTerm r"
  "getLastLogTerm (r\<lparr>m_currentTerm := i\<rparr>) = getLastLogTerm r"
  "getLastLogTerm (r\<lparr>m_voteForId := i\<rparr>) = getLastLogTerm r"
  "getLastLogTerm (r\<lparr>m_lastElectionTime := i\<rparr>) = getLastLogTerm r"
  by (simp_all add: getLastLogIndex_def getLastLogTerm_def getLastLogIndexandTerm_def)

lemma RequestVote_grant:
  "\<exists>r' rep. RequestVote now req r = Inr (r', rep) \<and>
     (rvr_votegranted rep \<longleftrightarrow> m_currentTerm r \<le> rv_term req
        \<and> last_position r \<le> Log_position (rv_lastlogterm req) (rv_lastlogindex req)
        \<and> (m_currentTerm r < rv_term req \<or> m_voteForId r = -1
            \<or> m_voteForId r = rv_candidateid req))"
  unfolding RequestVote_def log_up_to_date_eq Let_def
  by (auto simp: last_position_def)

text \<open>C9: A node never fails on a vote request, and it grants its vote exactly when the request's
  term is not older than its own, the candidate's last log position is at least its own in the
  order by term and then index, and it has not yet voted for another candidate in that term.\<close>

theorem RequestVote_grants_iff:
  "\<exists>r' rep. RequestVote now req r = Inr (r', rep) \<and>
     (rvr_votegranted rep \<longleftrightarrow> m_currentTerm r \<le> rv_term req
        \<and> last_position r \<le> Log_position (rv_lastlogterm req) (rv_lastlogindex req)
        \<and> (m_currentTerm r < rv_term req \<or> m_voteForId r = -1
            \<or> m_voteForId r = rv_candidateid req))"
  by (rule RequestVote_grant)

lemma RequestVote_cases:
  assumes "RequestVote now req r = Inr (r', rep)"
  shows "m_currentTerm r' = max (m_currentTerm r) (rv_term req)" "rvr_term rep = m_currentTerm r'"
    "m_id r' = m_id r" "m_peers_size r' = m_peers_size r" "m_logs r' = m_logs r"
    "m_currentTerm r < rv_term req \<Longrightarrow> m_state r' = follower"
    "rv_term req \<le> m_currentTerm r \<Longrightarrow> m_state r' = m_state r"
    "rvr_votegranted rep \<Longrightarrow> m_voteForId r' = rv_candidateid req \<and> m_currentTerm r' = rv_term req
       \<and> m_lastElectionTime r' = now"
    "\<not> rvr_votegranted rep \<Longrightarrow>
       m_voteForId r' = (if m_currentTerm r < rv_term req then -1 else m_voteForId r)"
    "m_currentTerm r' = m_currentTerm r \<Longrightarrow> m_voteForId r = -1 \<or> m_voteForId r' = m_voteForId r"
  using assms unfolding RequestVote_def Let_def by (auto split: if_splits)

text \<open>C11: A vote is given once per term: when a node that already has a vote in its term handles a
  request of any candidate, it keeps that vote as long as its term stays the same; its term never
  falls; and a granted reply carries the term of the request and the vote now recorded.\<close>

theorem RequestVote_once_per_term:
  "RequestVote now req r = Inr (r', rep) \<Longrightarrow>
     m_currentTerm r \<le> m_currentTerm r'
     \<and> (m_currentTerm r' = m_currentTerm r \<and> m_voteForId r \<noteq> -1 \<longrightarrow> m_voteForId r' = m_voteForId r)
     \<and> (rvr_votegranted rep \<longrightarrow> m_voteForId r' = rv_candidateid req
           \<and> m_currentTerm r' = rv_term req \<and> rvr_term rep = rv_term req)"
  using RequestVote_cases [of now req r r' rep] by auto

theorem RequestVote_once_per_term_witness:
  "\<exists>r' rep. RequestVote 7 \<lparr>rv_term = 1, rv_candidateid = 2, rv_lastlogindex = 0, rv_lastlogterm = 0\<rparr>
       (fresh_node 0 3) = Inr (r', rep) \<and> rvr_votegranted rep \<and> m_voteForId r' = 2"
proof -
  let ?req = "\<lparr>rv_term = 1, rv_candidateid = 2, rv_lastlogindex = 0, rv_lastlogterm = 0\<rparr>"
  obtain r' rep where run: "RequestVote 7 ?req (fresh_node 0 3) = Inr (r', rep)"
    and yes: "rvr_votegranted rep"
    using RequestVote_grant [of 7 ?req "fresh_node 0 3"]
    by (auto simp: fresh_node_eq last_position_def less_eq_log_position_def getLastLogIndex_def
        getLastLogTerm_def getLastLogIndexandTerm_def)
  with RequestVote_once_per_term [OF run] show ?thesis by auto
qed

lemma vote_durable_cong:
  "fmp r' = fmp r \<Longrightarrow> m_currentTerm r' = m_currentTerm r \<Longrightarrow> m_voteForId r' = m_voteForId r \<Longrightarrow>
     vote_durable r' = vote_durable r"
  by (simp add: vote_durable_def)

text \<open>C12: Before a vote reply leaves the node, the term and the vote it rests on are in the mapped
  state file: if file and memory agree on both and the request's numbers are within the range of
  the protocol's \<open>int32\<close>, they agree again when \<open>RequestVote\<close> returns, on every branch.\<close>

theorem RequestVote_durable:
  "RequestVote now req r = Inr (r', rep) \<Longrightarrow> vote_durable r \<Longrightarrow>
   int32_range (rv_term req) \<Longrightarrow> int32_range (rv_candidateid req) \<Longrightarrow> vote_durable r'"
proof -
  assume run: "RequestVote now req r = Inr (r', rep)" and dur: "vote_durable r"
    and rng: "int32_range (rv_term req)" "int32_range (rv_candidateid req)"
  have "int32_range (m_currentTerm r)" "int32_range (m_voteForId r)"
    using dur int32_range_of_u32 unfolding vote_durable_def by metis+
  then show ?thesis
    using run dur rng unfolding RequestVote_def Let_def
    by (auto intro!: vote_durable_persistState split: if_splits)
qed

theorem RequestVote_durable_witness:
  "let req = \<lparr>rv_term = 1, rv_candidateid = 2, rv_lastlogindex = 0, rv_lastlogterm = 0\<rparr> in
   \<exists>r' rep. RequestVote 7 req (fresh_node 0 3) = Inr (r', rep) \<and> vote_durable r'"
proof -
  let ?req = "\<lparr>rv_term = 1, rv_candidateid = 2, rv_lastlogindex = 0, rv_lastlogterm = 0\<rparr>"
  obtain r' rep where run: "RequestVote 7 ?req (fresh_node 0 3) = Inr (r', rep)"
    using RequestVote_grant by blast
  have "vote_durable (fresh_node 0 3)"
    by (simp add: vote_durable_def fresh_node_eq zero_NodeInfo_def of_u32_def)
  from RequestVote_durable [OF run this] run show ?thesis
    by (auto simp: int32_range_def Let_def)
qed

lemma other_peers_set: "set (other_peers r) = {i. 0 \<le> i \<and> i < int (m_peers_size r) \<and> i \<noteq> m_id r}"
  by (auto simp: other_peers_def) (metis atLeastLessThan_iff image_eqI le0 nat_int nat_less_iff nonneg_int_cases)

text \<open>An election that starts moves the node to the next term as a candidate that has voted
  for itself, and asks every other peer exactly once, with its term and its last log position. The
  write of the term and the vote to the state file comes after the last request: no request is
  ordered behind it.\<close>

lemma doElection_effects:
  "m_state r \<noteq> leader \<Longrightarrow>
   (let (r', es) = doElection now r in
      m_state r' = candidate \<and> m_currentTerm r' = m_currentTerm r + 1 \<and> m_voteForId r' = m_id r
      \<and> m_lastElectionTime r' = now \<and> m_logs r' = m_logs r
      \<and> es = map (\<lambda>i. Send_vote i \<lparr>rv_term = m_currentTerm r + 1, rv_candidateid = m_id r,
                  rv_lastlogindex = getLastLogIndex r, rv_lastlogterm = getLastLogTerm r\<rparr>)
               (other_peers r) @ [Persist (fmp r')]
      \<and> distinct (other_peers r)
      \<and> set (other_peers r) = {i. 0 \<le> i \<and> i < int (m_peers_size r) \<and> i \<noteq> m_id r})"
  unfolding doElection_def doElection_locked_def Let_def other_peers_set
  by (simp add: vote_request_def other_peers_def distinct_map)

theorem doElection_effects_witness:
  "snd (doElection 5 (fresh_node 0 3)) =
     [Send_vote 1 \<lparr>rv_term = 1, rv_candidateid = 0, rv_lastlogindex = 0, rv_lastlogterm = 0\<rparr>,
      Send_vote 2 \<lparr>rv_term = 1, rv_candidateid = 0, rv_lastlogindex = 0, rv_lastlogterm = 0\<rparr>,
      Persist (fmp (fst (doElection 5 (fresh_node 0 3))))]"
proof -
  have "m_state (fresh_node 0 3) \<noteq> leader" by (simp add: fresh_node_eq)
  from doElection_effects [OF this, of 5] show ?thesis
    by (simp add: case_prod_beta fresh_node_eq other_peers_def getLastLogIndex_def
        getLastLogTerm_def getLastLogIndexandTerm_def numeral_3_eq_3)
qed

lemma handleRequestVoteResponse_cases:
  assumes "handleRequestVoteResponse args reply v ok r = Inr (r', v')"
  obtains
    (same) "r' = r" "v' = v"
  | (newer) "ok" "rvr_term reply > m_currentTerm r" "v' = v"
      "r' = persistState (r\<lparr>m_currentTerm := rvr_term reply, m_state := follower, m_voteForId := -1\<rparr>)"
  | (count) "ok" "rvr_term reply = m_currentTerm r" "m_state r = candidate"
      "rv_term args = m_currentTerm r" "rvr_votegranted reply" "v' = v + 1" "v' < majority r" "r' = r"
  | (elected) ni mi where "ok" "rvr_term reply = m_currentTerm r" "m_state r = candidate"
      "rv_term args = m_currentTerm r" "rvr_votegranted reply" "v' = v + 1" "v' \<ge> majority r"
      "r' = persistState (r\<lparr>m_state := leader, m_nextIndex := ni, m_matchIndex := mi\<rparr>)"
      "length ni = length (m_nextIndex r)" "length mi = length (m_matchIndex r)"
      "reset_peers (m_id r) (getLastLogIndex r + 1) (map int [0..<m_peers_size r])
         (r\<lparr>m_state := leader\<rparr>) = Inr (r\<lparr>m_state := leader, m_nextIndex := ni, m_matchIndex := mi\<rparr>)"
proof -
  consider (a) "\<not> ok" | (b) "ok" "rvr_term reply > m_currentTerm r"
    | (c) "ok" "rvr_term reply < m_currentTerm r"
    | (d) "ok" "rvr_term reply = m_currentTerm r"
        "m_state r \<noteq> candidate \<or> rv_term args \<noteq> m_currentTerm r \<or> \<not> rvr_votegranted reply"
    | (e) "ok" "rvr_term reply = m_currentTerm r" "m_state r = candidate"
        "rv_term args = m_currentTerm r" "rvr_votegranted reply"
    by linarith
  then show ?thesis
  proof cases
    case e
    show ?thesis
    proof (cases "v + 1 \<ge> majority r")
      case True
      with assms e obtain s where s: "reset_peers (m_id r) (getLastLogIndex r + 1)
          (map int [0..<m_peers_size r]) (r\<lparr>m_state := leader\<rparr>) = Inr s"
        and r': "r' = persistState s" "v' = v + 1"
        by (auto simp: handleRequestVoteResponse_def Let_def rbind_eq_Inr)
      from reset_peers_frame [OF s] obtain ni mi where
        "s = r\<lparr>m_state := leader, m_nextIndex := ni, m_matchIndex := mi\<rparr>"
        "length ni = length (m_nextIndex r)" "length mi = length (m_matchIndex r)"
        by auto
      with e r' True s show ?thesis by (intro elected [of mi ni]) simp_all
    next
      case False
      with assms e show ?thesis
        by (intro count) (auto simp: handleRequestVoteResponse_def Let_def)
    qed
  qed (use assms in \<open>auto simp: handleRequestVoteResponse_def split: if_splits intro: same newer\<close>)
qed

text \<open>On the vote that completes a majority of the cluster, a candidate of the term of the
  election becomes the leader: for every other peer the next index is the one after its own last
  entry and the match index is 0; one vote fewer changes nothing but the count. Votes of another
  term, for another election, or a refusal never make it a leader.\<close>

lemma handleRequestVoteResponse_elects:
  "vecs_ok r \<Longrightarrow> rvr_term reply \<le> m_currentTerm r \<Longrightarrow> m_state r = candidate \<Longrightarrow>
   \<exists>r' v'. handleRequestVoteResponse args reply v True r = Inr (r', v') \<and>
     (m_state r' = leader \<longleftrightarrow> rvr_term reply = m_currentTerm r \<and> rv_term args = m_currentTerm r
        \<and> rvr_votegranted reply \<and> 2 * (v + 1) > int (m_peers_size r)) \<and>
     (m_state r' \<noteq> leader \<longrightarrow> r' = r) \<and>
     (m_state r' = leader \<longrightarrow> m_currentTerm r' = m_currentTerm r \<and> m_logs r' = m_logs r \<and>
        (\<forall>j < m_peers_size r. int j \<noteq> m_id r \<longrightarrow>
           m_nextIndex r' ! j = getLastLogIndex r + 1 \<and> m_matchIndex r' ! j = 0))"
proof -
  assume ok: "vecs_ok r" and le: "rvr_term reply \<le> m_currentTerm r" and st: "m_state r = candidate"
  obtain r' where reset: "reset_peers (m_id r) (getLastLogIndex r + 1)
      (map int [0..<m_peers_size r]) (r\<lparr>m_state := leader\<rparr>) = Inr r'"
    and upd: "\<forall>j<m_peers_size r. int j \<noteq> m_id r \<longrightarrow>
                m_nextIndex r' ! j = getLastLogIndex r + 1 \<and> m_matchIndex r' ! j = 0"
    using reset_peers_ok [OF _ _ map_int_upt_subset, of "r\<lparr>m_state := leader\<rparr>" "m_peers_size r"
        "m_id r" "getLastLogIndex r + 1"] ok
    by (auto simp: vecs_ok_def)
  have maj: "majority r \<le> v + 1 \<longleftrightarrow> 2 * (v + 1) > int (m_peers_size r)"
    by (simp add: majority_def zdiv_int) presburger
  have frame: "m_state r' = leader" "m_currentTerm r' = m_currentTerm r" "m_logs r' = m_logs r"
    using reset_peers_frame [OF reset] by auto
  show ?thesis
    using le st reset upd frame maj
    by (auto simp: handleRequestVoteResponse_def Let_def)
qed

theorem handleRequestVoteResponse_elects_witness:
  "\<exists>r' v'. handleRequestVoteResponse
       \<lparr>rv_term = 1, rv_candidateid = 0, rv_lastlogindex = 0, rv_lastlogterm = 0\<rparr>
       \<lparr>rvr_term = 1, rvr_votegranted = True, rvr_votestate = normal\<rparr> 1 True
       (fst (doElection 5 (fresh_node 0 3))) = Inr (r', v') \<and> m_state r' = leader"
proof -
  let ?r = "fst (doElection 5 (fresh_node 0 3))"
  let ?a = "\<lparr>rv_term = 1, rv_candidateid = 0, rv_lastlogindex = 0, rv_lastlogterm = 0\<rparr>"
  let ?rep = "\<lparr>rvr_term = 1, rvr_votegranted = True, rvr_votestate = normal\<rparr>"
  have "vecs_ok ?r" "rvr_term ?rep \<le> m_currentTerm ?r" "m_state ?r = candidate"
    by (simp_all add: doElection_def doElection_locked_def fresh_node_eq vecs_ok_def Let_def)
  from handleRequestVoteResponse_elects [OF this, of ?a 1] show ?thesis
    by (auto simp: doElection_def doElection_locked_def fresh_node_eq Let_def)
qed


end
