(* ===== verification/Raft_Append.thy ===== *)
theory Raft_Append
  imports Raft_Election
begin

text \<open>
  The follower's side of log replication: \<open>raft::AppendEntries\<close> of src/raft/raft.cc. The handler
  holds the mutex twice. The first section (\<open>ae_begin\<close>) answers at once or works out which
  entries have to be written; the handler then waits, without the mutex, until the persister has
  made them stable; the second section (\<open>ae_finish\<close>) checks everything again on the state it
  finds and applies the writes. The deferred \<open>persistState\<close> runs on every return but the first.
\<close>

section \<open>First critical section\<close>

record PendingLogWrite =
  pw_vecIndex :: int
  pw_append :: bool
  pw_log :: LogEntry

fun ae_collect :: "raft \<Rightarrow> int \<Rightarrow> LogEntry list \<Rightarrow> PendingLogWrite list result" where
  "ae_collect r lastIndex [] = Inr []"
| "ae_collect r lastIndex (log # es) =
     (if logindex log \<le> m_lastSnapshotIndex r then ae_collect r lastIndex es
      else if logindex log > lastIndex then
        rbind (ae_collect r lastIndex es) (\<lambda>ps.
          Inr (\<lparr>pw_vecIndex = -1, pw_append = True, pw_log = log\<rparr> # ps))
      else
        (let v_logindex = logindex log - m_lastSnapshotIndex r - 1 in
         rbind (vec_at 1154 (m_logs r) v_logindex) (\<lambda>mine.
           if logterm mine = logterm log \<and> command mine \<noteq> command log then Inl (Exit_called (-1))
           else rbind (ae_collect r lastIndex es) (\<lambda>ps.
             Inr (if logterm mine \<noteq> logterm log
                  then \<lparr>pw_vecIndex = v_logindex, pw_append = False, pw_log = log\<rparr> # ps
                  else ps)))))"

text \<open>The loop that looks for the start of the conflicting term, downwards from \<open>index\<close>.\<close>

function ae_backtrack :: "raft \<Rightarrow> int \<Rightarrow> int \<Rightarrow> int result" where
  "ae_backtrack r prevLogTerm index =
     (if index < m_lastSnapshotIndex r then Inr (m_lastSnapshotIndex r + 1)
      else case (if index = m_lastSnapshotIndex r then Inr (m_lastSnapshotTerm r)
                 else rbind (vec_at 1360 (m_logs r) (index - m_lastSnapshotIndex r - 1))
                        (\<lambda>e. Inr (logterm e))) of
             Inl e \<Rightarrow> Inl e
           | Inr t \<Rightarrow> if t \<noteq> prevLogTerm then Inr (index + 1)
                     else ae_backtrack r prevLogTerm (index - 1))"
  by pat_completeness auto
termination
  by (relation "measure (\<lambda>(r, t, index). nat (index - m_lastSnapshotIndex r + 1))") auto

declare ae_backtrack.simps [simp del]

datatype ae_outcome = AE_reply AppendEntriesReply | AE_wait "PendingLogWrite list"

definition prev_term :: "nat \<Rightarrow> AppendEntriesArgs \<Rightarrow> raft \<Rightarrow> int result" where
  "prev_term ln req r =
     (if ae_prevlogindex req = m_lastSnapshotIndex r then Inr (m_lastSnapshotTerm r)
      else rbind (vec_at ln (m_logs r) (ae_prevlogindex req - m_lastSnapshotIndex r - 1))
             (\<lambda>e. Inr (logterm e)))"

definition ae_accept :: "int \<Rightarrow> AppendEntriesArgs \<Rightarrow> raft \<Rightarrow> raft" where
  "ae_accept now req r =
     (let r1 = (if ae_term req > m_currentTerm r
                then r\<lparr>m_state := follower, m_currentTerm := ae_term req, m_voteForId := -1\<rparr>
                else r)
      in r1\<lparr>m_state := follower, m_lastElectionTime := now\<rparr>)"

definition refuse :: "raft \<Rightarrow> int \<Rightarrow> AppendEntriesReply" where
  "refuse r n = \<lparr>aer_term = m_currentTerm r, aer_success = False, aer_updatenextindex = n\<rparr>"

definition ae_begin :: "int \<Rightarrow> AppendEntriesArgs \<Rightarrow> raft \<Rightarrow> (raft \<times> ae_outcome) result" where
  "ae_begin now req r =
     (if ae_term req < m_currentTerm r then Inr (r, AE_reply (refuse r (-100)))
      else
        let r2 = ae_accept now req r; lastIndex = getLastLogIndex r2 in
        rbind (assert_at 1055 (m_currentTerm r2 = ae_term req)) (\<lambda>_.
        if ae_prevlogindex req > lastIndex then
          Inr (persistState r2, AE_reply (refuse r2 (lastIndex + 1)))
        else if ae_prevlogindex req < m_lastSnapshotIndex r2 then
          Inr (persistState r2, AE_reply (refuse r2 (m_lastSnapshotIndex r2 + 1)))
        else
          rbind (assert_at 1099 (ae_prevlogindex req \<ge> m_lastSnapshotIndex r2
                                 \<and> ae_prevlogindex req \<le> getLastLogIndex r2)) (\<lambda>_.
          rbind (prev_term 1112 req r2) (\<lambda>logtermInM_logs.
          if ae_prevlogterm req = logtermInM_logs then
            rbind (ae_collect r2 lastIndex (ae_entries req)) (\<lambda>pendingWrites.
            Inr (r2, AE_wait pendingWrites))
          else
            rbind (prev_term 1346 req r2) (\<lambda>prevLogTerm.
            rbind (ae_backtrack r2 prevLogTerm (ae_prevlogindex req)) (\<lambda>n.
            Inr (persistState r2, AE_reply (refuse r2 n))))))))"

section \<open>Second critical section\<close>

text \<open>
  The check of the pending writes: \<open>Some n\<close> is the refusal with \<open>updatenextindex = n\<close>.
\<close>

fun ae_validate :: "raft \<Rightarrow> int \<Rightarrow> PendingLogWrite list \<Rightarrow> int option" where
  "ae_validate r simulatedLastIndex [] = None"
| "ae_validate r simulatedLastIndex (item # items) =
     (if logindex (pw_log item) \<le> m_lastSnapshotIndex r then ae_validate r simulatedLastIndex items
      else if pw_append item then
        (let expectedNextIndex = simulatedLastIndex + 1 in
         if logindex (pw_log item) \<noteq> expectedNextIndex then Some expectedNextIndex
         else ae_validate r (logindex (pw_log item)) items)
      else if pw_vecIndex item < 0 \<or> pw_vecIndex item \<ge> int (length (m_logs r)) then
        Some (getLastLogIndex r + 1)
      else if logindex (m_logs r ! nat (pw_vecIndex item)) \<noteq> logindex (pw_log item) then
        Some (getLastLogIndex r + 1)
      else ae_validate r simulatedLastIndex items)"

fun ae_apply :: "int \<Rightarrow> PendingLogWrite list \<Rightarrow> LogEntry list \<Rightarrow> LogEntry list" where
  "ae_apply snap [] logs = logs"
| "ae_apply snap (item # items) logs =
     (if logindex (pw_log item) \<le> snap then ae_apply snap items logs
      else if pw_append item then ae_apply snap items (logs @ [pw_log item])
      else ae_apply snap items (logs[nat (pw_vecIndex item) := pw_log item]))"

text \<open>
  The term of the entry before the request's, as the second section reads it: \<open>None\<close> when the
  position is outside the vector, which that section checks.
\<close>

definition current_prev_term :: "AppendEntriesArgs \<Rightarrow> raft \<Rightarrow> int option" where
  "current_prev_term req r =
     (if ae_prevlogindex req = m_lastSnapshotIndex r then Some (m_lastSnapshotTerm r)
      else let prevVecIndex = ae_prevlogindex req - m_lastSnapshotIndex r - 1 in
           if prevVecIndex < 0 \<or> prevVecIndex \<ge> int (length (m_logs r)) then None
           else Some (logterm (m_logs r ! nat prevVecIndex)))"

definition ae_commit :: "AppendEntriesArgs \<Rightarrow> PendingLogWrite list \<Rightarrow> raft \<Rightarrow> raft" where
  "ae_commit req pendingWrites r =
     (let r1 = r\<lparr>m_logs := ae_apply (m_lastSnapshotIndex r) pendingWrites (m_logs r)\<rparr>;
          lastIndex = getLastLogIndex r1;
          r2 = r1\<lparr>m_stableLogIndex := max (m_stableLogIndex r1) lastIndex\<rparr>
      in if ae_leadercommit req > m_commitIndex r2
         then r2\<lparr>m_commitIndex := min (ae_leadercommit req) lastIndex\<rparr> else r2)"

definition ae_finish ::
  "AppendEntriesArgs \<Rightarrow> PendingLogWrite list \<Rightarrow> bool \<Rightarrow> raft \<Rightarrow> (raft \<times> AppendEntriesReply) result" where
  "ae_finish req pendingWrites is_stable r =
     (let currentLastIndex = getLastLogIndex r; refused = (\<lambda>n. Inr (persistState r, refuse r n)) in
      if \<not> is_stable \<or> m_currentTerm r \<noteq> ae_term req then refused (-100)
      else if ae_prevlogindex req > currentLastIndex then refused (currentLastIndex + 1)
      else if ae_prevlogindex req < m_lastSnapshotIndex r then refused (m_lastSnapshotIndex r + 1)
      else case current_prev_term req r of
        None \<Rightarrow> refused (m_lastSnapshotIndex r + 1)
      | Some currentPrevLogTerm \<Rightarrow>
          if currentPrevLogTerm \<noteq> ae_prevlogterm req then refused (m_lastSnapshotIndex r + 1)
          else case ae_validate r currentLastIndex pendingWrites of
            Some n \<Rightarrow> refused n
          | None \<Rightarrow>
              let r' = ae_commit req pendingWrites r in
              rbind (assert_at 1317 (getLastLogIndex r' \<ge> m_commitIndex r')) (\<lambda>_.
              Inr (persistState r', \<lparr>aer_term = m_currentTerm r', aer_success = True,
                                     aer_updatenextindex = -100\<rparr>)))"

text \<open>The handler when no other thread gets the mutex during the wait.\<close>

definition AppendEntries ::
  "int \<Rightarrow> AppendEntriesArgs \<Rightarrow> bool \<Rightarrow> raft \<Rightarrow> (raft \<times> AppendEntriesReply) result" where
  "AppendEntries now req is_stable r =
     rbind (ae_begin now req r) (\<lambda>(r1, outcome).
       case outcome of AE_reply rep \<Rightarrow> Inr (r1, rep)
       | AE_wait pendingWrites \<Rightarrow> ae_finish req pendingWrites is_stable r1)"

lemmas append_defs = ae_begin_def ae_finish_def AppendEntries_def

section \<open>The first section on a well-formed log\<close>

lemma ae_accept_simps [simp]:
  "m_logs (ae_accept now req r) = m_logs r"
  "m_lastSnapshotIndex (ae_accept now req r) = m_lastSnapshotIndex r"
  "m_lastSnapshotTerm (ae_accept now req r) = m_lastSnapshotTerm r"
  "m_commitIndex (ae_accept now req r) = m_commitIndex r"
  "m_stableLogIndex (ae_accept now req r) = m_stableLogIndex r"
  "m_lastApplied (ae_accept now req r) = m_lastApplied r"
  "m_nextIndex (ae_accept now req r) = m_nextIndex r"
  "m_matchIndex (ae_accept now req r) = m_matchIndex r"
  "m_peers_size (ae_accept now req r) = m_peers_size r"
  "m_id (ae_accept now req r) = m_id r"
  "m_state (ae_accept now req r) = follower"
  "m_lastElectionTime (ae_accept now req r) = now"
  "m_currentTerm (ae_accept now req r) = max (m_currentTerm r) (ae_term req)"
  by (simp_all add: ae_accept_def)

lemma getLast_ae_accept [simp]:
  "getLastLogIndex (ae_accept now req r) = getLastLogIndex r"
  "getLastLogTerm (ae_accept now req r) = getLastLogTerm r"
  by (simp_all add: getLastLogIndex_def getLastLogTerm_def getLastLogIndexandTerm_def)

lemma raft_ok_ae_accept [simp]: "raft_ok (ae_accept now req r) = raft_ok r"
  by (simp add: raft_ok_defs log_ok_def)

lemma ae_accept_quiet: "m_currentTerm r \<le> ae_term req \<Longrightarrow> quiet_step r (ae_accept now req r)"
  by (auto simp: quiet_step_def ae_accept_def)

lemma log_ok_ae_accept [simp]: "log_ok (ae_accept now req r) = log_ok r"
  by (simp add: log_ok_def)

lemma vec_at_log_ok:
  "log_ok r \<Longrightarrow> m_lastSnapshotIndex r < i \<Longrightarrow> i \<le> getLastLogIndex r \<Longrightarrow>
     vec_at ln (m_logs r) (i - m_lastSnapshotIndex r - 1) =
       Inr (m_logs r ! nat (i - m_lastSnapshotIndex r - 1))"
  by (simp add: vec_at_in_range last_index_contiguous)

lemma logindex_log_ok:
  "log_ok r \<Longrightarrow> m_lastSnapshotIndex r < i \<Longrightarrow> i \<le> getLastLogIndex r \<Longrightarrow>
     logindex (m_logs r ! nat (i - m_lastSnapshotIndex r - 1)) = i"
  by (auto simp: last_index_contiguous log_ok_def contiguous_def)

text \<open>The entry a node holds at a log index, for an index between the snapshot and the log's end.\<close>

definition entry_at :: "raft \<Rightarrow> int \<Rightarrow> LogEntry" where
  "entry_at r i = m_logs r ! nat (i - m_lastSnapshotIndex r - 1)"

text \<open>An entry of the request that contradicts the node's log: same index and term, another
  command.\<close>

definition contradicts :: "raft \<Rightarrow> LogEntry \<Rightarrow> bool" where
  "contradicts r e \<longleftrightarrow> m_lastSnapshotIndex r < logindex e \<and> logindex e \<le> getLastLogIndex r
     \<and> logterm (entry_at r (logindex e)) = logterm e \<and> command (entry_at r (logindex e)) \<noteq> command e"

lemma ae_collect_step:
  assumes "log_ok r" "m_lastSnapshotIndex r < logindex e" "logindex e \<le> getLastLogIndex r"
  shows "ae_collect r (getLastLogIndex r) (e # es) =
    (if contradicts r e then Inl (Exit_called (-1))
     else rbind (ae_collect r (getLastLogIndex r) es) (\<lambda>ps.
       Inr (if logterm (entry_at r (logindex e)) \<noteq> logterm e
            then \<lparr>pw_vecIndex = logindex e - m_lastSnapshotIndex r - 1, pw_append = False,
                   pw_log = e\<rparr> # ps else ps)))"
  using assms(2,3) by (auto simp: vec_at_log_ok [OF assms] contradicts_def entry_at_def Let_def)

lemma ae_collect_ok:
  "log_ok r \<Longrightarrow> \<forall>e \<in> set es. \<not> contradicts r e \<Longrightarrow>
     \<exists>ps. ae_collect r (getLastLogIndex r) es = Inr ps"
proof (induction es)
  case (Cons e es)
  then obtain ps where ps: "ae_collect r (getLastLogIndex r) es = Inr ps" by auto
  show ?case
  proof (cases "m_lastSnapshotIndex r < logindex e \<and> logindex e \<le> getLastLogIndex r")
    case True
    with Cons.prems ps show ?thesis by (subst ae_collect_step) auto
  qed (use ps in auto)
qed simp

lemma ae_collect_exit:
  "log_ok r \<Longrightarrow> \<exists>e \<in> set es. contradicts r e \<Longrightarrow>
     ae_collect r (getLastLogIndex r) es = Inl (Exit_called (-1))"
proof (induction es)
  case (Cons e es)
  show ?case
  proof (cases "m_lastSnapshotIndex r < logindex e \<and> logindex e \<le> getLastLogIndex r")
    case True
    have "contradicts r e \<or> ae_collect r (getLastLogIndex r) es = Inl (Exit_called (-1))"
      using Cons by auto
    with True Cons.prems(1) show ?thesis by (subst ae_collect_step) auto
  next
    case False
    then have "\<not> contradicts r e" by (auto simp: contradicts_def)
    with Cons False show ?thesis by auto
  qed
qed simp

lemma prev_term_ok:
  "log_ok r \<Longrightarrow> m_lastSnapshotIndex r \<le> ae_prevlogindex req \<Longrightarrow> ae_prevlogindex req \<le> getLastLogIndex r \<Longrightarrow>
     prev_term ln req r = Inr (if ae_prevlogindex req = m_lastSnapshotIndex r then m_lastSnapshotTerm r
                               else logterm (entry_at r (ae_prevlogindex req)))"
  by (auto simp: prev_term_def vec_at_log_ok entry_at_def)

text \<open>The term of the log at an index, the snapshot's own index included.\<close>

definition term_at :: "raft \<Rightarrow> int \<Rightarrow> int" where
  "term_at r i = (if i = m_lastSnapshotIndex r then m_lastSnapshotTerm r else logterm (entry_at r i))"

lemma ae_backtrack_spec:
  assumes "log_ok r" "m_lastSnapshotIndex r - 1 \<le> i" "i \<le> getLastLogIndex r"
  shows "\<exists>n. ae_backtrack r t i = Inr n \<and> m_lastSnapshotIndex r < n
    \<and> n \<le> max (i + 1) (m_lastSnapshotIndex r + 1)
    \<and> (\<forall>j. n \<le> j \<and> j \<le> i \<longrightarrow> term_at r j = t)
    \<and> (n > m_lastSnapshotIndex r + 1 \<longrightarrow> term_at r (n - 1) \<noteq> t)"
  using assms
proof (induction r t i rule: ae_backtrack.induct)
  case (1 r t i)
  show ?case
  proof (cases "i < m_lastSnapshotIndex r")
    case True
    then show ?thesis by (subst ae_backtrack.simps) auto
  next
    case False
    have at: "(if i = m_lastSnapshotIndex r then Inr (m_lastSnapshotTerm r)
        else rbind (vec_at 1360 (m_logs r) (i - m_lastSnapshotIndex r - 1)) (\<lambda>e. Inr (logterm e)))
        = Inr (term_at r i)"
      using False "1.prems" by (auto simp: term_at_def vec_at_log_ok entry_at_def)
    show ?thesis
    proof (cases "term_at r i = t")
      case True
      then obtain n where n: "ae_backtrack r t (i - 1) = Inr n" "m_lastSnapshotIndex r < n"
          "n \<le> max i (m_lastSnapshotIndex r + 1)"
          "\<forall>j. n \<le> j \<and> j \<le> i - 1 \<longrightarrow> term_at r j = t"
          "n > m_lastSnapshotIndex r + 1 \<longrightarrow> term_at r (n - 1) \<noteq> t"
        using "1.IH" [OF False at _ "1.prems"(1)] False "1.prems" by auto
      moreover have "ae_backtrack r t i = Inr n"
        using False True at n(1) by (subst ae_backtrack.simps) simp
      moreover have "term_at r j = t" if "n \<le> j" "j \<le> i" for j
        using n(4) True that by (cases "j = i") auto
      ultimately show ?thesis by auto
    next
      case ne: False
      then have "ae_backtrack r t i = Inr (i + 1)"
        using False at by (subst ae_backtrack.simps) simp
      then show ?thesis using False ne by auto
    qed
  qed
qed

text \<open>Every way the first section can end on a well-formed log.\<close>

lemma ae_begin_cases:
  assumes "log_ok r" "ae_begin now req r = Inr (r', out)"
  obtains
    (stale) "ae_term req < m_currentTerm r" "r' = r" "out = AE_reply (refuse r (-100))"
  | (ahead) "m_currentTerm r \<le> ae_term req" "ae_prevlogindex req > getLastLogIndex r"
      "r' = persistState (ae_accept now req r)"
      "out = AE_reply (refuse (ae_accept now req r) (getLastLogIndex r + 1))"
  | (behind) "m_currentTerm r \<le> ae_term req" "ae_prevlogindex req < m_lastSnapshotIndex r"
      "r' = persistState (ae_accept now req r)"
      "out = AE_reply (refuse (ae_accept now req r) (m_lastSnapshotIndex r + 1))"
  | (mismatch) n where "m_currentTerm r \<le> ae_term req"
      "m_lastSnapshotIndex r \<le> ae_prevlogindex req" "ae_prevlogindex req \<le> getLastLogIndex r"
      "ae_prevlogterm req \<noteq> term_at r (ae_prevlogindex req)"
      "ae_backtrack (ae_accept now req r) (term_at r (ae_prevlogindex req)) (ae_prevlogindex req) = Inr n"
      "r' = persistState (ae_accept now req r)" "out = AE_reply (refuse (ae_accept now req r) n)"
  | (wait) ps where "m_currentTerm r \<le> ae_term req"
      "m_lastSnapshotIndex r \<le> ae_prevlogindex req" "ae_prevlogindex req \<le> getLastLogIndex r"
      "ae_prevlogterm req = term_at r (ae_prevlogindex req)"
      "ae_collect (ae_accept now req r) (getLastLogIndex r) (ae_entries req) = Inr ps"
      "r' = ae_accept now req r" "out = AE_wait ps"
proof -
  let ?a = "ae_accept now req r"
  have pt: "prev_term ln req ?a = Inr (term_at r (ae_prevlogindex req))"
    if "m_lastSnapshotIndex r \<le> ae_prevlogindex req" "ae_prevlogindex req \<le> getLastLogIndex r" for ln
    using prev_term_ok [of ?a req ln] that assms(1) by (simp add: term_at_def entry_at_def)
  consider "ae_term req < m_currentTerm r"
    | "m_currentTerm r \<le> ae_term req" "ae_prevlogindex req > getLastLogIndex r"
    | "m_currentTerm r \<le> ae_term req" "ae_prevlogindex req \<le> getLastLogIndex r"
        "ae_prevlogindex req < m_lastSnapshotIndex r"
    | "m_currentTerm r \<le> ae_term req" "m_lastSnapshotIndex r \<le> ae_prevlogindex req"
        "ae_prevlogindex req \<le> getLastLogIndex r"
    by linarith
  then show ?thesis
  proof cases
    case 4
    show ?thesis
    proof (cases "ae_prevlogterm req = term_at r (ae_prevlogindex req)")
      case True
      with 4 assms(2) pt [OF 4(2,3)] show ?thesis
        by (auto simp: ae_begin_def Let_def rbind_eq_Inr intro: wait)
    next
      case False
      with 4 assms(2) pt [OF 4(2,3)] show ?thesis
        by (auto simp: ae_begin_def Let_def rbind_eq_Inr intro: mismatch)
    qed
  qed (use assms(2) in \<open>auto simp: ae_begin_def Let_def intro: stale ahead behind\<close>)
qed

section \<open>The second section on a well-formed node\<close>

lemma ae_apply_length: "length logs \<le> length (ae_apply snap ps logs)"
proof (induction snap ps logs rule: ae_apply.induct)
  case (2 snap item items logs)
  then show ?case by (auto intro: order_trans [rotated])
qed simp

lemma ae_validate_contiguous:
  assumes "log_ok r" "ae_validate r (m_lastSnapshotIndex r + int (length logs)) ps = None"
    "contiguous (m_lastSnapshotIndex r) logs" "length (m_logs r) \<le> length logs"
  shows "contiguous (m_lastSnapshotIndex r) (ae_apply (m_lastSnapshotIndex r) ps logs)"
  using assms(2-4)
proof (induction ps arbitrary: logs)
  case (Cons p ps)
  show ?case
  proof (cases "logindex (pw_log p) \<le> m_lastSnapshotIndex r")
    case True
    then show ?thesis using Cons by simp
  next
    case False
    show ?thesis
    proof (cases "pw_append p")
      case True
      with False Cons.prems have idx: "logindex (pw_log p) = m_lastSnapshotIndex r + int (length logs) + 1"
        and v: "ae_validate r (m_lastSnapshotIndex r + int (length (logs @ [pw_log p]))) ps = None"
        by (auto simp: Let_def algebra_simps split: if_splits)
      have "contiguous (m_lastSnapshotIndex r) (logs @ [pw_log p])"
        using Cons.prems(2) idx by (simp add: contiguous_snoc)
      from Cons.IH [OF v this] show ?thesis using False True Cons.prems(3) by simp
    next
      case upd: False
      let ?k = "nat (pw_vecIndex p)"
      from False upd Cons.prems(1) have k: "?k < length (m_logs r)"
        and idx: "logindex (pw_log p) = logindex (m_logs r ! ?k)"
        and v: "ae_validate r (m_lastSnapshotIndex r + int (length logs)) ps = None"
        by (auto simp: Let_def nat_less_iff split: if_splits)
      have "logindex (logs ! ?k) = logindex (m_logs r ! ?k)"
        using k Cons.prems(2,3) assms(1) by (simp add: log_ok_def contiguous_def)
      then have "contiguous (m_lastSnapshotIndex r) (logs[?k := pw_log p])"
        using contiguous_update [OF Cons.prems(2), of "pw_log p" ?k] idx by simp
      from Cons.IH [OF _ this] v show ?thesis using False upd Cons.prems(3) by simp
    qed
  qed
qed simp

lemma ae_commit_simps [simp]:
  "m_lastSnapshotIndex (ae_commit req ps r) = m_lastSnapshotIndex r"
  "m_lastSnapshotTerm (ae_commit req ps r) = m_lastSnapshotTerm r"
  "m_lastApplied (ae_commit req ps r) = m_lastApplied r"
  "m_currentTerm (ae_commit req ps r) = m_currentTerm r"
  "m_voteForId (ae_commit req ps r) = m_voteForId r"
  "m_state (ae_commit req ps r) = m_state r"
  "m_id (ae_commit req ps r) = m_id r"
  "m_peers_size (ae_commit req ps r) = m_peers_size r"
  "m_nextIndex (ae_commit req ps r) = m_nextIndex r"
  "m_matchIndex (ae_commit req ps r) = m_matchIndex r"
  "m_logs (ae_commit req ps r) = ae_apply (m_lastSnapshotIndex r) ps (m_logs r)"
  by (simp_all add: ae_commit_def Let_def)

lemma commit_ae_commit:
  "m_commitIndex (ae_commit req ps r) =
     (if ae_leadercommit req > m_commitIndex r
      then min (ae_leadercommit req) (getLastLogIndex (ae_commit req ps r)) else m_commitIndex r)"
  by (simp add: ae_commit_def Let_def getLastLogIndex_def getLastLogIndexandTerm_def)

lemma ae_commit_ok:
  assumes "raft_ok r" "ae_validate r (getLastLogIndex r) ps = None"
  shows "raft_ok (ae_commit req ps r)" "getLastLogIndex r \<le> getLastLogIndex (ae_commit req ps r)"
    "m_commitIndex r \<le> m_commitIndex (ae_commit req ps r)"
    "m_commitIndex (ae_commit req ps r) \<le> getLastLogIndex (ae_commit req ps r)"
proof -
  let ?c = "ae_commit req ps r"
  have ok: "log_ok r" and marks: "marks_ok r" and vecs: "vecs_ok r"
    using assms(1) by (auto simp: raft_ok_def)
  have c: "log_ok ?c"
    using ae_validate_contiguous [OF ok, of "m_logs r" ps] assms(2) ok last_index_contiguous [OF ok]
    by (simp add: log_ok_def)
  show last: "getLastLogIndex r \<le> getLastLogIndex ?c"
    using last_index_contiguous [OF c] last_index_contiguous [OF ok]
      ae_apply_length [of "m_logs r" "m_lastSnapshotIndex r" ps] by simp
  show com: "m_commitIndex r \<le> m_commitIndex ?c" "m_commitIndex ?c \<le> getLastLogIndex ?c"
    using last marks unfolding commit_ae_commit marks_ok_def by auto
  show "raft_ok ?c"
    using c com marks vecs unfolding raft_ok_defs by auto
qed

lemma ae_finish_cases:
  assumes "raft_ok r"
  obtains
    (refused) n where "ae_finish req ps stab r = Inr (persistState r, refuse r n)"
  | (accepted) "stab" "m_currentTerm r = ae_term req" "ae_prevlogindex req \<le> getLastLogIndex r"
      "m_lastSnapshotIndex r \<le> ae_prevlogindex req"
      "ae_prevlogterm req = term_at r (ae_prevlogindex req)"
      "ae_validate r (getLastLogIndex r) ps = None"
      "ae_finish req ps stab r = Inr (persistState (ae_commit req ps r),
         \<lparr>aer_term = m_currentTerm r, aer_success = True, aer_updatenextindex = -100\<rparr>)"
proof (cases "ae_validate r (getLastLogIndex r) ps")
  case None
  have prev: "current_prev_term req r = Some (term_at r (ae_prevlogindex req))"
    if "m_lastSnapshotIndex r \<le> ae_prevlogindex req" "ae_prevlogindex req \<le> getLastLogIndex r"
    using that assms by (auto simp: current_prev_term_def Let_def term_at_def entry_at_def raft_ok_def
        last_index_contiguous)
  show ?thesis
  proof (cases "stab \<and> m_currentTerm r = ae_term req \<and> ae_prevlogindex req \<le> getLastLogIndex r
      \<and> m_lastSnapshotIndex r \<le> ae_prevlogindex req
      \<and> ae_prevlogterm req = term_at r (ae_prevlogindex req)")
    case True
    with None prev ae_commit_ok(4) [OF assms None, of req] show ?thesis
      by (intro accepted) (auto simp: ae_finish_def Let_def)
  next
    case False
    with None prev have "\<exists>n. ae_finish req ps stab r = Inr (persistState r, refuse r n)"
      by (auto simp: ae_finish_def Let_def not_le)
    then show ?thesis using refused by blast
  qed
next
  case (Some n)
  then have "\<exists>n. ae_finish req ps stab r = Inr (persistState r, refuse r n)"
    by (auto simp: ae_finish_def Let_def split: option.split)
  then show ?thesis using refused by blast
qed

section \<open>What a successful append does to the log\<close>

lemma LogEntry_eqI:
  "command a = command b \<Longrightarrow> logterm a = logterm b \<Longrightarrow> logindex a = logindex b \<Longrightarrow> a = (b::LogEntry)"
  by (rule LogEntry.equality) simp_all

lemma contiguous_Cons:
  "contiguous p (e # es) \<longleftrightarrow> logindex e = p + 1 \<and> contiguous (p + 1) es"
  using contiguous_append [of p "[e]" es] by (simp add: contiguous_def)

lemma take_snoc_drop_update:
  "a < length L \<Longrightarrow> take (Suc a) (L[a := e]) @ xs @ drop (Suc a + n) (L[a := e])
     = take a L @ (e # xs) @ drop (a + Suc n) L"
  by (simp add: take_Suc_conv_app_nth)

text \<open>
  The writes collected for a contiguous request that starts behind index \<open>p\<close> pass the check and
  replace exactly the positions of the request; \<open>L\<close> is the log as the writes before have left
  it, equal to the node's log behind \<open>p\<close>.
\<close>

lemma collect_apply:
  assumes "log_ok r" "ae_collect r (getLastLogIndex r) es = Inr ps" "contiguous p es"
    "m_lastSnapshotIndex r \<le> p"
    "length L = max (length (m_logs r)) (nat (p - m_lastSnapshotIndex r))"
    "\<forall>k < length (m_logs r). nat (p - m_lastSnapshotIndex r) \<le> k \<longrightarrow> L ! k = m_logs r ! k"
  shows "ae_apply (m_lastSnapshotIndex r) ps L =
      take (nat (p - m_lastSnapshotIndex r)) L @ es @ drop (nat (p - m_lastSnapshotIndex r) + length es) L
    \<and> ae_validate r (m_lastSnapshotIndex r + int (length L)) ps = None"
  using assms(2-6)
proof (induction es arbitrary: p L ps)
  case (Cons e es)
  let ?s = "m_lastSnapshotIndex r" and ?n = "length (m_logs r)"
  let ?a = "nat (p - ?s)"
  have idx: "logindex e = p + 1" and cont: "contiguous (p + 1) es"
    using Cons.prems(2) by (auto simp: contiguous_Cons)
  have nx: "nat (p + 1 - ?s) = Suc ?a" using Cons.prems(3) by auto
  have last: "getLastLogIndex r = ?s + int ?n" using assms(1) by (rule last_index_contiguous)
  show ?case
  proof (cases "logindex e \<le> getLastLogIndex r")
    case True
    then have a: "?a < ?n" using idx last Cons.prems(3) by auto
    then have len: "length L = ?n" using Cons.prems(4) by simp
    have mine: "entry_at r (logindex e) = m_logs r ! ?a" "L ! ?a = m_logs r ! ?a"
      using idx Cons.prems(5) a by (auto simp: entry_at_def)
    have gt: "?s < logindex e" using idx Cons.prems(3) by simp
    have vi: "logindex e - ?s - 1 = p - ?s" using idx by simp
    have "\<not> contradicts r e"
      using Cons.prems(1) unfolding ae_collect_step [OF assms(1) gt True] by (auto split: if_splits)
    moreover from this have "rbind (ae_collect r (getLastLogIndex r) es) (\<lambda>ps.
        Inr (if logterm (m_logs r ! ?a) \<noteq> logterm e
             then \<lparr>pw_vecIndex = p - ?s, pw_append = False, pw_log = e\<rparr> # ps else ps)) = Inr ps"
      using Cons.prems(1) mine(1) unfolding ae_collect_step [OF assms(1) gt True] vi by simp
    ultimately obtain ps' where "\<not> contradicts r e"
      and ps': "ae_collect r (getLastLogIndex r) es = Inr ps'"
      and ps: "ps = (if logterm (m_logs r ! ?a) \<noteq> logterm e
        then \<lparr>pw_vecIndex = p - ?s, pw_append = False, pw_log = e\<rparr> # ps' else ps')"
      unfolding rbind_eq_Inr by auto
    let ?L = "L[?a := e]"
    have step: "ae_apply ?s ps' ?L = take (Suc ?a) ?L @ es @ drop (Suc ?a + length es) ?L
        \<and> ae_validate r (?s + int (length ?L)) ps' = None"
      using Cons.IH [OF ps' cont, of ?L] Cons.prems(3,5) a len nx by auto
    have eq: "take (Suc ?a) ?L @ es @ drop (Suc ?a + length es) ?L
        = take ?a L @ (e # es) @ drop (?a + length (e # es)) L"
      using take_snoc_drop_update [of ?a L e es "length es"] a len by simp
    show ?thesis
    proof (cases "logterm (m_logs r ! ?a) = logterm e")
      case True
      have "command (m_logs r ! ?a) = command e"
        using \<open>\<not> contradicts r e\<close> True \<open>logindex e \<le> getLastLogIndex r\<close> idx Cons.prems(3) mine
        by (auto simp: contradicts_def)
      moreover have "logindex (m_logs r ! ?a) = logindex e"
        using assms(1) a idx Cons.prems(3) by (simp add: log_ok_def contiguous_def)
      ultimately have "L ! ?a = e" using True mine(2) by (auto intro: LogEntry_eqI)
      then have "?L = L" by (metis list_update_id)
      with step eq True ps show ?thesis by simp
    next
      case False
      moreover have "0 \<le> p - ?s" "p - ?s < int ?n" using a Cons.prems(3) by auto
      moreover have "logindex (m_logs r ! ?a) = logindex e"
        using assms(1) a idx Cons.prems(3) by (simp add: log_ok_def contiguous_def)
      ultimately show ?thesis using step eq ps idx Cons.prems(3) by auto
    qed
  next
    case False
    then have len: "length L = ?a" using idx last Cons.prems(3,4) by auto
    from False Cons.prems(1,3) idx obtain ps' where
      ps': "ae_collect r (getLastLogIndex r) es = Inr ps'"
      and ps: "ps = \<lparr>pw_vecIndex = -1, pw_append = True, pw_log = e\<rparr> # ps'"
      by (auto simp: rbind_eq_Inr)
    have "ae_apply ?s ps' (L @ [e]) = take (Suc ?a) (L @ [e]) @ es @ drop (Suc ?a + length es) (L @ [e])
        \<and> ae_validate r (?s + int (length (L @ [e]))) ps' = None"
      using Cons.IH [OF ps' cont, of "L @ [e]"] Cons.prems(3,4,5) len nx False idx last
      by (auto simp: nth_append)
    then show ?thesis using ps idx len Cons.prems(3) by (auto simp: Let_def algebra_simps)
  qed
qed auto

section \<open>Properties\<close>

lemma quiet_ae_begin: "ae_begin now req r = Inr (r', out) \<Longrightarrow> quiet_step r r'"
  using ae_accept_quiet [of r req now]
  by (auto simp: ae_begin_def Let_def rbind_eq_Inr split: if_splits)

lemma AppendEntries_frame:
  "AppendEntries now req b r = Inr (r', rep) \<Longrightarrow>
   m_lastSnapshotIndex r' = m_lastSnapshotIndex r \<and> m_lastSnapshotTerm r' = m_lastSnapshotTerm r
   \<and> m_currentTerm r \<le> m_currentTerm r'"
  by (auto simp: AppendEntries_def ae_begin_def ae_finish_def Let_def rbind_eq_Inr
      split: if_splits option.splits ae_outcome.splits)

lemma quiet_ae_commit: "quiet_step r (ae_commit req ps r)"
  by (simp add: quiet_step_def)

lemma quiet_ae_finish: "ae_finish req ps stab r = Inr (r', rep) \<Longrightarrow> quiet_step r r'"
  by (auto simp: ae_finish_def Let_def rbind_eq_Inr quiet_ae_commit split: if_splits option.splits)

text \<open>C14: On a well-formed node the first section of \<open>AppendEntries\<close> never fails an assertion or
  reads outside the log. It stops the process exactly when an entry of an accepted request has the
  index and the term of an entry of the node's log but another command; in every other case the
  node is still well-formed and its log and commit index are unchanged.\<close>

theorem ae_begin_safe:
  "raft_ok r \<Longrightarrow>
   (case ae_begin now req r of
      Inl f \<Rightarrow> f = Exit_called (-1) \<and> (\<exists>e \<in> set (ae_entries req). contradicts r e)
    | Inr (r', out) \<Rightarrow> raft_ok r' \<and> m_logs r' = m_logs r \<and> m_commitIndex r' = m_commitIndex r
        \<and> m_currentTerm r \<le> m_currentTerm r')"
proof -
  assume ok: "raft_ok r"
  let ?a = "ae_accept now req r"
  have lok: "log_ok ?a" using ok by (simp add: raft_ok_def)
  have con: "contradicts ?a e = contradicts r e" for e
    by (simp add: contradicts_def entry_at_def)
  have pt: "prev_term ln req ?a = Inr (term_at r (ae_prevlogindex req))"
    if "m_lastSnapshotIndex r \<le> ae_prevlogindex req" "ae_prevlogindex req \<le> getLastLogIndex r" for ln
    using prev_term_ok [of ?a req ln] that lok by (simp add: term_at_def entry_at_def)
  have bt: "\<exists>n. ae_backtrack ?a t (ae_prevlogindex req) = Inr n"
    if "m_lastSnapshotIndex r \<le> ae_prevlogindex req" "ae_prevlogindex req \<le> getLastLogIndex r" for t
    using ae_backtrack_spec [OF lok, of "ae_prevlogindex req" t] that by auto
  have col: "(\<exists>ps. ae_collect ?a (getLastLogIndex r) (ae_entries req) = Inr ps) \<or>
      ae_collect ?a (getLastLogIndex r) (ae_entries req) = Inl (Exit_called (-1))
      \<and> (\<exists>e \<in> set (ae_entries req). contradicts r e)"
    using ae_collect_ok [OF lok, of "ae_entries req"] ae_collect_exit [OF lok, of "ae_entries req"]
    by (auto simp: con)
  consider "ae_term req < m_currentTerm r" | "m_currentTerm r \<le> ae_term req"
      "ae_prevlogindex req > getLastLogIndex r \<or> ae_prevlogindex req < m_lastSnapshotIndex r"
    | "m_currentTerm r \<le> ae_term req" "m_lastSnapshotIndex r \<le> ae_prevlogindex req"
      "ae_prevlogindex req \<le> getLastLogIndex r"
    by linarith
  then show ?thesis
  proof cases
    case 3
    then show ?thesis
      using ok pt [OF 3(2,3)] bt [OF 3(2,3), of "term_at r (ae_prevlogindex req)"] col
      by (auto simp: ae_begin_def Let_def)
  qed (use ok in \<open>auto simp: ae_begin_def Let_def\<close>)
qed

theorem ae_begin_safe_witness:
  "case ae_begin 5 \<lparr>ae_term = 1, ae_leaderid = 1, ae_prevlogindex = 0, ae_prevlogterm = 0,
         ae_entries = [\<lparr>command = ''a'', logterm = 1, logindex = 1\<rparr>], ae_leadercommit = 0\<rparr>
       (fresh_node 0 3) of
     Inl _ \<Rightarrow> False | Inr (r', out) \<Rightarrow> raft_ok r'"
proof -
  have "raft_ok (fresh_node 0 3)"
    by (simp add: raft_ok_defs log_ok_def fresh_node_eq getLastLogIndex_def getLastLogIndexandTerm_def)
  from ae_begin_safe [OF this, where now = 5 and req = "\<lparr>ae_term = 1, ae_leaderid = 1, ae_prevlogindex = 0,
      ae_prevlogterm = 0, ae_entries = [\<lparr>command = ''a'', logterm = 1, logindex = 1\<rparr>],
      ae_leadercommit = 0\<rparr>"]
  show ?thesis
    by (auto simp: contradicts_def fresh_node_eq getLastLogIndex_def getLastLogIndexandTerm_def
        split: sum.splits)
qed

text \<open>C13: Whatever other threads did while the handler waited for its entries to become stable, the
  second section of \<open>AppendEntries\<close> ends normally on a well-formed node, for any list of
  pending writes: the assertion on the commit index holds, the log is still contiguous, it has not
  become shorter, and the commit index has not fallen and is not past the log's end.\<close>

theorem ae_finish_safe:
  "raft_ok r \<Longrightarrow>
   \<exists>r' rep. ae_finish req ps is_stable r = Inr (r', rep) \<and> raft_ok r'
     \<and> getLastLogIndex r \<le> getLastLogIndex r' \<and> m_commitIndex r \<le> m_commitIndex r'
     \<and> (aer_success rep \<longrightarrow> is_stable \<and> m_currentTerm r = ae_term req)
     \<and> (\<not> aer_success rep \<longrightarrow> m_logs r' = m_logs r \<and> m_commitIndex r' = m_commitIndex r)"
proof -
  assume ok: "raft_ok r"
  then show ?thesis
  proof (cases rule: ae_finish_cases [where req = req and ps = ps and stab = is_stable])
    case accepted
    then show ?thesis using ae_commit_ok [OF ok accepted(6), of req] by auto
  qed (use ok in \<open>auto simp: refuse_def\<close>)
qed

theorem ae_finish_safe_witness:
  "\<exists>r' rep. ae_finish \<lparr>ae_term = 0, ae_leaderid = 1, ae_prevlogindex = 0, ae_prevlogterm = 0,
         ae_entries = [], ae_leadercommit = 4\<rparr> [] True (fresh_node 0 3) = Inr (r', rep)
     \<and> raft_ok r'"
proof -
  have "raft_ok (fresh_node 0 3)"
    by (simp add: raft_ok_defs log_ok_def fresh_node_eq getLastLogIndex_def getLastLogIndexandTerm_def)
  from ae_finish_safe [OF this] show ?thesis by blast
qed

text \<open>The position in the vector of the first entry of a request.\<close>

definition req_start :: "AppendEntriesArgs \<Rightarrow> raft \<Rightarrow> nat" where
  "req_start req r = nat (ae_prevlogindex req - m_lastSnapshotIndex r)"

text \<open>A request that matches the node's log: not older than its term, its previous entry is in the
  log with the same term, and its entries follow that one and contradict nothing.\<close>

definition matching :: "AppendEntriesArgs \<Rightarrow> raft \<Rightarrow> bool" where
  "matching req r \<longleftrightarrow> m_currentTerm r \<le> ae_term req
     \<and> m_lastSnapshotIndex r \<le> ae_prevlogindex req \<and> ae_prevlogindex req \<le> getLastLogIndex r
     \<and> ae_prevlogterm req = term_at r (ae_prevlogindex req)
     \<and> contiguous (ae_prevlogindex req) (ae_entries req)
     \<and> (\<forall>e \<in> set (ae_entries req). \<not> contradicts r e)"

lemma append_matching:
  "raft_ok r \<Longrightarrow> matching req r \<Longrightarrow>
   \<exists>r'. AppendEntries now req True r = Inr (r', \<lparr>aer_term = ae_term req, aer_success = True,
                                                aer_updatenextindex = -100\<rparr>)
     \<and> raft_ok r' \<and> m_currentTerm r' = ae_term req \<and> m_state r' = follower
     \<and> m_logs r' = take (req_start req r) (m_logs r) @ ae_entries req
         @ drop (req_start req r + length (ae_entries req)) (m_logs r)
     \<and> m_commitIndex r' = max (m_commitIndex r) (min (ae_leadercommit req) (getLastLogIndex r'))"
proof -
  assume ok: "raft_ok r" and m: "matching req r"
  let ?a = "ae_accept now req r"
  have aok: "raft_ok ?a" using ok by simp
  have alog: "log_ok ?a" using ok by (simp add: raft_ok_def)
  have le: "m_currentTerm r \<le> ae_term req" and lo: "m_lastSnapshotIndex r \<le> ae_prevlogindex req"
    and hi: "ae_prevlogindex req \<le> getLastLogIndex r"
    and pt: "ae_prevlogterm req = term_at ?a (ae_prevlogindex req)"
    and cont: "contiguous (ae_prevlogindex req) (ae_entries req)"
    using m by (auto simp: matching_def term_at_def entry_at_def)
  have "\<forall>e \<in> set (ae_entries req). \<not> contradicts ?a e"
    using m by (auto simp: matching_def contradicts_def entry_at_def)
  from ae_collect_ok [OF alog this] obtain ps where
    ps: "ae_collect ?a (getLastLogIndex ?a) (ae_entries req) = Inr ps" by auto
  have app: "ae_apply (m_lastSnapshotIndex r) ps (m_logs r) =
      take (req_start req r) (m_logs r) @ ae_entries req
        @ drop (req_start req r + length (ae_entries req)) (m_logs r)"
    and val: "ae_validate ?a (getLastLogIndex ?a) ps = None"
    using collect_apply [OF alog ps cont, of "m_logs r"] lo hi last_index_contiguous [OF alog]
    by (auto simp: req_start_def)
  have pterm: "prev_term ln req ?a = Inr (ae_prevlogterm req)" for ln
    using prev_term_ok [OF alog, of req ln] lo hi pt by (simp add: term_at_def)
  have "ae_begin now req r = Inr (?a, AE_wait ps)"
    using le lo hi pterm ps by (simp add: ae_begin_def Let_def)
  then have run: "AppendEntries now req True r = ae_finish req ps True ?a"
    by (simp add: AppendEntries_def)
  from aok show ?thesis
  proof (cases rule: ae_finish_cases [where req = req and ps = ps and stab = True])
    case (refused n)
    have cp: "current_prev_term req ?a = Some (ae_prevlogterm req)"
      using lo hi pt last_index_contiguous [OF alog]
      by (auto simp: current_prev_term_def Let_def term_at_def entry_at_def)
    have "getLastLogIndex (ae_commit req ps ?a) \<ge> m_commitIndex (ae_commit req ps ?a)"
      by (rule ae_commit_ok(4) [OF aok val])
    with cp val le lo hi refused show ?thesis by (simp add: ae_finish_def Let_def refuse_def)
  next
    case accepted
    let ?c = "ae_commit req ps ?a"
    have "m_commitIndex ?c = max (m_commitIndex r) (min (ae_leadercommit req) (getLastLogIndex ?c))"
      using ae_commit_ok [OF aok accepted(6), of req] commit_ae_commit [of req ps ?a] by auto
    with accepted run ae_commit_ok [OF aok accepted(6), of req] app show ?thesis by simp
  qed
qed


text \<open>C6: A matching request whose entries become stable, with no other thread in between, is
  accepted, and the new log is the old one with exactly the positions of the request's entries
  overwritten (or added at the end): the entries before and the entries after them are kept. The
  commit index becomes the leader's, but never falls and never passes the log's end.\<close>

theorem AppendEntries_log:
  "raft_ok r \<Longrightarrow> matching req r \<Longrightarrow>
   \<exists>r'. AppendEntries now req True r = Inr (r', \<lparr>aer_term = ae_term req, aer_success = True,
                                                aer_updatenextindex = -100\<rparr>)
     \<and> raft_ok r' \<and> m_currentTerm r' = ae_term req \<and> m_state r' = follower
     \<and> m_logs r' = take (req_start req r) (m_logs r) @ ae_entries req
         @ drop (req_start req r + length (ae_entries req)) (m_logs r)
     \<and> m_commitIndex r' = max (m_commitIndex r) (min (ae_leadercommit req) (getLastLogIndex r'))"
  by (rule append_matching)

theorem AppendEntries_log_witness:
  "\<exists>r'. AppendEntries 5 \<lparr>ae_term = 1, ae_leaderid = 1, ae_prevlogindex = 0, ae_prevlogterm = 0,
       ae_entries = [\<lparr>command = ''a'', logterm = 1, logindex = 1\<rparr>], ae_leadercommit = 1\<rparr>
       True (fresh_node 0 3) = Inr (r', \<lparr>aer_term = 1, aer_success = True, aer_updatenextindex = -100\<rparr>)
     \<and> m_logs r' = [\<lparr>command = ''a'', logterm = 1, logindex = 1\<rparr>] \<and> m_commitIndex r' = 1"
proof -
  let ?e = "\<lparr>command = ''a'', logterm = 1, logindex = 1\<rparr>"
  let ?q = "\<lparr>ae_term = 1, ae_leaderid = 1, ae_prevlogindex = 0, ae_prevlogterm = 0,
       ae_entries = [?e], ae_leadercommit = 1\<rparr>"
  have ok: "raft_ok (fresh_node 0 3)"
    by (simp add: raft_ok_defs log_ok_def fresh_node_eq getLastLogIndex_def getLastLogIndexandTerm_def)
  have m: "matching ?q (fresh_node 0 3)"
    by (simp add: matching_def contradicts_def term_at_def contiguous_def fresh_node_eq
        getLastLogIndex_def getLastLogIndexandTerm_def)
  from AppendEntries_log [OF ok m, of 5] obtain r' where
    run: "AppendEntries 5 ?q True (fresh_node 0 3) = Inr (r', \<lparr>aer_term = 1, aer_success = True,
        aer_updatenextindex = -100\<rparr>)"
    and logs: "m_logs r' = [?e]"
    and com: "m_commitIndex r' = max 0 (min 1 (getLastLogIndex r'))"
    by (auto simp: req_start_def fresh_node_eq)
  have "getLastLogIndex r' = 1" by (simp add: getLastLogIndex_def getLastLogIndexandTerm_def logs)
  with run logs com show ?thesis by auto
qed

text \<open>When a matching request ends before the end of the follower's log, the follower's last
  log position is the same after the append as before, also when the request replaced entries of
  another term: the rest of the old log is not removed on a conflict.\<close>

lemma AppendEntries_keeps_last_position:
  "raft_ok r \<Longrightarrow> matching req r \<Longrightarrow>
   ae_prevlogindex req + int (length (ae_entries req)) < getLastLogIndex r \<Longrightarrow>
   \<exists>r' rep. AppendEntries now req True r = Inr (r', rep) \<and> aer_success rep
     \<and> last_position r' = last_position r"
proof -
  assume ok: "raft_ok r" and m: "matching req r"
    and short: "ae_prevlogindex req + int (length (ae_entries req)) < getLastLogIndex r"
  obtain r' rep where run: "AppendEntries now req True r = Inr (r', rep)" "aer_success rep"
    and logs: "m_logs r' = take (req_start req r) (m_logs r) @ ae_entries req
         @ drop (req_start req r + length (ae_entries req)) (m_logs r)"
    using append_matching [OF ok m, of now] by auto
  have "req_start req r + length (ae_entries req) < length (m_logs r)"
    using short ok m by (auto simp: raft_ok_def last_index_contiguous req_start_def matching_def)
  with logs have "m_logs r' \<noteq> []" "last (m_logs r') = last (m_logs r)" "m_logs r \<noteq> []"
    by auto
  then have "last_position r' = last_position r"
    by (simp add: last_position_def getLastLogIndex_def getLastLogTerm_def
        getLastLogIndexandTerm_def last_conv_nth)
  with run show ?thesis by blast
qed

text \<open>
  The follower of the next property: three entries, of which the second and third come from a
  leader of term 2 that failed before it had replicated them; and the request of the leader of
  term 3 that replaces the second.
\<close>

definition stale_follower :: raft where
  "stale_follower = (fresh_node 0 3)\<lparr>m_currentTerm := 2, m_voteForId := -1,
     m_logs := [\<lparr>command = ''a'', logterm = 1, logindex = 1\<rparr>,
                \<lparr>command = ''b'', logterm = 2, logindex = 2\<rparr>,
                \<lparr>command = ''c'', logterm = 2, logindex = 3\<rparr>]\<rparr>"

definition replacing_request :: AppendEntriesArgs where
  "replacing_request = \<lparr>ae_term = 3, ae_leaderid = 1, ae_prevlogindex = 1, ae_prevlogterm = 1,
     ae_entries = [\<lparr>command = ''d'', logterm = 3, logindex = 2\<rparr>], ae_leadercommit = 2\<rparr>"

lemma stale_follower_ok: "raft_ok stale_follower" "matching replacing_request stale_follower"
  by (simp_all add: raft_ok_defs log_ok_def matching_def contradicts_def entry_at_def term_at_def
      contiguous_def stale_follower_def replacing_request_def fresh_node_eq getLastLogIndex_def
      getLastLogIndexandTerm_def less_Suc_eq numeral_2_eq_2 numeral_3_eq_3)

theorem AppendEntries_keeps_last_position_witness:
  "\<exists>r' rep. AppendEntries 5 replacing_request True stale_follower = Inr (r', rep) \<and> aer_success rep
     \<and> last_position r' = Log_position 2 3"
proof -
  have "ae_prevlogindex replacing_request + int (length (ae_entries replacing_request))
      < getLastLogIndex stale_follower"
    by (simp add: replacing_request_def stale_follower_def getLastLogIndex_def
        getLastLogIndexandTerm_def)
  from AppendEntries_keeps_last_position [OF stale_follower_ok this, of 5] show ?thesis
    by (auto simp: last_position_def stale_follower_def getLastLogIndex_def getLastLogTerm_def
        getLastLogIndexandTerm_def)
qed


end
