(* ===== verification/Raft_Leader.thy ===== *)
theory Raft_Leader
  imports Raft_Append
begin

text \<open>
  The leader's side of log replication: \<open>doHeartBeat\<close> builds one message per peer,
  \<open>handleAppendEntries\<close> is the callback of a peer's answer and \<open>advanceCommitIndex\<close> moves the
  commit index (src/raft/raft.cc). \<open>leaderSendSnapShot\<close> and its callback are in
  the theory of snapshots; here the heartbeat only notes that a peer needs one.
\<close>

section \<open>Heartbeat\<close>

datatype hb_message = HB_snapshot | HB_append AppendEntriesArgs

text \<open>
  The request's \<open>prevlogindex\<close> and \<open>prevlogterm\<close> are set from the first call of
  \<open>getPrevLogInfo\<close>; when that index is past the stable log, the next index is moved back and
  the second call only decides where the entries start.
\<close>

definition hb_entries :: "raft \<Rightarrow> int \<Rightarrow> LogEntry list result" where
  "hb_entries r prevIndex =
     (if prevIndex \<noteq> m_lastSnapshotIndex r then
        rbind (assert_at 646 (prevIndex > m_lastSnapshotIndex r)) (\<lambda>_.
        (let startIndex = prevIndex - m_lastSnapshotIndex r - 1 in
         Inr (takeWhile (\<lambda>e. logindex e \<le> m_stableLogIndex r) (drop (nat (startIndex + 1)) (m_logs r)))))
      else Inr (takeWhile (\<lambda>e. logindex e \<le> m_stableLogIndex r) (m_logs r)))"

definition hb_peer :: "raft \<Rightarrow> int \<Rightarrow> (raft \<times> hb_message) result" where
  "hb_peer r i =
     rbind (vec_at 607 (m_nextIndex r) i) (\<lambda>nextIndex.
     rbind (assert_at 607 (nextIndex \<ge> 1)) (\<lambda>_.
     if nextIndex \<le> m_lastSnapshotIndex r then Inr (r, HB_snapshot)
     else
       rbind (getPrevLogInfo r i) (\<lambda>(preIndex, preTerm).
       rbind (if preIndex > m_stableLogIndex r then
                rbind (vec_put 640 (m_nextIndex r) i (m_stableLogIndex r + 1)) (\<lambda>ni.
                let r' = r\<lparr>m_nextIndex := ni\<rparr> in
                rbind (getPrevLogInfo r' i) (\<lambda>(preIndex', _). Inr (r', preIndex')))
              else Inr (r, preIndex)) (\<lambda>(r', preIndex').
       rbind (hb_entries r' preIndex') (\<lambda>entries.
       rbind (assert_at 671 (preIndex + int (length entries) = m_stableLogIndex r')) (\<lambda>_.
       Inr (r', HB_append \<lparr>ae_term = m_currentTerm r', ae_leaderid = m_id r',
                           ae_prevlogindex = preIndex, ae_prevlogterm = preTerm,
                           ae_entries = entries, ae_leadercommit = m_commitIndex r'\<rparr>)))))))"

fun hb_loop :: "raft \<Rightarrow> int list \<Rightarrow> (raft \<times> (int \<times> hb_message) list) result" where
  "hb_loop r [] = Inr (r, [])"
| "hb_loop r (i # ps) =
     (if i = m_id r then hb_loop r ps
      else rbind (hb_peer r i) (\<lambda>(r', msg).
           rbind (hb_loop r' ps) (\<lambda>(r'', msgs). Inr (r'', (i, msg) # msgs))))"

definition doHeartBeat :: "int \<Rightarrow> raft \<Rightarrow> (raft \<times> (int \<times> hb_message) list) result" where
  "doHeartBeat now r =
     (if m_state r \<noteq> leader then Inr (r, [])
      else rbind (hb_loop r (map int [0..<m_peers_size r])) (\<lambda>(r', msgs).
           Inr (r'\<lparr>m_lastHearBeatTime := now\<rparr>, msgs)))"

text \<open>
  One turn of \<open>leaderHeartBeatTricker\<close> after its wait: the flag is cleared on both branches, and a
  node that is no longer the leader sends nothing.
\<close>

definition leaderHeartBeat :: "int \<Rightarrow> raft \<Rightarrow> (raft \<times> (int \<times> hb_message) list) result" where
  "leaderHeartBeat now r =
     (let r' = r\<lparr>m_replicatePending := False\<rparr> in
      if m_state r' \<noteq> leader then Inr (r', []) else doHeartBeat now r')"

section \<open>Commit index\<close>

fun replicated_count :: "raft \<Rightarrow> int \<Rightarrow> int list \<Rightarrow> int \<Rightarrow> int result" where
  "replicated_count r index [] replicated = Inr replicated"
| "replicated_count r index (peer # ps) replicated =
     (if peer = m_id r then replicated_count r index ps replicated
      else rbind (vec_at 868 (m_matchIndex r) peer) (\<lambda>m.
           replicated_count r index ps (if m \<ge> index then replicated + 1 else replicated)))"

function advance_loop :: "raft \<Rightarrow> int \<Rightarrow> raft result" where
  "advance_loop r index =
     (if index \<le> m_commitIndex r then Inr r
      else case replicated_count r index (map int [0..<m_peers_size r]) 1 of
        Inl f \<Rightarrow> Inl f
      | Inr replicated \<Rightarrow>
          if replicated \<ge> majority r then
            (case vec_at 873 (m_logs r) (index - m_lastSnapshotIndex r - 1) of
               Inl f \<Rightarrow> Inl f
             | Inr e \<Rightarrow> if logterm e = m_currentTerm r then Inr (r\<lparr>m_commitIndex := index\<rparr>)
                       else advance_loop r (index - 1))
          else advance_loop r (index - 1))"
  by pat_completeness auto
termination
  by (relation "measure (\<lambda>(r, index). nat (index - m_commitIndex r))") auto

declare advance_loop.simps [simp del]

definition advanceCommitIndex :: "raft \<Rightarrow> raft result" where
  "advanceCommitIndex r = advance_loop r (min (getLastLogIndex r) (m_stableLogIndex r))"

section \<open>Answers\<close>

text \<open>
  The callback of \<open>AppendEntriesAsync\<close>. \<open>appendNum\<close> is the counter shared by the callbacks of
  one heartbeat; it is incremented and nothing reads it.
\<close>

definition handleAppendEntries ::
  "int \<Rightarrow> AppendEntriesArgs \<Rightarrow> AppendEntriesReply \<Rightarrow> int \<Rightarrow> bool \<Rightarrow> raft \<Rightarrow> (raft \<times> int) result" where
  "handleAppendEntries server args reply appendNum ok r =
     (if \<not> ok then Inr (r, appendNum)
      else if aer_term reply > m_currentTerm r then
        Inr (r\<lparr>m_currentTerm := aer_term reply, m_state := follower, m_voteForId := -1\<rparr>, appendNum)
      else if aer_term reply < m_currentTerm r then Inr (r, appendNum)
      else
        rbind (assert_at 766 (aer_term reply = m_currentTerm r)) (\<lambda>_.
        if m_state r \<noteq> leader then Inr (r, appendNum)
        else if \<not> aer_success reply then
          (if aer_updatenextindex reply \<noteq> -100 then
             rbind (vec_put 784 (m_nextIndex r) server (aer_updatenextindex reply)) (\<lambda>ni.
             Inr (r\<lparr>m_nextIndex := ni\<rparr>, appendNum))
           else Inr (r, appendNum))
        else
          rbind (vec_at 797 (m_matchIndex r) server) (\<lambda>m.
          let m' = max m (ae_prevlogindex args + int (length (ae_entries args))) in
          rbind (vec_put 796 (m_matchIndex r) server m') (\<lambda>mi.
          rbind (vec_put 798 (m_nextIndex r) server (m' + 1)) (\<lambda>ni.
          let r' = r\<lparr>m_matchIndex := mi, m_nextIndex := ni\<rparr> in
          rbind (assert_at 805 (m' + 1 \<le> getLastLogIndex r' + 1)) (\<lambda>_.
          rbind (advanceCommitIndex r') (\<lambda>r''. Inr (r'', appendNum + 1))))))))"

section \<open>Heartbeat messages on a well-formed leader\<close>

lemma takeWhile_contiguous:
  "contiguous p es \<Longrightarrow> takeWhile (\<lambda>e. logindex e \<le> s) es = take (nat (s - p)) es"
proof (induction es arbitrary: p)
  case (Cons e es)
  then have e: "logindex e = p + 1" and es: "contiguous (p + 1) es" by (auto simp: contiguous_Cons)
  show ?case
  proof (cases "p + 1 \<le> s")
    case True
    then have "nat (s - p) = Suc (nat (s - (p + 1)))" by auto
    with Cons.IH [OF es] e True show ?thesis by simp
  qed (use e in simp)
qed simp

text \<open>The entries with an index in \<open>{a<..b}\<close>.\<close>

definition log_slice :: "raft \<Rightarrow> int \<Rightarrow> int \<Rightarrow> LogEntry list" where
  "log_slice r a b = take (nat (b - a)) (drop (nat (a - m_lastSnapshotIndex r)) (m_logs r))"

lemma log_slice_facts:
  assumes "log_ok r" "m_lastSnapshotIndex r \<le> a" "a \<le> b" "b \<le> getLastLogIndex r"
  shows "int (length (log_slice r a b)) = b - a" "contiguous a (log_slice r a b)"
proof -
  let ?k = "nat (a - m_lastSnapshotIndex r)"
  have "?k \<le> length (m_logs r)"
    using assms by (simp add: last_index_contiguous nat_le_iff)
  moreover have "a = m_lastSnapshotIndex r + int ?k" using assms(2) by simp
  ultimately show "contiguous a (log_slice r a b)"
    using contiguous_drop [of "m_lastSnapshotIndex r" "m_logs r" ?k] assms(1)
    unfolding log_slice_def log_ok_def by (metis contiguous_take)
  show "int (length (log_slice r a b)) = b - a"
    using assms by (auto simp: log_slice_def last_index_contiguous min_def)
qed

lemma hb_entries_slice:
  assumes "log_ok r" "m_lastSnapshotIndex r \<le> p" "p \<le> getLastLogIndex r"
  shows "hb_entries r p = Inr (log_slice r p (m_stableLogIndex r))"
proof -
  let ?k = "nat (p - m_lastSnapshotIndex r)"
  have "?k \<le> length (m_logs r)" using assms by (simp add: last_index_contiguous nat_le_iff)
  then have "contiguous p (drop ?k (m_logs r))"
    using contiguous_drop [of "m_lastSnapshotIndex r" "m_logs r" ?k] assms by (simp add: log_ok_def)
  from takeWhile_contiguous [OF this] show ?thesis
    using assms(1,2) takeWhile_contiguous [of "m_lastSnapshotIndex r" "m_logs r"]
    by (auto simp: hb_entries_def log_slice_def log_ok_def Let_def)
qed

lemma getPrevLogInfo_ok:
  assumes "log_ok r" "0 \<le> i" "i < int (length (m_nextIndex r))"
    "m_lastSnapshotIndex r < m_nextIndex r ! nat i" "m_nextIndex r ! nat i \<le> getLastLogIndex r + 1"
  shows "getPrevLogInfo r i = Inr (m_nextIndex r ! nat i - 1, term_at r (m_nextIndex r ! nat i - 1))"
  using assms vec_at_log_ok [OF assms(1), of "m_nextIndex r ! nat i - 1" 213]
  by (auto simp: getPrevLogInfo_def vec_at_in_range term_at_def entry_at_def Let_def)

definition append_request :: "raft \<Rightarrow> int \<Rightarrow> AppendEntriesArgs" where
  "append_request r nextIndex = \<lparr>ae_term = m_currentTerm r, ae_leaderid = m_id r,
     ae_prevlogindex = nextIndex - 1, ae_prevlogterm = term_at r (nextIndex - 1),
     ae_entries = log_slice r (nextIndex - 1) (m_stableLogIndex r), ae_leadercommit = m_commitIndex r\<rparr>"

lemma hb_peer_cases:
  assumes "raft_ok r" "0 \<le> i" "i < int (m_peers_size r)"
    "m_lastSnapshotIndex r \<le> m_stableLogIndex r" "m_stableLogIndex r \<le> getLastLogIndex r"
    "1 \<le> m_nextIndex r ! nat i" "m_nextIndex r ! nat i \<le> getLastLogIndex r + 1"
  shows "hb_peer r i =
    (if m_nextIndex r ! nat i \<le> m_lastSnapshotIndex r then Inr (r, HB_snapshot)
     else if m_nextIndex r ! nat i \<le> m_stableLogIndex r + 1
     then Inr (r, HB_append (append_request r (m_nextIndex r ! nat i)))
     else Inl (Assert_failed 671))"
proof -
  let ?n = "m_nextIndex r ! nat i"
  have len: "i < int (length (m_nextIndex r))" and ok: "log_ok r"
    using assms(1,3) by (auto simp: raft_ok_defs)
  show ?thesis
  proof (cases "?n \<le> m_lastSnapshotIndex r")
    case True
    then show ?thesis using assms(2,6) len by (simp add: hb_peer_def vec_at_in_range)
  next
    case False
    then have prev: "getPrevLogInfo r i = Inr (?n - 1, term_at r (?n - 1))"
      using getPrevLogInfo_ok [OF ok assms(2) len] assms(7) by simp
    show ?thesis
    proof (cases "?n \<le> m_stableLogIndex r + 1")
      case True
      have ent: "hb_entries r (?n - 1) = Inr (log_slice r (?n - 1) (m_stableLogIndex r))"
        using hb_entries_slice [OF ok, of "?n - 1"] False assms(7) by simp
      have size: "int (length (log_slice r (?n - 1) (m_stableLogIndex r))) = m_stableLogIndex r - (?n - 1)"
        using log_slice_facts(1) [OF ok, of "?n - 1" "m_stableLogIndex r"] False True assms(5) by simp
      show ?thesis
        using False True assms(2,6) len prev ent size
        by (simp add: hb_peer_def vec_at_in_range append_request_def)
    next
      case far: False
      let ?r = "r\<lparr>m_nextIndex := (m_nextIndex r)[nat i := m_stableLogIndex r + 1]\<rparr>"
      have ok': "log_ok ?r" and last': "getLastLogIndex ?r = getLastLogIndex r"
        using ok by (simp_all add: log_ok_def getLastLogIndex_def getLastLogIndexandTerm_def)
      have "nat i < length (m_nextIndex r)" using assms(2) len by (simp add: nat_less_iff)
      then have prev': "getPrevLogInfo ?r i = Inr (m_stableLogIndex r, term_at ?r (m_stableLogIndex r))"
        using getPrevLogInfo_ok [OF ok' assms(2)] len assms(4,5) last' by simp
      have ent: "hb_entries ?r (m_stableLogIndex r) = Inr (log_slice ?r (m_stableLogIndex r) (m_stableLogIndex r))"
        using hb_entries_slice [OF ok', of "m_stableLogIndex r"] assms(4,5) last' by simp
      have "log_slice ?r (m_stableLogIndex r) (m_stableLogIndex r) = []"
        by (simp add: log_slice_def)
      with ent have ent': "hb_entries ?r (m_stableLogIndex r) = Inr []" by simp
      have "hb_peer r i = rbind (assert_at 671 (?n - 1 + int (length ([] :: LogEntry list)) = m_stableLogIndex ?r))
          (\<lambda>_. Inr (?r, HB_append \<lparr>ae_term = m_currentTerm ?r, ae_leaderid = m_id ?r,
                           ae_prevlogindex = ?n - 1, ae_prevlogterm = term_at r (?n - 1),
                           ae_entries = [], ae_leadercommit = m_commitIndex ?r\<rparr>))"
        using far False assms(2,6) len prev prev' ent'
        by (simp add: hb_peer_def vec_at_in_range vec_put_in_range Let_def)
      then show ?thesis using far False by simp
    qed
  qed
qed

section \<open>Advancing the commit index\<close>

text \<open>The peers other than the node itself that are known to hold the log up to an index.\<close>

definition holders :: "raft \<Rightarrow> int \<Rightarrow> nat set" where
  "holders r index = {p. p < m_peers_size r \<and> int p \<noteq> m_id r \<and> index \<le> m_matchIndex r ! p}"

lemma replicated_count_eq:
  assumes "length (m_matchIndex r) = m_peers_size r" "set ps \<subseteq> {0..<int (m_peers_size r)}"
  shows "replicated_count r index ps c =
    Inr (c + int (length (filter (\<lambda>p. p \<noteq> m_id r \<and> index \<le> m_matchIndex r ! nat p) ps)))"
  using assms(2)
proof (induction ps arbitrary: c)
  case (Cons p ps)
  then show ?case using assms(1) by (auto simp: vec_at_in_range)
qed simp

lemma replicated_holders:
  assumes "vecs_ok r"
  shows "replicated_count r index (map int [0..<m_peers_size r]) 1 = Inr (1 + int (card (holders r index)))"
proof -
  have "length (filter (\<lambda>p. p \<noteq> m_id r \<and> index \<le> m_matchIndex r ! nat p) (map int [0..<m_peers_size r]))
      = length (filter (\<lambda>p. int p \<noteq> m_id r \<and> index \<le> m_matchIndex r ! p) [0..<m_peers_size r])"
    by (simp add: filter_map comp_def)
  also have "\<dots> = card (set (filter (\<lambda>p. int p \<noteq> m_id r \<and> index \<le> m_matchIndex r ! p) [0..<m_peers_size r]))"
    by (intro distinct_card [symmetric]) simp
  also have "set (filter (\<lambda>p. int p \<noteq> m_id r \<and> index \<le> m_matchIndex r ! p) [0..<m_peers_size r])
      = holders r index"
    by (auto simp: holders_def)
  finally have "length (filter (\<lambda>p. p \<noteq> m_id r \<and> index \<le> m_matchIndex r ! nat p)
      (map int [0..<m_peers_size r])) = card (holders r index)" .
  then show ?thesis
    using assms map_int_upt_subset by (subst replicated_count_eq) (auto simp: vecs_ok_def)
qed

text \<open>Together with the leader itself, a majority of the cluster holds the log up to the index.\<close>

definition on_majority :: "raft \<Rightarrow> int \<Rightarrow> bool" where
  "on_majority r index \<longleftrightarrow> 2 * (1 + card (holders r index)) > m_peers_size r"

lemma majority_iff: "majority r \<le> int k \<longleftrightarrow> 2 * k > m_peers_size r"
  by (simp add: majority_def) presburger

lemma advance_loop_spec:
  assumes "raft_ok r" "i \<le> getLastLogIndex r"
  shows "\<exists>c. advance_loop r i = Inr (r\<lparr>m_commitIndex := c\<rparr>) \<and> m_commitIndex r \<le> c
    \<and> (c \<noteq> m_commitIndex r \<longrightarrow> c \<le> i \<and> on_majority r c \<and> term_at r c = m_currentTerm r)
    \<and> (\<forall>j. c < j \<and> j \<le> i \<longrightarrow> \<not> (on_majority r j \<and> term_at r j = m_currentTerm r))"
  using assms(2)
proof (induction "nat (i - m_commitIndex r)" arbitrary: i)
  case 0
  then have "advance_loop r i = Inr (r\<lparr>m_commitIndex := m_commitIndex r\<rparr>)"
    by (subst advance_loop.simps) simp
  with 0 show ?case by (intro exI [of _ "m_commitIndex r"]) auto
next
  case (Suc k)
  have gt: "m_commitIndex r < i" using Suc.hyps(2) by simp
  have cnt: "replicated_count r i (map int [0..<m_peers_size r]) 1 = Inr (1 + int (card (holders r i)))"
    using assms(1) by (intro replicated_holders) (simp add: raft_ok_def)
  have snap: "m_lastSnapshotIndex r < i" using gt assms(1) by (auto simp: raft_ok_defs)
  have e: "vec_at 873 (m_logs r) (i - m_lastSnapshotIndex r - 1) = Inr (entry_at r i)"
    using vec_at_log_ok [OF _ snap Suc.prems] assms(1) by (auto simp: raft_ok_def entry_at_def)
  have maj: "majority r \<le> 1 + int (card (holders r i)) \<longleftrightarrow> on_majority r i"
    using majority_iff [of r "1 + card (holders r i)"] by (simp add: on_majority_def)
  have tm: "logterm (entry_at r i) = term_at r i" using snap by (simp add: term_at_def)
  show ?case
  proof (cases "on_majority r i \<and> term_at r i = m_currentTerm r")
    case True
    then have "advance_loop r i = Inr (r\<lparr>m_commitIndex := i\<rparr>)"
      using gt cnt e maj tm by (subst advance_loop.simps) simp
    with True gt show ?thesis by (intro exI [of _ i]) auto
  next
    case False
    then have step: "advance_loop r i = advance_loop r (i - 1)"
      using gt cnt e maj tm by (subst advance_loop.simps) auto
    have "k = nat (i - 1 - m_commitIndex r)" "i - 1 \<le> getLastLogIndex r"
      using Suc.hyps(2) Suc.prems by auto
    from Suc.hyps(1) [OF this] obtain c where
      c: "advance_loop r (i - 1) = Inr (r\<lparr>m_commitIndex := c\<rparr>)" "m_commitIndex r \<le> c"
        "c \<noteq> m_commitIndex r \<longrightarrow> c \<le> i - 1 \<and> on_majority r c \<and> term_at r c = m_currentTerm r"
        "\<forall>j. c < j \<and> j \<le> i - 1 \<longrightarrow> \<not> (on_majority r j \<and> term_at r j = m_currentTerm r)"
      by blast
    have "\<not> (on_majority r j \<and> term_at r j = m_currentTerm r)" if "c < j" "j \<le> i" for j
      using that False c(4) by (cases "j = i") auto
    with c step show ?thesis by (intro exI [of _ c]) auto
  qed
qed

lemma advanceCommitIndex_ok:
  assumes "raft_ok r"
  shows "\<exists>c. advanceCommitIndex r = Inr (r\<lparr>m_commitIndex := c\<rparr>) \<and> m_commitIndex r \<le> c
    \<and> (c \<noteq> m_commitIndex r \<longrightarrow> c \<le> min (getLastLogIndex r) (m_stableLogIndex r)
         \<and> on_majority r c \<and> term_at r c = m_currentTerm r)
    \<and> (\<forall>j. c < j \<and> j \<le> min (getLastLogIndex r) (m_stableLogIndex r) \<longrightarrow>
         \<not> (on_majority r j \<and> term_at r j = m_currentTerm r))"
  unfolding advanceCommitIndex_def by (rule advance_loop_spec [OF assms]) simp

lemma raft_ok_set_commit:
  "raft_ok r \<Longrightarrow> m_commitIndex r \<le> c \<Longrightarrow> c \<le> getLastLogIndex r \<Longrightarrow> raft_ok (r\<lparr>m_commitIndex := c\<rparr>)"
  by (auto simp: raft_ok_defs log_ok_def getLastLogIndex_def getLastLogIndexandTerm_def)

lemma raft_ok_vectors:
  "raft_ok r \<Longrightarrow> length ni = length (m_nextIndex r) \<Longrightarrow> length mi = length (m_matchIndex r) \<Longrightarrow>
     raft_ok (r\<lparr>m_nextIndex := ni, m_matchIndex := mi\<rparr>)"
  by (auto simp: raft_ok_defs log_ok_def getLastLogIndex_def getLastLogIndexandTerm_def)

lemma raft_ok_vectors':
  "raft_ok r \<Longrightarrow> length ni = length (m_nextIndex r) \<Longrightarrow> length mi = length (m_matchIndex r) \<Longrightarrow>
     raft_ok (r\<lparr>m_matchIndex := mi, m_nextIndex := ni\<rparr>)"
  by (auto simp: raft_ok_defs log_ok_def getLastLogIndex_def getLastLogIndexandTerm_def)

lemma getLast_vectors [simp]:
  "getLastLogIndex (r\<lparr>m_nextIndex := ni\<rparr>) = getLastLogIndex r"
  "getLastLogIndex (r\<lparr>m_matchIndex := ni\<rparr>) = getLastLogIndex r"
  "getLastLogIndex (r\<lparr>m_replicatePending := b\<rparr>) = getLastLogIndex r"
  "getLastLogIndex (r\<lparr>m_commitIndex := c\<rparr>) = getLastLogIndex r"
  by (simp_all add: getLastLogIndex_def getLastLogIndexandTerm_def)

section \<open>Properties\<close>

text \<open>C8: \<open>advanceCommitIndex\<close> never fails on a well-formed leader. It never lowers the commit
  index; it raises it only to an index that is in the leader's stable log, that a majority of the
  cluster (the leader included) is known to hold, and whose entry is of the current term; and it
  picks the largest such index.\<close>

theorem advanceCommitIndex_spec:
  "raft_ok r \<Longrightarrow>
   \<exists>c. advanceCommitIndex r = Inr (r\<lparr>m_commitIndex := c\<rparr>) \<and> m_commitIndex r \<le> c
    \<and> (c \<noteq> m_commitIndex r \<longrightarrow> c \<le> min (getLastLogIndex r) (m_stableLogIndex r)
         \<and> on_majority r c \<and> term_at r c = m_currentTerm r)
    \<and> (\<forall>j. c < j \<and> j \<le> min (getLastLogIndex r) (m_stableLogIndex r) \<longrightarrow>
         \<not> (on_majority r j \<and> term_at r j = m_currentTerm r))"
  by (rule advanceCommitIndex_ok)

text \<open>A leader of term 1 in a cluster of three, with two stable entries, the first held by peer 1.\<close>

definition sample_leader :: raft where
  "sample_leader = (fresh_node 0 3)\<lparr>m_state := leader, m_currentTerm := 1, m_stableLogIndex := 2,
     m_logs := [\<lparr>command = ''a'', logterm = 1, logindex = 1\<rparr>,
                \<lparr>command = ''b'', logterm = 1, logindex = 2\<rparr>],
     m_nextIndex := [0, 2, 3], m_matchIndex := [0, 1, 0]\<rparr>"

lemma sample_leader_ok: "raft_ok sample_leader"
  by (simp add: raft_ok_defs log_ok_def contiguous_def sample_leader_def fresh_node_eq
      getLastLogIndex_def getLastLogIndexandTerm_def less_Suc_eq numeral_2_eq_2)

lemma sample_holders: "holders sample_leader 1 = {1}" "holders sample_leader 2 = {}"
  by (auto simp: holders_def sample_leader_def fresh_node_eq less_Suc_eq numeral_3_eq_3)

theorem advanceCommitIndex_spec_witness:
  "advanceCommitIndex sample_leader = Inr (sample_leader\<lparr>m_commitIndex := 1\<rparr>)"
proof -
  have last: "getLastLogIndex sample_leader = 2" "m_stableLogIndex sample_leader = 2"
    "m_commitIndex sample_leader = 0" "m_peers_size sample_leader = 3"
    by (simp_all add: sample_leader_def fresh_node_eq getLastLogIndex_def getLastLogIndexandTerm_def)
  have one: "on_majority sample_leader 1 \<and> term_at sample_leader 1 = m_currentTerm sample_leader"
    and two: "\<not> on_majority sample_leader 2"
    using last by (auto simp: on_majority_def sample_holders)
       (simp add: term_at_def entry_at_def sample_leader_def fresh_node_eq)
  obtain c where c: "advanceCommitIndex sample_leader = Inr (sample_leader\<lparr>m_commitIndex := c\<rparr>)"
    "0 \<le> c" "c \<noteq> 0 \<longrightarrow> c \<le> 2 \<and> on_majority sample_leader c"
    "\<forall>j. c < j \<and> j \<le> 2 \<longrightarrow> \<not> (on_majority sample_leader j \<and> term_at sample_leader j = m_currentTerm sample_leader)"
    using advanceCommitIndex_spec [OF sample_leader_ok] last by auto
  have "\<not> c < 1" using c(4) one by fastforce
  moreover have "c \<noteq> 2" using c(3) two by auto
  ultimately have "c = 1" using c(2,3) by auto
  with c(1) show ?thesis by simp
qed

lemma hb_loop_ok:
  assumes "raft_ok r" "m_lastSnapshotIndex r \<le> m_stableLogIndex r" "m_stableLogIndex r \<le> getLastLogIndex r"
    "\<forall>i \<in> set ps. i \<noteq> m_id r \<longrightarrow> 0 \<le> i \<and> i < int (m_peers_size r)
       \<and> 1 \<le> m_nextIndex r ! nat i \<and> m_nextIndex r ! nat i \<le> m_stableLogIndex r + 1"
  shows "hb_loop r ps = Inr (r, map (\<lambda>i. (i, if m_nextIndex r ! nat i \<le> m_lastSnapshotIndex r then HB_snapshot
           else HB_append (append_request r (m_nextIndex r ! nat i)))) (filter (\<lambda>i. i \<noteq> m_id r) ps))"
  using assms(4)
proof (induction ps)
  case (Cons i ps)
  then show ?case
    using hb_peer_cases [OF assms(1) _ _ assms(2,3), of i] assms(3) by auto
qed simp

text \<open>A well-formed leader whose next indices lie between 1 and one past its stable log sends
  every other peer exactly one message and keeps its state but for the heartbeat time. A peer that
  needs entries the leader has compacted is sent the snapshot; every other peer gets a request
  that names the last entry before its next index, with the term of that entry, and carries
  exactly the stable entries behind it, contiguous up to the end of the stable log.\<close>

lemma doHeartBeat_messages:
  "raft_ok r \<Longrightarrow> m_state r = leader \<Longrightarrow>
   m_lastSnapshotIndex r \<le> m_stableLogIndex r \<Longrightarrow> m_stableLogIndex r \<le> getLastLogIndex r \<Longrightarrow>
   (\<forall>i < m_peers_size r. int i \<noteq> m_id r \<longrightarrow>
      1 \<le> m_nextIndex r ! i \<and> m_nextIndex r ! i \<le> m_stableLogIndex r + 1) \<Longrightarrow>
   \<exists>msgs. doHeartBeat now r = Inr (r\<lparr>m_lastHearBeatTime := now\<rparr>, msgs)
     \<and> map fst msgs = other_peers r
     \<and> (\<forall>(i, m) \<in> set msgs.
          m = (if m_nextIndex r ! nat i \<le> m_lastSnapshotIndex r then HB_snapshot
               else HB_append (append_request r (m_nextIndex r ! nat i))))
     \<and> (\<forall>(i, m) \<in> set msgs. \<forall>req. m = HB_append req \<longrightarrow>
          contiguous (ae_prevlogindex req) (ae_entries req)
          \<and> ae_prevlogindex req + int (length (ae_entries req)) = m_stableLogIndex r
          \<and> ae_prevlogterm req = term_at r (ae_prevlogindex req))"
proof -
  assume ok: "raft_ok r" and lead: "m_state r = leader"
    and st: "m_lastSnapshotIndex r \<le> m_stableLogIndex r" "m_stableLogIndex r \<le> getLastLogIndex r"
    and nx: "\<forall>i < m_peers_size r. int i \<noteq> m_id r \<longrightarrow>
      1 \<le> m_nextIndex r ! i \<and> m_nextIndex r ! i \<le> m_stableLogIndex r + 1"
  let ?msg = "\<lambda>i. if m_nextIndex r ! nat i \<le> m_lastSnapshotIndex r then HB_snapshot
      else HB_append (append_request r (m_nextIndex r ! nat i))"
  let ?msgs = "map (\<lambda>i. (i, ?msg i)) (other_peers r)"
  have "hb_loop r (map int [0..<m_peers_size r]) = Inr (r, ?msgs)"
    unfolding other_peers_def using nx by (intro hb_loop_ok [OF ok st]) auto
  then have run: "doHeartBeat now r = Inr (r\<lparr>m_lastHearBeatTime := now\<rparr>, ?msgs)"
    using lead by (simp add: doHeartBeat_def)
  have req: "contiguous (ae_prevlogindex q) (ae_entries q)
      \<and> ae_prevlogindex q + int (length (ae_entries q)) = m_stableLogIndex r
      \<and> ae_prevlogterm q = term_at r (ae_prevlogindex q)"
    if "i \<in> set (other_peers r)" "?msg i = HB_append q" for i q
  proof -
    let ?n = "m_nextIndex r ! nat i"
    have "m_lastSnapshotIndex r < ?n" "?n \<le> m_stableLogIndex r + 1" and q: "q = append_request r ?n"
      using that nx by (auto simp: other_peers_set split: if_splits)
    then show ?thesis
      using log_slice_facts [of r "?n - 1" "m_stableLogIndex r"] ok st
      by (simp add: append_request_def raft_ok_def)
  qed
  show ?thesis
  proof (intro exI conjI)
    show "doHeartBeat now r = Inr (r\<lparr>m_lastHearBeatTime := now\<rparr>, ?msgs)" by (rule run)
    show "map fst ?msgs = other_peers r" by (simp add: comp_def)
  qed (use req in \<open>auto split: if_splits\<close>)
qed

theorem doHeartBeat_messages_witness:
  "\<exists>msgs. doHeartBeat 9 sample_leader = Inr (sample_leader\<lparr>m_lastHearBeatTime := 9\<rparr>, msgs)
     \<and> map fst msgs = [1, 2]"
proof -
  have "\<forall>i < m_peers_size sample_leader. int i \<noteq> m_id sample_leader \<longrightarrow>
      1 \<le> m_nextIndex sample_leader ! i \<and> m_nextIndex sample_leader ! i \<le> m_stableLogIndex sample_leader + 1"
    by (simp add: sample_leader_def fresh_node_eq less_Suc_eq numeral_3_eq_3)
  moreover have "m_state sample_leader = leader"
    "m_lastSnapshotIndex sample_leader \<le> m_stableLogIndex sample_leader"
    "m_stableLogIndex sample_leader \<le> getLastLogIndex sample_leader"
    by (simp_all add: sample_leader_def fresh_node_eq getLastLogIndex_def getLastLogIndexandTerm_def)
  moreover have "other_peers sample_leader = [1, 2]"
    by (simp add: other_peers_def sample_leader_def fresh_node_eq numeral_3_eq_3)
  ultimately show ?thesis using doHeartBeat_messages [OF sample_leader_ok, of 9] by auto
qed

lemma other_peers_nonempty:
  assumes "2 \<le> m_peers_size r"
  shows "\<exists>i ps qs. map int [0..<m_peers_size r] = ps @ i # qs \<and> i \<noteq> m_id r
    \<and> (\<forall>p \<in> set ps. p = m_id r) \<and> 0 \<le> i \<and> i < int (m_peers_size r)"
proof -
  have "0 \<in> set (map int [0..<m_peers_size r])" "1 \<in> set (map int [0..<m_peers_size r])"
    using assms by (force simp: image_iff)+
  then have "\<exists>x \<in> set (map int [0..<m_peers_size r]). x \<noteq> m_id r"
    by (cases "m_id r = 0") (metis zero_neq_one)+
  then obtain ps i qs where "map int [0..<m_peers_size r] = ps @ i # qs" "i \<noteq> m_id r"
    "\<forall>p \<in> set ps. p = m_id r"
    using split_list_first_prop [of "map int [0..<m_peers_size r]" "\<lambda>x. x \<noteq> m_id r"] by blast
  moreover from this have "i \<in> set (map int [0..<m_peers_size r])" by auto
  then have "0 \<le> i" "i < int (m_peers_size r)" by auto
  ultimately show ?thesis by blast
qed

lemma hb_loop_skip: "\<forall>p \<in> set ps. p = m_id r \<Longrightarrow> hb_loop r (ps @ qs) = hb_loop r qs"
  by (induction ps) auto

lemma handleRequestVoteResponse_promotes:
  assumes run: "handleRequestVoteResponse args reply v ok r = Inr (r', v')"
    and st: "m_state r \<noteq> leader" and lead: "m_state r' = leader"
  obtains ni mi where
    "reset_peers (m_id r) (getLastLogIndex r + 1) (map int [0..<m_peers_size r])
       (r\<lparr>m_state := leader\<rparr>) = Inr (r\<lparr>m_state := leader, m_nextIndex := ni, m_matchIndex := mi\<rparr>)"
    "r' = persistState (r\<lparr>m_state := leader, m_nextIndex := ni, m_matchIndex := mi\<rparr>)"
    "length ni = length (m_nextIndex r)" "length mi = length (m_matchIndex r)"
  using run
proof (cases rule: handleRequestVoteResponse_cases)
  case (elected ni mi)
  show ?thesis by (rule that [OF elected(11,8,9,10)])
qed (use st lead in simp_all)

text \<open>If a candidate whose log ends in entries the persister has not made stable yet wins the
  election in a cluster of at least two, its next heartbeat fails the assertion that the request
  ends at the stable log: the promotion sets the next indices behind the last entry, and the
  heartbeat moves an index back without correcting the request it has already filled in.\<close>

lemma heartbeat_after_unstable_election:
  "raft_ok r \<Longrightarrow> m_state r = candidate \<Longrightarrow> 2 \<le> m_peers_size r \<Longrightarrow>
   0 \<le> m_lastSnapshotIndex r \<Longrightarrow>
   m_lastSnapshotIndex r \<le> m_stableLogIndex r \<Longrightarrow> m_stableLogIndex r < getLastLogIndex r \<Longrightarrow>
   handleRequestVoteResponse args reply v True r = Inr (r', v') \<Longrightarrow> m_state r' = leader \<Longrightarrow>
   doHeartBeat now r' = Inl (Assert_failed 671)"
proof -
  assume ok: "raft_ok r" and st: "m_state r = candidate" and n: "2 \<le> m_peers_size r"
    and snap: "0 \<le> m_lastSnapshotIndex r" "m_lastSnapshotIndex r \<le> m_stableLogIndex r"
    and unstable: "m_stableLogIndex r < getLastLogIndex r"
    and run: "handleRequestVoteResponse args reply v True r = Inr (r', v')" and lead: "m_state r' = leader"
  obtain ni mi where reset: "reset_peers (m_id r) (getLastLogIndex r + 1)
      (map int [0..<m_peers_size r]) (r\<lparr>m_state := leader\<rparr>) = Inr (r\<lparr>m_state := leader,
        m_nextIndex := ni, m_matchIndex := mi\<rparr>)"
    and r': "r' = persistState (r\<lparr>m_state := leader, m_nextIndex := ni, m_matchIndex := mi\<rparr>)"
    and len: "length ni = length (m_nextIndex r)" "length mi = length (m_matchIndex r)"
    by (rule handleRequestVoteResponse_promotes [OF run]) (simp_all add: st lead)
  have nx: "m_nextIndex r' ! j = getLastLogIndex r + 1" if "j < m_peers_size r" "int j \<noteq> m_id r" for j
    using reset_peers_ok [OF _ _ map_int_upt_subset, of "r\<lparr>m_state := leader\<rparr>" "m_peers_size r" "m_id r"
        "getLastLogIndex r + 1"] ok reset r' that
    by (auto simp: raft_ok_defs)
  have last: "getLastLogIndex r' = getLastLogIndex r" "m_lastSnapshotIndex r' = m_lastSnapshotIndex r"
    "m_stableLogIndex r' = m_stableLogIndex r" "m_peers_size r' = m_peers_size r" "m_id r' = m_id r"
    by (simp_all add: r')
  have ok': "raft_ok r'"
    using raft_ok_vectors [of "r\<lparr>m_state := leader\<rparr>" ni mi] ok len
    by (simp add: r' raft_ok_defs log_ok_def)
  obtain i ps qs where split: "map int [0..<m_peers_size r] = ps @ i # qs" "i \<noteq> m_id r"
    "\<forall>p \<in> set ps. p = m_id r" "0 \<le> i" "i < int (m_peers_size r)"
    using other_peers_nonempty [OF n] by blast
  have ni: "m_nextIndex r' ! nat i = getLastLogIndex r + 1"
    using nx [of "nat i"] split(2,4,5) by (simp add: nat_less_iff)
  have "hb_peer r' i = Inl (Assert_failed 671)"
    using hb_peer_cases [OF ok', of i] split(4,5) last snap unstable ni by simp
  then have "hb_loop r' (map int [0..<m_peers_size r']) = Inl (Assert_failed 671)"
    using split hb_loop_skip [of ps r' "i # qs"] last by simp
  then show ?thesis using lead by (simp add: doHeartBeat_def)
qed

text \<open>A candidate of term 2 in a cluster of three whose only entry is not stable yet.\<close>

definition unstable_candidate :: raft where
  "unstable_candidate = (fresh_node 0 3)\<lparr>m_state := candidate, m_currentTerm := 2,
     m_logs := [\<lparr>command = ''a'', logterm = 1, logindex = 1\<rparr>]\<rparr>"

theorem heartbeat_after_unstable_election_witness:
  "\<exists>r' v'. handleRequestVoteResponse
       \<lparr>rv_term = 2, rv_candidateid = 0, rv_lastlogindex = 1, rv_lastlogterm = 1\<rparr>
       \<lparr>rvr_term = 2, rvr_votegranted = True, rvr_votestate = normal\<rparr> 1 True unstable_candidate
       = Inr (r', v') \<and> doHeartBeat 3 r' = Inl (Assert_failed 671)"
proof -
  have ok: "raft_ok unstable_candidate"
    by (simp add: raft_ok_defs log_ok_def contiguous_def unstable_candidate_def fresh_node_eq
        getLastLogIndex_def getLastLogIndexandTerm_def)
  let ?a = "\<lparr>rv_term = 2, rv_candidateid = 0, rv_lastlogindex = 1, rv_lastlogterm = 1\<rparr>"
  let ?rep = "\<lparr>rvr_term = 2, rvr_votegranted = True, rvr_votestate = normal\<rparr>"
  let ?run = "handleRequestVoteResponse ?a ?rep 1 True unstable_candidate"
  have "\<exists>r' v'. ?run = Inr (r', v') \<and> m_state r' = leader"
    by (simp add: handleRequestVoteResponse_def unstable_candidate_def fresh_node_eq majority_def
        getLastLogIndex_def getLastLogIndexandTerm_def vec_put_def numeral_3_eq_3)
  then obtain r' v' where run: "?run = Inr (r', v')" "m_state r' = leader" by blast
  have facts: "m_state unstable_candidate = candidate" "2 \<le> m_peers_size unstable_candidate"
    "0 \<le> m_lastSnapshotIndex unstable_candidate"
    "m_lastSnapshotIndex unstable_candidate \<le> m_stableLogIndex unstable_candidate"
    "m_stableLogIndex unstable_candidate < getLastLogIndex unstable_candidate"
    by (simp_all add: unstable_candidate_def fresh_node_eq getLastLogIndex_def
        getLastLogIndexandTerm_def)
  from run heartbeat_after_unstable_election [OF ok facts run, of 3] show ?thesis by blast
qed

lemma handleAppendEntries_cases:
  assumes "raft_ok r" "handleAppendEntries server args reply k ok r = Inr (r', k')"
  obtains
    (same) "r' = r" "k' = k"
  | (newer) "ok" "aer_term reply > m_currentTerm r" "k' = k"
      "r' = r\<lparr>m_currentTerm := aer_term reply, m_state := follower, m_voteForId := -1\<rparr>"
  | (refused) "ok" "m_state r = leader" "\<not> aer_success reply" "k' = k"
      "r' = r\<lparr>m_nextIndex := (m_nextIndex r)[nat server := aer_updatenextindex reply]\<rparr>"
  | (accepted) c m where "ok" "m_state r = leader" "aer_success reply" "aer_term reply = m_currentTerm r"
      "0 \<le> server" "server < int (m_peers_size r)" "k' = k + 1"
      "m = max (m_matchIndex r ! nat server) (ae_prevlogindex args + int (length (ae_entries args)))"
      "m \<le> getLastLogIndex r" "m_commitIndex r \<le> c" "c \<le> getLastLogIndex r"
      "r' = r\<lparr>m_matchIndex := (m_matchIndex r)[nat server := m],
              m_nextIndex := (m_nextIndex r)[nat server := m + 1], m_commitIndex := c\<rparr>"
proof -
  consider (a) "\<not> ok \<or> aer_term reply < m_currentTerm r \<or>
        (aer_term reply = m_currentTerm r \<and> m_state r \<noteq> leader)"
    | (b) "ok" "aer_term reply > m_currentTerm r"
    | (c) "ok" "aer_term reply = m_currentTerm r" "m_state r = leader" "\<not> aer_success reply"
    | (d) "ok" "aer_term reply = m_currentTerm r" "m_state r = leader" "aer_success reply"
    by linarith
  then show ?thesis
  proof cases
    case d
    let ?m = "max (m_matchIndex r ! nat server) (ae_prevlogindex args + int (length (ae_entries args)))"
    let ?r = "r\<lparr>m_matchIndex := (m_matchIndex r)[nat server := ?m],
                m_nextIndex := (m_nextIndex r)[nat server := ?m + 1]\<rparr>"
    from assms d have rng: "0 \<le> server" "server < int (m_peers_size r)"
      and le: "?m \<le> getLastLogIndex r" and adv: "advanceCommitIndex ?r = Inr r'" and k: "k' = k + 1"
      by (auto simp: handleAppendEntries_def Let_def result_simps raft_ok_defs split: if_splits)
    have "raft_ok ?r"
      by (rule raft_ok_vectors' [OF assms(1)]) simp_all
    from advanceCommitIndex_ok [OF this] adv assms(1) obtain c where
      "r' = ?r\<lparr>m_commitIndex := c\<rparr>" "m_commitIndex r \<le> c" "c \<le> getLastLogIndex r"
      by (auto simp: raft_ok_defs)
    with d rng le k show ?thesis by (intro accepted [of ?m c]) auto
  qed (use assms in \<open>auto simp: handleAppendEntries_def Let_def result_simps split: if_splits
        intro: same newer refused\<close>)
qed

lemma quiet_handleAppendEntries:
  assumes "raft_ok r" "handleAppendEntries server args reply k ok r = Inr (r', k')"
  shows "quiet_step r r'"
  using assms by (cases rule: handleAppendEntries_cases) (auto simp: quiet_step_def)

text \<open>A step that leaves the log and raises the commit index within it keeps a node well formed.\<close>

lemma raft_ok_raise_commit:
  assumes "raft_ok r" "m_logs s = m_logs r" "m_lastSnapshotIndex s = m_lastSnapshotIndex r"
    "m_lastApplied s = m_lastApplied r" "m_commitIndex r \<le> m_commitIndex s"
    "m_commitIndex s \<le> getLastLogIndex r" "m_peers_size s = m_peers_size r"
    "length (m_nextIndex s) = length (m_nextIndex r)"
    "length (m_matchIndex s) = length (m_matchIndex r)"
  shows "raft_ok s"
proof -
  have "log_ok s" using assms by (simp add: raft_ok_def log_ok_def)
  moreover from this have "getLastLogIndex s = getLastLogIndex r"
    using assms by (simp add: raft_ok_def last_index_contiguous)
  ultimately show ?thesis using assms by (simp add: raft_ok_defs)
qed

text \<open>C15: Whatever a peer answers, the callback of a heartbeat keeps the invariant of the node: the
  log is not touched, the commit index does not fall and stays within the log, no match index
  falls, and after an accepted request the peer's match index is at least the end of that request.\<close>

theorem handleAppendEntries_safe:
  "raft_ok r \<Longrightarrow> handleAppendEntries server args reply k ok r = Inr (r', k') \<Longrightarrow>
   raft_ok r' \<and> m_logs r' = m_logs r \<and> m_commitIndex r \<le> m_commitIndex r'
   \<and> list_all2 (\<le>) (m_matchIndex r) (m_matchIndex r')
   \<and> (k' = k + 1 \<longrightarrow> ae_prevlogindex args + int (length (ae_entries args)) \<le> m_matchIndex r' ! nat server
        \<and> m_nextIndex r' ! nat server = m_matchIndex r' ! nat server + 1)"
proof -
  assume ok: "raft_ok r" and run: "handleAppendEntries server args reply k ok r = Inr (r', k')"
  have mono: "list_all2 (\<le>) xs (xs[n := max (xs ! n) m])" for xs :: "int list" and n m
    by (cases "n < length xs") (auto simp: list_all2_conv_all_nth nth_list_update)
  have commit: "m_commitIndex r \<le> getLastLogIndex r" using ok by (simp add: raft_ok_defs)
  show ?thesis
    using ok run
  proof (cases rule: handleAppendEntries_cases)
    case (accepted c m)
    have "nat server < length (m_matchIndex r)" "nat server < length (m_nextIndex r)"
      using accepted(5,6) ok by (auto simp: raft_ok_defs nat_less_iff)
    moreover have "raft_ok r'" using accepted(10-) by (intro raft_ok_raise_commit [OF ok]) simp_all
    ultimately show ?thesis using accepted mono by simp
  qed (use ok commit in \<open>auto intro!: raft_ok_raise_commit [OF ok] simp: list_all2_refl\<close>)
qed

theorem handleAppendEntries_safe_witness:
  "\<exists>r' k'. handleAppendEntries 1
       \<lparr>ae_term = 1, ae_leaderid = 0, ae_prevlogindex = 0, ae_prevlogterm = 0,
        ae_entries = m_logs sample_leader, ae_leadercommit = 0\<rparr>
       \<lparr>aer_term = 1, aer_success = True, aer_updatenextindex = 0\<rparr> 0 True sample_leader = Inr (r', k')
     \<and> m_commitIndex r' = 2 \<and> k' = 1 \<and> raft_ok r' \<and> 2 \<le> m_matchIndex r' ! 1"
proof -
  let ?args = "\<lparr>ae_term = 1, ae_leaderid = 0, ae_prevlogindex = 0, ae_prevlogterm = 0,
        ae_entries = m_logs sample_leader, ae_leadercommit = 0\<rparr>"
  let ?run = "handleAppendEntries 1 ?args \<lparr>aer_term = 1, aer_success = True, aer_updatenextindex = 0\<rparr>
     0 True sample_leader"
  have "\<exists>r' k'. ?run = Inr (r', k') \<and> m_commitIndex r' = 2 \<and> k' = 1"
    by (simp add: handleAppendEntries_def sample_leader_def fresh_node_eq assert_at_def vec_at_def
        vec_put_def Let_def advanceCommitIndex_def advance_loop.simps majority_def
        getLastLogIndex_def getLastLogIndexandTerm_def numeral_3_eq_3)
  then obtain r' k' where run: "?run = Inr (r', k')" "m_commitIndex r' = 2" "k' = 1" by blast
  from handleAppendEntries_safe [OF sample_leader_ok run(1)] run show ?thesis
    by (simp add: sample_leader_def fresh_node_eq)
qed

text \<open>An answer with a newer term makes a leader step down with the newer term and no vote, but
  the callback does not persist them: the node record still holds the old term, so a node that
  restarts from it goes back to a term it has already left.\<close>

lemma handleAppendEntries_stepdown_not_durable:
  "vote_durable r \<Longrightarrow> aer_term reply > m_currentTerm r \<Longrightarrow>
   \<exists>r'. handleAppendEntries server args reply k True r = Inr (r', k)
     \<and> m_state r' = follower \<and> m_currentTerm r' = aer_term reply \<and> m_voteForId r' = -1
     \<and> fmp r' = fmp r \<and> \<not> vote_durable r'
     \<and> m_currentTerm (raft_init now (m_id r) (m_peers_size r) (fmp r') logs snap ch) = m_currentTerm r"
  by (simp add: handleAppendEntries_def vote_durable_def raft_init_def Let_def)

theorem handleAppendEntries_stepdown_not_durable_witness:
  "\<exists>r'. handleAppendEntries 1
       \<lparr>ae_term = 0, ae_leaderid = 0, ae_prevlogindex = 0, ae_prevlogterm = 0, ae_entries = [], ae_leadercommit = 0\<rparr>
       \<lparr>aer_term = 4, aer_success = False, aer_updatenextindex = -100\<rparr> 0 True (fresh_node 0 3) = Inr (r', 0)
     \<and> m_currentTerm r' = 4 \<and> \<not> vote_durable r'"
proof -
  have "vote_durable (fresh_node 0 3)"
    by (simp add: vote_durable_def fresh_node_eq zero_NodeInfo_def of_u32_def)
  then show ?thesis
    using handleAppendEntries_stepdown_not_durable [of "fresh_node 0 3"
        "\<lparr>aer_term = 4, aer_success = False, aer_updatenextindex = -100\<rparr>" 1 _ 0]
    by (fastforce simp: fresh_node_eq)
qed

end
