(* ===== verification/Raft_Snapshot.thy ===== *)
theory Raft_Snapshot
  imports Raft_Leader
begin

text \<open>
  Snapshots (src/raft/raft.cc): the leader's request and the callback of its answer
  (\<open>leaderSendSnapShot\<close>, \<open>leaderSendSnapShotHandler\<close>), the follower's \<open>InstallSnapshot\<close>, and the
  local compaction \<open>Snapshot\<close> that the key-value server asks for.
\<close>

section \<open>Operations\<close>

definition leaderSendSnapShot :: "raft \<Rightarrow> InstallSnapshotRequest" where
  "leaderSendSnapShot r =
     \<lparr>is_leaderid = m_id r, is_term = m_currentTerm r,
      is_lastsnapshotincludeindex = m_lastSnapshotIndex r,
      is_lastsnapshotincludeterm = m_lastSnapshotTerm r,
      is_data = m_snapshotFile r\<rparr>"

definition leaderSendSnapShotHandler ::
  "int \<Rightarrow> bool \<Rightarrow> InstallSnapshotRequest \<Rightarrow> InstallSnapshotResponse \<Rightarrow> int \<Rightarrow> raft \<Rightarrow> (raft \<times> bool) result" where
  "leaderSendSnapShotHandler now ok args reply i r =
     (if \<not> ok then Inr (r, False)
      else if m_state r \<noteq> leader \<or> m_currentTerm r \<noteq> is_term args then Inr (r, True)
      else if isr_term reply > m_currentTerm r then
        Inr (persistState (r\<lparr>m_currentTerm := isr_term reply, m_voteForId := -1, m_state := follower,
                             m_lastElectionTime := now\<rparr>), True)
      else
        rbind (vec_put 1451 (m_matchIndex r) i (is_lastsnapshotincludeindex args)) (\<lambda>mi.
        rbind (vec_put 1452 (m_nextIndex r) i (is_lastsnapshotincludeindex args + 1)) (\<lambda>ni.
        Inr (r\<lparr>m_matchIndex := mi, m_nextIndex := ni\<rparr>, True))))"

text \<open>\<open>erase(cbegin(), begin() + n)\<close> on the vector of entries.\<close>

definition erase_front :: "nat \<Rightarrow> 'a list \<Rightarrow> int \<Rightarrow> 'a list result" where
  "erase_front ln xs n =
     (if 0 \<le> n \<and> n \<le> int (length xs) then Inr (drop (nat n) xs) else Inl (Out_of_range ln))"

definition pushMsgToKvServer :: "ApplyMsg \<Rightarrow> raft \<Rightarrow> raft" where
  "pushMsgToKvServer msg r = r\<lparr>applyChan := Push msg (applyChan r)\<rparr>"

text \<open>
  \<open>InstallSnapshot\<close> up to its comparison of the snapshot indices, for a request whose term is not
  old: a newer term is adopted and persisted, and the node follows the sender.
\<close>

definition install_begin :: "int \<Rightarrow> InstallSnapshotRequest \<Rightarrow> raft \<Rightarrow> raft result" where
  "install_begin now args r0 =
     (let r1 = (if is_term args > m_currentTerm r0
                then persistState (r0\<lparr>m_currentTerm := is_term args, m_voteForId := -1, m_state := follower\<rparr>)
                else r0) in
      rbind (assert_at 1481 (is_term args = m_currentTerm r1)) (\<lambda>_.
      Inr (r1\<lparr>m_state := follower, m_lastElectionTime := now\<rparr>)))"

text \<open>
  The rest, for a snapshot past the node's own: drop what it covers from the log (all of the log
  when it does not reach past the snapshot), raise the marks, save the snapshot and the node
  record, and hand the snapshot to the key-value server.
\<close>

definition install_message :: "InstallSnapshotRequest \<Rightarrow> ApplyMsg" where
  "install_message args = new_ApplyMsg\<lparr>SnapshotValid := True, Snapshot_data := is_data args,
     SnapshotIndex := is_lastsnapshotincludeindex args, SnapshotTerm := is_lastsnapshotincludeterm args\<rparr>"

definition install_snapshot :: "InstallSnapshotRequest \<Rightarrow> raft \<Rightarrow> raft result" where
  "install_snapshot args r =
     (let snap = is_lastsnapshotincludeindex args in
      rbind (if getLastLogIndex r > snap
             then let index = snap - m_lastSnapshotIndex r - 1 in erase_front 1507 (m_logs r) (index + 1)
             else Inr []) (\<lambda>logs.
      let r' = r\<lparr>m_logs := logs,
                 m_commitIndex := max (m_commitIndex r) snap,
                 m_stableLogIndex := max (m_stableLogIndex r) snap,
                 m_lastApplied := max (m_lastApplied r) snap,
                 m_lastSnapshotIndex := snap,
                 m_lastSnapshotTerm := is_lastsnapshotincludeterm args,
                 m_snapshotFile := is_data args\<rparr>
      in Inr (pushMsgToKvServer (install_message args) (persistState r'))))"

definition InstallSnapshot ::
  "int \<Rightarrow> InstallSnapshotRequest \<Rightarrow> raft \<Rightarrow> (raft \<times> InstallSnapshotResponse) result" where
  "InstallSnapshot now args r =
     (if is_term args < m_currentTerm r then Inr (r, \<lparr>isr_term = m_currentTerm r\<rparr>)
      else
        rbind (install_begin now args r) (\<lambda>r'.
        if is_lastsnapshotincludeindex args \<le> m_lastSnapshotIndex r'
        then Inr (r', \<lparr>isr_term = m_currentTerm r'\<rparr>)
        else rbind (install_snapshot args r') (\<lambda>r''. Inr (r'', \<lparr>isr_term = m_currentTerm r''\<rparr>))))"

text \<open>The loop of \<open>Snapshot\<close> that copies the entries at \<open>i, i + 1, ..., lastLogIndex\<close>.\<close>

function copy_entries :: "raft \<Rightarrow> int \<Rightarrow> int \<Rightarrow> LogEntry list result" where
  "copy_entries r i lastLogIndex =
     (if i \<le> lastLogIndex then
        rbind (vec_at 1568 (m_logs r) (i - m_lastSnapshotIndex r - 1)) (\<lambda>e.
        rbind (copy_entries r (i + 1) lastLogIndex) (\<lambda>es. Inr (e # es)))
      else Inr [])"
  by pat_completeness auto
termination
  by (relation "measure (\<lambda>(r, i, n). nat (n + 1 - i))") auto

declare copy_entries.simps [simp del]

definition Snapshot :: "int \<Rightarrow> string \<Rightarrow> raft \<Rightarrow> raft result" where
  "Snapshot index snapshot r =
     (if m_lastSnapshotIndex r \<ge> index \<or> index > m_commitIndex r then Inr r
      else
        let lastLogIndex = getLastLogIndex r in
        rbind (vec_at 1564 (m_logs r) (index - m_lastSnapshotIndex r - 1)) (\<lambda>e.
        rbind (copy_entries r (index + 1) lastLogIndex) (\<lambda>trunckedLogs.
        let r' = r\<lparr>m_lastSnapshotIndex := index, m_lastSnapshotTerm := logterm e,
                   m_logs := trunckedLogs,
                   m_commitIndex := max (m_commitIndex r) index,
                   m_stableLogIndex := max (m_stableLogIndex r) index,
                   m_lastApplied := max (m_lastApplied r) index\<rparr>;
            r'' = persistState (r'\<lparr>m_snapshotFile := snapshot\<rparr>) in
        rbind (assert_at 1592 (int (length (m_logs r'')) + m_lastSnapshotIndex r'' = lastLogIndex)) (\<lambda>_.
        Inr r''))))"

section \<open>Shared lemmas\<close>

lemma pushMsg_simps [simp]:
  "m_logs (pushMsgToKvServer m r) = m_logs r"
  "m_lastSnapshotIndex (pushMsgToKvServer m r) = m_lastSnapshotIndex r"
  "m_lastSnapshotTerm (pushMsgToKvServer m r) = m_lastSnapshotTerm r"
  "m_commitIndex (pushMsgToKvServer m r) = m_commitIndex r"
  "m_stableLogIndex (pushMsgToKvServer m r) = m_stableLogIndex r"
  "m_lastApplied (pushMsgToKvServer m r) = m_lastApplied r"
  "m_currentTerm (pushMsgToKvServer m r) = m_currentTerm r"
  "m_voteForId (pushMsgToKvServer m r) = m_voteForId r"
  "m_state (pushMsgToKvServer m r) = m_state r"
  "m_id (pushMsgToKvServer m r) = m_id r"
  "m_peers_size (pushMsgToKvServer m r) = m_peers_size r"
  "m_nextIndex (pushMsgToKvServer m r) = m_nextIndex r"
  "m_matchIndex (pushMsgToKvServer m r) = m_matchIndex r"
  "fmp (pushMsgToKvServer m r) = fmp r"
  "m_snapshotFile (pushMsgToKvServer m r) = m_snapshotFile r"
  by (simp_all add: pushMsgToKvServer_def)

lemma applyChan_pushMsg [simp]:
  "m_queue (applyChan (pushMsgToKvServer m r)) = m_queue (applyChan r) @ [m]"
  by (simp add: pushMsgToKvServer_def Push_def)

text \<open>The log above an index \<open>n\<close> that is at or past the snapshot.\<close>

definition log_above :: "raft \<Rightarrow> int \<Rightarrow> LogEntry list" where
  "log_above r n = drop (nat (n - m_lastSnapshotIndex r)) (m_logs r)"

lemma contiguous_log_above:
  assumes "log_ok r" "m_lastSnapshotIndex r \<le> n" "n \<le> getLastLogIndex r"
  shows "contiguous n (log_above r n)" "int (length (log_above r n)) = getLastLogIndex r - n"
proof -
  have "contiguous (m_lastSnapshotIndex r + int (nat (n - m_lastSnapshotIndex r))) (log_above r n)"
    unfolding log_above_def using assms last_index_contiguous [OF assms(1)]
    by (intro contiguous_drop) (auto simp: log_ok_def)
  then show "contiguous n (log_above r n)" using assms(2) by simp
  show "int (length (log_above r n)) = getLastLogIndex r - n"
    using assms last_index_contiguous [OF assms(1)] by (simp add: log_above_def of_nat_diff)
qed

lemma copy_entries_ok:
  assumes "log_ok r" "m_lastSnapshotIndex r < i" "i \<le> getLastLogIndex r + 1"
  shows "copy_entries r i (getLastLogIndex r) = Inr (log_above r (i - 1))"
  using assms
proof (induction r i "getLastLogIndex r" rule: copy_entries.induct)
  case (1 r i)
  note len = last_index_contiguous [OF "1.prems"(1)]
  show ?case
  proof (cases "i \<le> getLastLogIndex r")
    case True
    have pos: "nat (i - m_lastSnapshotIndex r) = Suc (nat (i - 1 - m_lastSnapshotIndex r))"
      using "1.prems"(2) by simp
    have "log_above r (i - 1) = m_logs r ! nat (i - 1 - m_lastSnapshotIndex r) # log_above r i"
      unfolding log_above_def pos
      using True len "1.prems"(2) by (intro Cons_nth_drop_Suc [symmetric]) simp
    moreover have "copy_entries r (i + 1) (getLastLogIndex r) = Inr (log_above r i)"
      using "1.hyps" True "1.prems" by simp
    ultimately show ?thesis
      using True "1.prems" len
      by (simp add: copy_entries.simps [of r i] vec_at_in_range algebra_simps)
  next
    case False
    then show ?thesis
      using "1.prems" len by (simp add: copy_entries.simps [of r i] log_above_def)
  qed
qed

text \<open>A node whose log now starts at \<open>n\<close>, with the marks raised to it.\<close>

lemma raft_ok_cut:
  assumes "raft_ok r" "m_lastSnapshotIndex r \<le> n"
    "m_logs s = (if getLastLogIndex r > n then log_above r n else [])"
    "m_lastSnapshotIndex s = n" "m_commitIndex s = max (m_commitIndex r) n"
    "m_lastApplied s = max (m_lastApplied r) n"
    "m_peers_size s = m_peers_size r" "m_nextIndex s = m_nextIndex r" "m_matchIndex s = m_matchIndex r"
  shows "raft_ok s \<and> getLastLogIndex s = max (getLastLogIndex r) n"
proof -
  have r: "log_ok r" using assms(1) by (simp add: raft_ok_def)
  have s: "log_ok s"
    using contiguous_log_above(1) [OF r assms(2)] assms(3,4) by (auto simp: log_ok_def)
  have last: "getLastLogIndex s = max (getLastLogIndex r) n"
    using contiguous_log_above(2) [OF r assms(2)] assms(3,4) by (auto simp: last_index_contiguous [OF s])
  show ?thesis using assms s last by (auto simp: raft_ok_defs)
qed

lemma quiet_leaderSendSnapShotHandler:
  "leaderSendSnapShotHandler now ok args reply i r = Inr (r', b) \<Longrightarrow> quiet_step r r'"
  by (auto simp: leaderSendSnapShotHandler_def quiet_step_def result_simps split: if_splits)

lemma install_begin_ok:
  assumes "m_currentTerm r \<le> is_term args"
  obtains s where "install_begin now args r = Inr s" "quiet_step r s"
    "m_currentTerm s = is_term args" "m_state s = follower" "m_logs s = m_logs r"
    "m_lastSnapshotIndex s = m_lastSnapshotIndex r" "m_lastSnapshotTerm s = m_lastSnapshotTerm r"
    "m_commitIndex s = m_commitIndex r" "m_lastApplied s = m_lastApplied r"
    "m_stableLogIndex s = m_stableLogIndex r" "m_peers_size s = m_peers_size r"
    "m_nextIndex s = m_nextIndex r" "m_matchIndex s = m_matchIndex r" "applyChan s = applyChan r"
  using assms by (cases "is_term args > m_currentTerm r")
    (auto simp: install_begin_def quiet_step_def)

lemma install_snapshot_ok:
  assumes "raft_ok s" "m_lastSnapshotIndex s < is_lastsnapshotincludeindex args"
  obtains s' where "install_snapshot args s = Inr s'" "quiet_step s s'" "raft_ok s'"
    "m_state s' = m_state s" "m_currentTerm s' = m_currentTerm s"
    "m_logs s' = (if getLastLogIndex s > is_lastsnapshotincludeindex args
       then log_above s (is_lastsnapshotincludeindex args) else [])"
    "getLastLogIndex s' = max (getLastLogIndex s) (is_lastsnapshotincludeindex args)"
    "m_lastSnapshotIndex s' = is_lastsnapshotincludeindex args"
    "m_lastSnapshotTerm s' = is_lastsnapshotincludeterm args"
    "m_commitIndex s' = max (m_commitIndex s) (is_lastsnapshotincludeindex args)"
    "m_lastApplied s' = max (m_lastApplied s) (is_lastsnapshotincludeindex args)"
    "m_snapshotFile s' = is_data args"
    "m_queue (applyChan s') = m_queue (applyChan s) @ [install_message args]"
proof -
  let ?snap = "is_lastsnapshotincludeindex args"
  have len: "getLastLogIndex s = m_lastSnapshotIndex s + int (length (m_logs s))"
    using assms(1) by (simp add: raft_ok_def last_index_contiguous)
  have "\<exists>logs. (if getLastLogIndex s > ?snap
      then let index = ?snap - m_lastSnapshotIndex s - 1 in erase_front 1507 (m_logs s) (index + 1)
      else Inr []) = Inr logs"
    using assms(2) len by (simp add: erase_front_def)
  then obtain s' where run: "install_snapshot args s = Inr s'"
    by (auto simp: install_snapshot_def Let_def)
  then have fields: "m_logs s' = (if getLastLogIndex s > ?snap then log_above s ?snap else [])"
    "m_lastSnapshotIndex s' = ?snap" "m_lastSnapshotTerm s' = is_lastsnapshotincludeterm args"
    "m_commitIndex s' = max (m_commitIndex s) ?snap" "m_lastApplied s' = max (m_lastApplied s) ?snap"
    "m_snapshotFile s' = is_data args" "m_state s' = m_state s" "m_currentTerm s' = m_currentTerm s"
    "m_queue (applyChan s') = m_queue (applyChan s) @ [install_message args]"
    "m_peers_size s' = m_peers_size s" "m_nextIndex s' = m_nextIndex s" "m_matchIndex s' = m_matchIndex s"
    "m_id s' = m_id s" "m_voteForId s' = m_voteForId s"
    by (auto simp: install_snapshot_def erase_front_def log_above_def Let_def split: if_splits)
  have "raft_ok s' \<and> getLastLogIndex s' = max (getLastLogIndex s) ?snap"
    using assms fields by (intro raft_ok_cut) simp_all
  moreover have "quiet_step s s'" using fields by (simp add: quiet_step_def)
  ultimately show ?thesis using run fields that by blast
qed

lemma raft_ok_cong:
  assumes "m_logs s = m_logs r" "m_lastSnapshotIndex s = m_lastSnapshotIndex r"
    "m_commitIndex s = m_commitIndex r" "m_lastApplied s = m_lastApplied r"
    "m_peers_size s = m_peers_size r" "length (m_nextIndex s) = length (m_nextIndex r)"
    "length (m_matchIndex s) = length (m_matchIndex r)" "raft_ok r"
  shows "raft_ok s" "getLastLogIndex s = getLastLogIndex r"
proof -
  have "log_ok s" using assms by (simp add: raft_ok_def log_ok_def)
  then show last: "getLastLogIndex s = getLastLogIndex r"
    using assms by (simp add: raft_ok_def last_index_contiguous)
  then show "raft_ok s" using assms \<open>log_ok s\<close> by (simp add: raft_ok_defs)
qed

lemma InstallSnapshot_cases:
  assumes "raft_ok r" "InstallSnapshot now args r = Inr (r', rep)"
  obtains
    (refused) "is_term args < m_currentTerm r" "r' = r" "isr_term rep = m_currentTerm r"
  | (old) "m_currentTerm r \<le> is_term args" "is_lastsnapshotincludeindex args \<le> m_lastSnapshotIndex r"
      "quiet_step r r'" "raft_ok r'" "isr_term rep = is_term args" "m_currentTerm r' = is_term args"
      "m_state r' = follower" "m_logs r' = m_logs r" "m_commitIndex r' = m_commitIndex r"
      "m_lastSnapshotIndex r' = m_lastSnapshotIndex r" "m_lastApplied r' = m_lastApplied r"
      "getLastLogIndex r' = getLastLogIndex r" "applyChan r' = applyChan r"
  | (installed) "m_currentTerm r \<le> is_term args"
      "m_lastSnapshotIndex r < is_lastsnapshotincludeindex args"
      "quiet_step r r'" "raft_ok r'" "isr_term rep = is_term args" "m_currentTerm r' = is_term args"
      "m_state r' = follower"
      "m_logs r' = (if getLastLogIndex r > is_lastsnapshotincludeindex args
          then log_above r (is_lastsnapshotincludeindex args) else [])"
      "getLastLogIndex r' = max (getLastLogIndex r) (is_lastsnapshotincludeindex args)"
      "m_lastSnapshotIndex r' = is_lastsnapshotincludeindex args"
      "m_lastSnapshotTerm r' = is_lastsnapshotincludeterm args"
      "m_commitIndex r' = max (m_commitIndex r) (is_lastsnapshotincludeindex args)"
      "m_lastApplied r' = max (m_lastApplied r) (is_lastsnapshotincludeindex args)"
      "m_snapshotFile r' = is_data args"
      "m_queue (applyChan r') = m_queue (applyChan r) @ [install_message args]"
proof (cases "is_term args < m_currentTerm r")
  case True
  then show ?thesis using assms(2) by (intro refused) (auto simp: InstallSnapshot_def)
next
  case False
  then have le: "m_currentTerm r \<le> is_term args" by simp
  obtain s where s: "install_begin now args r = Inr s" "quiet_step r s"
    "m_currentTerm s = is_term args" "m_state s = follower" "m_logs s = m_logs r"
    "m_lastSnapshotIndex s = m_lastSnapshotIndex r" "m_lastSnapshotTerm s = m_lastSnapshotTerm r"
    "m_commitIndex s = m_commitIndex r" "m_lastApplied s = m_lastApplied r"
    "m_stableLogIndex s = m_stableLogIndex r" "m_peers_size s = m_peers_size r"
    "m_nextIndex s = m_nextIndex r" "m_matchIndex s = m_matchIndex r" "applyChan s = applyChan r"
    by (rule install_begin_ok [OF le])
  have ok: "raft_ok s" "getLastLogIndex s = getLastLogIndex r"
    using raft_ok_cong [of s r] s assms(1) by simp_all
  show ?thesis
  proof (cases "is_lastsnapshotincludeindex args \<le> m_lastSnapshotIndex r")
    case True
    then show ?thesis using assms(2) False s ok by (intro old) (auto simp: InstallSnapshot_def)
  next
    case new: False
    then have lt: "m_lastSnapshotIndex s < is_lastsnapshotincludeindex args" using s by simp
    obtain s' where s': "install_snapshot args s = Inr s'" "quiet_step s s'" "raft_ok s'"
      "m_state s' = m_state s" "m_currentTerm s' = m_currentTerm s"
      "m_logs s' = (if getLastLogIndex s > is_lastsnapshotincludeindex args
         then log_above s (is_lastsnapshotincludeindex args) else [])"
      "getLastLogIndex s' = max (getLastLogIndex s) (is_lastsnapshotincludeindex args)"
      "m_lastSnapshotIndex s' = is_lastsnapshotincludeindex args"
      "m_lastSnapshotTerm s' = is_lastsnapshotincludeterm args"
      "m_commitIndex s' = max (m_commitIndex s) (is_lastsnapshotincludeindex args)"
      "m_lastApplied s' = max (m_lastApplied s) (is_lastsnapshotincludeindex args)"
      "m_snapshotFile s' = is_data args"
      "m_queue (applyChan s') = m_queue (applyChan s) @ [install_message args]"
      by (rule install_snapshot_ok [OF ok(1) lt])
    have "log_above s i = log_above r i" for i using s by (simp add: log_above_def)
    moreover have "r' = s'" "isr_term rep = m_currentTerm s'"
      using assms(2) False new s(1,6) s'(1) by (auto simp: InstallSnapshot_def)
    ultimately show ?thesis
      using le new s s' ok quiet_trans [OF s(2) s'(2)] by (intro installed) simp_all
  qed
qed

lemma InstallSnapshot_total:
  assumes "raft_ok r"
  shows "\<exists>r' rep. InstallSnapshot now args r = Inr (r', rep)"
proof (cases "is_term args < m_currentTerm r")
  case False
  then have le: "m_currentTerm r \<le> is_term args" by simp
  from le show ?thesis
  proof (rule install_begin_ok [of _ _ now])
    fix s assume s: "install_begin now args r = Inr s" "m_logs s = m_logs r"
      "m_lastSnapshotIndex s = m_lastSnapshotIndex r" "m_commitIndex s = m_commitIndex r"
      "m_lastApplied s = m_lastApplied r" "m_peers_size s = m_peers_size r"
      "m_nextIndex s = m_nextIndex r" "m_matchIndex s = m_matchIndex r"
    have ok: "raft_ok s" using raft_ok_cong [of s r] s assms by simp
    show ?thesis
    proof (cases "is_lastsnapshotincludeindex args \<le> m_lastSnapshotIndex s")
      case new: False
      then have lt: "m_lastSnapshotIndex s < is_lastsnapshotincludeindex args" by simp
      show ?thesis
        by (rule install_snapshot_ok [OF ok lt]) (use new False s(1) in \<open>simp add: InstallSnapshot_def\<close>)
    qed (use False s(1) in \<open>auto simp: InstallSnapshot_def\<close>)
  qed
qed (auto simp: InstallSnapshot_def)

lemma quiet_InstallSnapshot:
  "raft_ok r \<Longrightarrow> InstallSnapshot now args r = Inr (r', rep) \<Longrightarrow> quiet_step r r'"
  by (erule InstallSnapshot_cases) auto

lemma vote_durable_range:
  "vote_durable r \<Longrightarrow> int32_range (m_currentTerm r) \<and> int32_range (m_voteForId r)"
  unfolding vote_durable_def by (metis int32_range_of_u32)

lemma Snapshot_cut:
  assumes "raft_ok r" "m_lastSnapshotIndex r < index" "index \<le> m_commitIndex r"
  obtains r' where "Snapshot index snapshot r = Inr r'" "quiet_step r r'" "raft_ok r'"
    "m_logs r' = log_above r index" "getLastLogIndex r' = getLastLogIndex r"
    "m_lastSnapshotIndex r' = index" "m_lastSnapshotTerm r' = term_at r index"
    "m_commitIndex r' = m_commitIndex r" "m_lastApplied r' = max (m_lastApplied r) index"
    "m_snapshotFile r' = snapshot" "m_state r' = m_state r" "applyChan r' = applyChan r"
    "vote_durable r \<longrightarrow> vote_durable r'"
proof -
  have ok: "log_ok r" and le: "index \<le> getLastLogIndex r" using assms by (auto simp: raft_ok_defs)
  note above = contiguous_log_above [OF ok _ le] and len = last_index_contiguous [OF ok]
  have copy: "copy_entries r (index + 1) (getLastLogIndex r) = Inr (log_above r index)"
    using copy_entries_ok [OF ok, of "index + 1"] assms(2) le by simp
  have at: "vec_at 1564 (m_logs r) (index - m_lastSnapshotIndex r - 1) = Inr (entry_at r index)"
    using assms(2) le len by (simp add: vec_at_in_range entry_at_def)
  define s where "s = r\<lparr>m_lastSnapshotIndex := index, m_lastSnapshotTerm := logterm (entry_at r index),
      m_logs := log_above r index, m_commitIndex := max (m_commitIndex r) index,
      m_stableLogIndex := max (m_stableLogIndex r) index, m_lastApplied := max (m_lastApplied r) index,
      m_snapshotFile := snapshot\<rparr>"
  have run: "Snapshot index snapshot r = Inr (persistState s)"
    using assms(2,3) copy at above(2) by (simp add: Snapshot_def Let_def s_def not_le)
  have "m_logs s = (if getLastLogIndex r > index then log_above r index else [])"
    using above(2) assms(2) le by (cases "log_above r index") (auto simp: s_def)
  then have "raft_ok s \<and> getLastLogIndex s = max (getLastLogIndex r) index"
    using assms by (intro raft_ok_cut) (simp_all add: s_def)
  moreover have "vote_durable r \<longrightarrow> vote_durable (persistState s)"
    using vote_durable_range [of r] by (auto intro!: vote_durable_persistState simp: s_def)
  ultimately show ?thesis
    using run assms le by (intro that) (auto simp: s_def quiet_step_def term_at_def)
qed

lemma Snapshot_refused:
  "index \<le> m_lastSnapshotIndex r \<or> m_commitIndex r < index \<Longrightarrow> Snapshot index snapshot r = Inr r"
  by (auto simp: Snapshot_def)

lemma quiet_Snapshot: "raft_ok r \<Longrightarrow> Snapshot index snapshot r = Inr r' \<Longrightarrow> quiet_step r r' \<and> raft_ok r'"
  using Snapshot_refused [of index r snapshot] Snapshot_cut [of r index snapshot]
  by (cases "index \<le> m_lastSnapshotIndex r \<or> m_commitIndex r < index") (auto simp: not_le)

lemma entry_at_above:
  "m_logs s = log_above r n \<Longrightarrow> m_lastSnapshotIndex s = n \<Longrightarrow> log_ok r \<Longrightarrow> m_lastSnapshotIndex r \<le> n \<Longrightarrow>
   n < i \<Longrightarrow> i \<le> getLastLogIndex r \<Longrightarrow> entry_at s i = entry_at r i"
  by (simp add: entry_at_def log_above_def last_index_contiguous nat_diff_distrib' add.commute
      nat_add_distrib [symmetric])

section \<open>Properties\<close>

text \<open>C16: \<open>InstallSnapshot\<close> never fails on a well-formed node and keeps it well formed; a snapshot past
  the node's own replaces the log up to it and is handed to the server exactly once, the commit
  index and the applied index are raised to it and never fall, and every entry above it stays.\<close>

theorem InstallSnapshot_spec:
  "raft_ok r \<Longrightarrow> \<exists>r' rep. InstallSnapshot now args r = Inr (r', rep) \<and> raft_ok r'
     \<and> m_commitIndex r \<le> m_commitIndex r' \<and> m_lastApplied r \<le> m_lastApplied r'
     \<and> getLastLogIndex r \<le> getLastLogIndex r'
     \<and> isr_term rep = max (m_currentTerm r) (is_term args) \<and> m_currentTerm r' = isr_term rep
     \<and> (if m_currentTerm r \<le> is_term args \<and> m_lastSnapshotIndex r < is_lastsnapshotincludeindex args
        then m_lastSnapshotIndex r' = is_lastsnapshotincludeindex args
          \<and> m_lastSnapshotTerm r' = is_lastsnapshotincludeterm args
          \<and> is_lastsnapshotincludeindex args \<le> m_lastApplied r'
          \<and> m_snapshotFile r' = is_data args
          \<and> m_queue (applyChan r') = m_queue (applyChan r) @ [install_message args]
        else m_logs r' = m_logs r \<and> m_lastSnapshotIndex r' = m_lastSnapshotIndex r
          \<and> applyChan r' = applyChan r)
     \<and> (\<forall>i. m_lastSnapshotIndex r' < i \<and> i \<le> getLastLogIndex r \<longrightarrow> entry_at r' i = entry_at r i)"
proof -
  assume ok: "raft_ok r"
  then obtain r' rep where run: "InstallSnapshot now args r = Inr (r', rep)"
    using InstallSnapshot_total by blast
  have log: "log_ok r" using ok by (simp add: raft_ok_def)
  have same: "entry_at s i = entry_at r i"
    if "m_logs s = m_logs r" "m_lastSnapshotIndex s = m_lastSnapshotIndex r" for s i
    using that by (simp add: entry_at_def)
  from ok run show ?thesis
  proof (cases rule: InstallSnapshot_cases)
    case installed
    have "entry_at r' i = entry_at r i"
      if "is_lastsnapshotincludeindex args < i" "i \<le> getLastLogIndex r" for i
      using installed(2,8,10) that by (intro entry_at_above [OF _ _ log]) auto
    with run installed show ?thesis by simp
  qed (use run ok same [of r'] in auto)
qed

text \<open>A follower with three entries, the first two committed.\<close>

definition sample_follower :: raft where
  "sample_follower = (fresh_node 1 3)\<lparr>m_currentTerm := 2, m_commitIndex := 2, m_lastApplied := 1,
     m_logs := [\<lparr>command = ''a'', logterm = 1, logindex = 1\<rparr>,
                \<lparr>command = ''b'', logterm = 1, logindex = 2\<rparr>,
                \<lparr>command = ''c'', logterm = 1, logindex = 3\<rparr>]\<rparr>"

lemma sample_follower_ok: "raft_ok sample_follower"
  by (simp add: raft_ok_defs log_ok_def contiguous_def sample_follower_def fresh_node_eq
      getLastLogIndex_def getLastLogIndexandTerm_def less_Suc_eq numeral_3_eq_3)

text \<open>A snapshot of term 2 at index 2, where the node holds an entry of term 1: entry 3, which
  follows an entry the leader does not have, stays.\<close>

theorem InstallSnapshot_spec_witness:
  "\<exists>r' rep. InstallSnapshot 5 \<lparr>is_leaderid = 0, is_term = 2, is_lastsnapshotincludeindex = 2,
        is_lastsnapshotincludeterm = 2, is_data = ''s''\<rparr> sample_follower = Inr (r', rep)
     \<and> raft_ok r' \<and> m_lastSnapshotIndex r' = 2 \<and> m_lastSnapshotTerm r' = 2 \<and> 2 \<le> m_lastApplied r'
     \<and> entry_at r' 3 = \<lparr>command = ''c'', logterm = 1, logindex = 3\<rparr>"
proof -
  have "getLastLogIndex sample_follower = 3" "m_currentTerm sample_follower = 2"
    "m_lastSnapshotIndex sample_follower = 0"
    "entry_at sample_follower 3 = \<lparr>command = ''c'', logterm = 1, logindex = 3\<rparr>"
    by (simp_all add: sample_follower_def fresh_node_eq getLastLogIndex_def
        getLastLogIndexandTerm_def entry_at_def)
  then show ?thesis
    using InstallSnapshot_spec [OF sample_follower_ok, of 5 "\<lparr>is_leaderid = 0, is_term = 2,
        is_lastsnapshotincludeindex = 2, is_lastsnapshotincludeterm = 2, is_data = ''s''\<rparr>"]
    by fastforce
qed

text \<open>A local snapshot at an index between the last one and the commit index never fails: the
  log loses exactly the entries up to it, the last index stays, the snapshot's term is that of the
  entry it replaces, the snapshot is stored, and the node stays well formed with its vote on disk.
  Any other index leaves the node as it is.\<close>

lemma Snapshot_spec:
  "raft_ok r \<Longrightarrow> vote_durable r \<Longrightarrow>
   \<exists>r'. Snapshot index snapshot r = Inr r' \<and> raft_ok r' \<and> vote_durable r'
     \<and> getLastLogIndex r' = getLastLogIndex r \<and> m_commitIndex r' = m_commitIndex r
     \<and> (if m_lastSnapshotIndex r < index \<and> index \<le> m_commitIndex r
        then m_lastSnapshotIndex r' = index \<and> m_lastSnapshotTerm r' = term_at r index
          \<and> m_snapshotFile r' = snapshot \<and> m_lastApplied r' = max (m_lastApplied r) index
          \<and> (\<forall>i. index < i \<and> i \<le> getLastLogIndex r \<longrightarrow> entry_at r' i = entry_at r i)
        else r' = r)"
proof (cases "m_lastSnapshotIndex r < index \<and> index \<le> m_commitIndex r")
  case True
  assume ok: "raft_ok r" "vote_durable r"
  obtain r' where r': "Snapshot index snapshot r = Inr r'" "raft_ok r'"
    "m_logs r' = log_above r index" "getLastLogIndex r' = getLastLogIndex r"
    "m_lastSnapshotIndex r' = index" "m_lastSnapshotTerm r' = term_at r index"
    "m_commitIndex r' = m_commitIndex r" "m_lastApplied r' = max (m_lastApplied r) index"
    "m_snapshotFile r' = snapshot" "vote_durable r'"
    using Snapshot_cut [OF ok(1), of index snapshot] True ok(2) by metis
  have "entry_at r' i = entry_at r i" if "index < i" "i \<le> getLastLogIndex r" for i
    using entry_at_above [OF r'(3,5)] ok(1) that True by (simp add: raft_ok_def)
  with r' True show ?thesis by auto
next
  case False
  assume "raft_ok r" "vote_durable r"
  with False Snapshot_refused [of index r snapshot] show ?thesis by auto
qed

theorem Snapshot_spec_witness:
  "\<exists>r'. Snapshot 2 ''s'' (persistState sample_follower) = Inr r' \<and> raft_ok r' \<and> vote_durable r'
     \<and> m_lastSnapshotIndex r' = 2 \<and> m_lastSnapshotTerm r' = 1 \<and> getLastLogIndex r' = 3"
proof -
  let ?r = "persistState sample_follower"
  have "vote_durable ?r"
    by (intro vote_durable_persistState) (simp_all add: sample_follower_def fresh_node_eq int32_range_def)
  moreover have "raft_ok ?r" by (simp add: sample_follower_ok)
  moreover have "getLastLogIndex ?r = 3" "m_lastSnapshotIndex ?r = 0" "m_commitIndex ?r = 2"
    "term_at ?r 2 = 1"
    by (simp_all add: sample_follower_def fresh_node_eq getLastLogIndex_def
        getLastLogIndexandTerm_def entry_at_def term_at_def)
  ultimately show ?thesis using Snapshot_spec [of ?r 2 "''s''"] by fastforce
qed

text \<open>The answer to an installed snapshot sets the peer's match index to the snapshot's index
  whatever it was before, so a delayed answer moves it back; an answer with a newer term makes the
  leader step down with the new term on disk. The node stays well formed in every case.\<close>

lemma leaderSendSnapShotHandler_spec:
  "raft_ok r \<Longrightarrow> vote_durable r \<Longrightarrow> int32_range (isr_term reply) \<Longrightarrow> 0 \<le> i \<Longrightarrow> i < int (m_peers_size r) \<Longrightarrow>
   \<exists>r' b. leaderSendSnapShotHandler now ok args reply i r = Inr (r', b)
     \<and> b = ok \<and> raft_ok r' \<and> vote_durable r'
     \<and> (if \<not> ok \<or> m_state r \<noteq> leader \<or> m_currentTerm r \<noteq> is_term args then r' = r
        else if isr_term reply > m_currentTerm r
        then m_state r' = follower \<and> m_currentTerm r' = isr_term reply \<and> m_voteForId r' = -1
        else m_matchIndex r' ! nat i = is_lastsnapshotincludeindex args
          \<and> m_nextIndex r' ! nat i = is_lastsnapshotincludeindex args + 1
          \<and> (\<forall>j. j \<noteq> nat i \<longrightarrow> m_matchIndex r' ! j = m_matchIndex r ! j))"
proof -
  assume ok: "raft_ok r" and dur: "vote_durable r" and rng: "int32_range (isr_term reply)"
    and i: "0 \<le> i" "i < int (m_peers_size r)"
  have len: "nat i < length (m_matchIndex r)" "nat i < length (m_nextIndex r)"
    using ok i by (auto simp: raft_ok_defs nat_less_iff)
  show ?thesis
  proof (cases "ok \<and> m_state r = leader \<and> m_currentTerm r = is_term args")
    case False
    then show ?thesis using ok dur by (auto simp: leaderSendSnapShotHandler_def)
  next
    case True
    show ?thesis
    proof (cases "isr_term reply > m_currentTerm r")
      case newer: True
      let ?r = "r\<lparr>m_currentTerm := isr_term reply, m_voteForId := -1, m_state := follower, m_lastElectionTime := now\<rparr>"
      have "raft_ok ?r" by (rule raft_ok_cong(1) [OF _ _ _ _ _ _ _ ok]) simp_all
      moreover have "vote_durable (persistState ?r)" using rng by (intro vote_durable_persistState) simp_all
      ultimately show ?thesis using True newer by (auto simp: leaderSendSnapShotHandler_def)
    next
      case same: False
      let ?r = "r\<lparr>m_matchIndex := (m_matchIndex r)[nat i := is_lastsnapshotincludeindex args],
          m_nextIndex := (m_nextIndex r)[nat i := is_lastsnapshotincludeindex args + 1]\<rparr>"
      have "raft_ok ?r" by (rule raft_ok_cong(1) [OF _ _ _ _ _ _ _ ok]) simp_all
      moreover have "vote_durable ?r" using dur by (simp add: vote_durable_def)
      ultimately show ?thesis
        using True same len i by (auto simp: leaderSendSnapShotHandler_def vec_put_in_range)
    qed
  qed
qed

theorem leaderSendSnapShotHandler_spec_witness:
  "\<exists>r' b. leaderSendSnapShotHandler 5 True
       \<lparr>is_leaderid = 0, is_term = 1, is_lastsnapshotincludeindex = 0, is_lastsnapshotincludeterm = 0, is_data = []\<rparr>
       \<lparr>isr_term = 1\<rparr> 1 (persistState sample_leader) = Inr (r', b)
     \<and> m_matchIndex (persistState sample_leader) ! 1 = 1 \<and> m_matchIndex r' ! 1 = 0 \<and> raft_ok r'"
proof -
  let ?r = "persistState sample_leader"
  have "vote_durable ?r"
    by (intro vote_durable_persistState) (simp_all add: sample_leader_def fresh_node_eq int32_range_def)
  moreover have "raft_ok ?r" by (simp add: sample_leader_ok)
  moreover have "m_state ?r = leader" "m_currentTerm ?r = 1" "m_peers_size ?r = 3" "m_matchIndex ?r ! 1 = 1"
    by (simp_all add: sample_leader_def fresh_node_eq)
  ultimately show ?thesis
    using leaderSendSnapShotHandler_spec [of ?r "\<lparr>isr_term = 1\<rparr>" 1 5 True "\<lparr>is_leaderid = 0, is_term = 1,
        is_lastsnapshotincludeindex = 0, is_lastsnapshotincludeterm = 0, is_data = []\<rparr>"]
    by (fastforce simp: int32_range_def)
qed

end
