(* ===== verification/Raft_Apply.thy ===== *)
theory Raft_Apply
  imports Raft_Snapshot
begin

text \<open>
  The client's side of a raft node (src/raft/raft.cc): \<open>Start\<close> appends a command to the leader's log,
  \<open>onLogStable\<close> is the persister's callback for it, and \<open>applierTicker\<close> hands committed
  entries to the key-value server through \<open>applyChan\<close>.
\<close>

section \<open>Operations\<close>

text \<open>
  \<open>Start\<close> on the operation's encoding \<open>cmd\<close> (\<open>op.asString()\<close>). The result holds the values of
  the reference parameters and the entry handed to \<open>AppendLogAsync\<close>, if any.
\<close>

record start_reply =
  st_index :: int
  st_term :: int
  st_isLeader :: bool
  st_appended :: "LogEntry option"

definition Start :: "string \<Rightarrow> raft \<Rightarrow> raft \<times> start_reply" where
  "Start cmd r =
     (if m_state r \<noteq> leader
      then (r, \<lparr>st_index = -1, st_term = -1, st_isLeader = False, st_appended = None\<rparr>)
      else
        let logIndex = getLastLogIndex r + 1;
            logEntry = \<lparr>command = cmd, logterm = m_currentTerm r, logindex = logIndex\<rparr> in
        (persistState (r\<lparr>m_logs := m_logs r @ [logEntry]\<rparr>),
         \<lparr>st_index = logindex logEntry, st_term = logterm logEntry, st_isLeader = True,
          st_appended = Some logEntry\<rparr>))"

definition onLogStable :: "bool \<Rightarrow> int \<Rightarrow> raft \<Rightarrow> raft" where
  "onLogStable ok logIndex r =
     (if \<not> ok then
        (if logIndex > m_commitIndex r \<and> logIndex > m_lastSnapshotIndex r then
           let offset = logIndex - m_lastSnapshotIndex r - 1 in
           if 0 \<le> offset \<and> offset < int (length (m_logs r))
              \<and> logindex (m_logs r ! nat offset) = logIndex
           then r\<lparr>m_logs := take (nat offset) (m_logs r)\<rparr> else r
         else r)
      else
        let r' = (if logIndex > m_stableLogIndex r
                  then persistState (r\<lparr>m_stableLogIndex := logIndex\<rparr>) else r) in
        if m_state r' = leader \<and> logIndex \<le> getLastLogIndex r'
        then r'\<lparr>m_replicatePending := True\<rparr> else r')"

definition command_message :: "string \<Rightarrow> int \<Rightarrow> ApplyMsg" where
  "command_message cmd i = new_ApplyMsg\<lparr>CommandValid := True, SnapshotValid := False,
     Command := cmd, CommandIndex := i\<rparr>"

function copyLogs :: "raft \<Rightarrow> int \<Rightarrow> int \<Rightarrow> ApplyMsg list result" where
  "copyLogs r start till =
     (if start \<le> till then
        rbind (vec_at 1685 (m_logs r) (start - m_lastSnapshotIndex r - 1)) (\<lambda>e.
        rbind (copyLogs r (start + 1) till) (\<lambda>ms. Inr (command_message (command e) start # ms)))
      else Inr [])"
  by pat_completeness auto
termination
  by (relation "measure (\<lambda>(r, start, till). nat (till + 1 - start))") auto

declare copyLogs.simps [simp del]

text \<open>
  One turn of \<open>applierTicker\<close>. The part under the mutex copies the committed entries and advances
  \<open>m_lastApplied\<close>; \<open>None\<close> is a turn that is still waiting. The pushes follow without the mutex.
\<close>

definition applier_take :: "raft \<Rightarrow> (raft \<times> ApplyMsg list) option result" where
  "applier_take r =
     (if \<not> m_lastApplied r < m_commitIndex r then Inr None
      else
        let applyUntil = m_commitIndex r in
        rbind (copyLogs r (m_lastApplied r + 1) applyUntil) (\<lambda>logs.
        Inr (Some (r\<lparr>m_lastApplied := applyUntil\<rparr>, logs))))"

definition applier_push :: "ApplyMsg list \<Rightarrow> raft \<Rightarrow> raft" where
  "applier_push logs r = fold pushMsgToKvServer logs r"

definition applierTicker :: "raft \<Rightarrow> raft result" where
  "applierTicker r =
     rbind (applier_take r) (\<lambda>t. case t of None \<Rightarrow> Inr r | Some (r', logs) \<Rightarrow> Inr (applier_push logs r'))"

text \<open>\<open>getApplyLogs\<close>, the older form of the same step, with its assertions.\<close>

function apply_loop :: "raft \<Rightarrow> (raft \<times> ApplyMsg list) result" where
  "apply_loop r =
     (if m_lastApplied r < m_commitIndex r then
        let r' = r\<lparr>m_lastApplied := m_lastApplied r + 1\<rparr>; i = m_lastApplied r' in
        rbind (vec_at 1704 (m_logs r') (i - m_lastSnapshotIndex r' - 1)) (\<lambda>e.
        rbind (assert_at 1704 (logindex e = i)) (\<lambda>_.
        rbind (apply_loop r') (\<lambda>(r'', ms). Inr (r'', command_message (command e) i # ms))))
      else Inr (r, []))"
  by pat_completeness auto
termination
  by (relation "measure (\<lambda>r. nat (m_commitIndex r - m_lastApplied r))") auto

declare apply_loop.simps [simp del]

definition getApplyLogs :: "raft \<Rightarrow> (raft \<times> ApplyMsg list) result" where
  "getApplyLogs r =
     rbind (assert_at 1699 (m_commitIndex r \<le> getLastLogIndex r)) (\<lambda>_. apply_loop r)"

section \<open>Shared lemmas\<close>

text \<open>The messages for the entries \<open>a + 1, ..., b\<close>.\<close>

definition commands_between :: "raft \<Rightarrow> int \<Rightarrow> int \<Rightarrow> ApplyMsg list" where
  "commands_between r a b = map (\<lambda>i. command_message (command (entry_at r i)) i) [a + 1..b]"

lemma copyLogs_ok:
  assumes "log_ok r" "m_lastSnapshotIndex r < start" "till \<le> getLastLogIndex r"
  shows "copyLogs r start till = Inr (commands_between r (start - 1) till)"
  using assms
proof (induction r start till rule: copyLogs.induct)
  case (1 r start till)
  show ?case
  proof (cases "start \<le> till")
    case True
    then have "[start..till] = start # [start + 1..till]" by (simp add: upto_rec1)
    moreover have "vec_at 1685 (m_logs r) (start - m_lastSnapshotIndex r - 1) = Inr (entry_at r start)"
      using True "1.prems" last_index_contiguous [OF "1.prems"(1)] by (simp add: vec_at_in_range entry_at_def)
    ultimately show ?thesis
      using 1 True by (simp add: copyLogs.simps [of r start] commands_between_def)
  qed (simp add: copyLogs.simps [of r start] commands_between_def)
qed

lemma entry_at_applied [simp]: "entry_at (r\<lparr>m_lastApplied := i\<rparr>) = entry_at r"
  by (simp add: entry_at_def fun_eq_iff)

lemma apply_loop_ok:
  assumes "log_ok r" "m_lastSnapshotIndex r \<le> m_lastApplied r" "m_lastApplied r \<le> m_commitIndex r"
    "m_commitIndex r \<le> getLastLogIndex r"
  shows "apply_loop r = Inr (r\<lparr>m_lastApplied := m_commitIndex r\<rparr>,
           commands_between r (m_lastApplied r) (m_commitIndex r))"
  using assms
proof (induction r rule: apply_loop.induct)
  case (1 r)
  show ?case
  proof (cases "m_lastApplied r < m_commitIndex r")
    case True
    let ?i = "m_lastApplied r + 1"
    let ?r = "r\<lparr>m_lastApplied := ?i\<rparr>"
    have ok: "log_ok ?r" using "1.prems"(1) by (simp add: log_ok_def)
    have last: "getLastLogIndex ?r = getLastLogIndex r"
      using ok "1.prems"(1) by (simp add: last_index_contiguous)
    have at: "vec_at 1704 (m_logs r) (?i - m_lastSnapshotIndex r - 1) = Inr (entry_at r ?i)"
      and idx: "logindex (entry_at r ?i) = ?i"
      using True "1.prems" last_index_contiguous [OF "1.prems"(1)]
      by (auto simp: vec_at_in_range entry_at_def log_ok_def contiguous_def)
    have "apply_loop ?r = Inr (?r\<lparr>m_lastApplied := m_commitIndex ?r\<rparr>,
        commands_between ?r (m_lastApplied ?r) (m_commitIndex ?r))"
      by (rule "1.IH" [OF True refl refl]) (use "1.prems" True ok last in simp_all)
    moreover have "[?i..m_commitIndex r] = ?i # [?i + 1..m_commitIndex r]"
      using True by (simp add: upto_rec1)
    ultimately show ?thesis
      using True at idx by (simp add: apply_loop.simps [of r] commands_between_def Let_def)
  qed (use "1.prems" in \<open>auto simp: apply_loop.simps [of r] commands_between_def\<close>)
qed

lemma applier_push_eq:
  "applier_push logs r = r\<lparr>applyChan := \<lparr>m_queue = m_queue (applyChan r) @ logs\<rparr>\<rparr>"
  by (induction logs arbitrary: r)
     (simp_all add: applier_push_def pushMsgToKvServer_def Push_def)

lemma applierTicker_ok:
  assumes "raft_ok r"
  shows "\<exists>r'. applierTicker r = Inr r' \<and> raft_ok r' \<and> quiet_step r r' \<and> m_lastApplied r' = m_commitIndex r
    \<and> m_commitIndex r' = m_commitIndex r \<and> m_logs r' = m_logs r
    \<and> m_queue (applyChan r') = m_queue (applyChan r) @ commands_between r (m_lastApplied r) (m_commitIndex r)"
proof (cases "m_lastApplied r < m_commitIndex r")
  case True
  let ?r = "applier_push (commands_between r (m_lastApplied r) (m_commitIndex r)) (r\<lparr>m_lastApplied := m_commitIndex r\<rparr>)"
  have marks: "log_ok r" "m_lastSnapshotIndex r \<le> m_lastApplied r" "m_commitIndex r \<le> getLastLogIndex r"
    using assms by (auto simp: raft_ok_defs)
  have "copyLogs r (m_lastApplied r + 1) (m_commitIndex r) =
      Inr (commands_between r (m_lastApplied r) (m_commitIndex r))"
    using copyLogs_ok [OF marks(1), of "m_lastApplied r + 1" "m_commitIndex r"] marks(2,3) by simp
  then have run: "applierTicker r = Inr ?r"
    using True by (simp add: applierTicker_def applier_take_def Let_def)
  have ok: "log_ok ?r" using marks(1) by (simp add: applier_push_eq log_ok_def)
  moreover from this have "getLastLogIndex ?r = getLastLogIndex r"
    using marks(1) by (simp add: last_index_contiguous applier_push_eq)
  ultimately have "raft_ok ?r" using assms marks(2,3) by (auto simp: raft_ok_defs applier_push_eq)
  moreover have "quiet_step r ?r" by (simp add: applier_push_eq quiet_step_def)
  ultimately show ?thesis using run by (auto simp: applier_push_eq)
next
  case False
  then have "m_lastApplied r = m_commitIndex r" using assms by (auto simp: raft_ok_defs)
  then show ?thesis using assms False
    by (auto simp: applierTicker_def applier_take_def commands_between_def)
qed

lemma Start_frame:
  assumes "raft_ok r" "Start cmd r = (r', rep)"
  shows "raft_ok r' \<and> quiet_step r r' \<and> m_lastApplied r' = m_lastApplied r \<and> applyChan r' = applyChan r
    \<and> m_commitIndex r' = m_commitIndex r
    \<and> (m_state r = leader \<longrightarrow> getLastLogIndex r' = getLastLogIndex r + 1)"
proof (cases "m_state r = leader")
  case True
  let ?s = "r\<lparr>m_logs := m_logs r @ [\<lparr>command = cmd, logterm = m_currentTerm r,
      logindex = getLastLogIndex r + 1\<rparr>]\<rparr>"
  have log: "log_ok r" using assms(1) by (simp add: raft_ok_def)
  then have "log_ok ?s" by (simp add: log_ok_def contiguous_snoc last_index_contiguous)
  moreover from this have "getLastLogIndex ?s = getLastLogIndex r + 1"
    using log by (simp add: last_index_contiguous)
  ultimately show ?thesis
    using assms True by (auto simp: Start_def Let_def raft_ok_defs quiet_step_def)
qed (use assms in \<open>auto simp: Start_def\<close>)

lemma onLogStable_frame:
  assumes "raft_ok r"
  shows "raft_ok (onLogStable ok logIndex r) \<and> quiet_step r (onLogStable ok logIndex r)
    \<and> m_lastApplied (onLogStable ok logIndex r) = m_lastApplied r
    \<and> m_commitIndex (onLogStable ok logIndex r) = m_commitIndex r
    \<and> applyChan (onLogStable ok logIndex r) = applyChan r"
proof (cases ok)
  case True
  have "raft_ok (onLogStable ok logIndex r)"
    using assms True by (intro raft_ok_cong(1) [OF _ _ _ _ _ _ _ assms]) (auto simp: onLogStable_def Let_def)
  with True show ?thesis by (auto simp: onLogStable_def Let_def quiet_step_def)
next
  case False
  let ?s = "r\<lparr>m_logs := take (nat (logIndex - m_lastSnapshotIndex r - 1)) (m_logs r)\<rparr>"
  have "raft_ok ?s" if "m_commitIndex r < logIndex" "m_lastSnapshotIndex r < logIndex"
    "logIndex - m_lastSnapshotIndex r - 1 < int (length (m_logs r))"
  proof -
    have ok: "log_ok ?s" using assms by (auto simp: raft_ok_def log_ok_def)
    then have "getLastLogIndex ?s = logIndex - 1" using that by (simp add: last_index_contiguous)
    then show ?thesis using assms ok that by (auto simp: raft_ok_defs)
  qed
  then show ?thesis using assms False by (auto simp: onLogStable_def Let_def quiet_step_def)
qed

lemma ae_begin_frame:
  assumes "raft_ok r" "ae_begin now req r = Inr (r', out)"
  shows "raft_ok r' \<and> m_lastApplied r' = m_lastApplied r \<and> applyChan r' = applyChan r
    \<and> m_commitIndex r' = m_commitIndex r"
proof -
  have "applyChan (ae_accept now req r) = applyChan r" by (simp add: ae_accept_def)
  moreover have "log_ok r" using assms(1) by (simp add: raft_ok_def)
  then have "r' = r \<or> r' = ae_accept now req r \<or> r' = persistState (ae_accept now req r)"
    using assms(2) by (cases rule: ae_begin_cases) simp_all
  ultimately show ?thesis using assms(1) by (elim disjE) simp_all
qed

lemma ae_finish_frame:
  assumes "raft_ok r" "ae_finish req ps stab r = Inr (r', rep)"
  shows "raft_ok r' \<and> m_lastApplied r' = m_lastApplied r \<and> applyChan r' = applyChan r
    \<and> m_commitIndex r \<le> m_commitIndex r'"
  using assms(1)
proof (cases rule: ae_finish_cases [where req = req and ps = ps and stab = stab])
  case accepted
  have "applyChan (ae_commit req ps r) = applyChan r" by (simp add: ae_commit_def Let_def)
  then show ?thesis using accepted(7) assms(2) ae_commit_ok [OF assms(1) accepted(6), of req] by auto
qed (use assms in auto)

lemma handleAppendEntries_frame:
  assumes "raft_ok r" "handleAppendEntries server args reply k ok r = Inr (r', k')"
  shows "raft_ok r' \<and> m_lastApplied r' = m_lastApplied r \<and> applyChan r' = applyChan r
    \<and> m_commitIndex r \<le> m_commitIndex r'"
  using assms
proof (cases rule: handleAppendEntries_cases)
  case (accepted c m)
  have "raft_ok r'"
    using accepted(10-12) by (intro raft_ok_raise_commit [OF assms(1)]) simp_all
  then show ?thesis using accepted(10-12) by simp
next
  case newer
  then show ?thesis using raft_ok_cong(1) [OF _ _ _ _ _ _ _ assms(1), of r'] by simp
next
  case refused
  then show ?thesis using raft_ok_cong(1) [OF _ _ _ _ _ _ _ assms(1), of r'] by simp
qed (use assms in simp)

section \<open>The steps of one node and the channel to its server\<close>

text \<open>
  The steps that touch a node's log, its marks or the channel, each under the mutex, in any order
  and with any arguments. The two sections of \<open>AppendEntries\<close> are separate steps, since other
  threads run while it waits. The server asks for a snapshot only at an index it has received.
\<close>

inductive node_step :: "raft \<Rightarrow> raft \<Rightarrow> bool" where
  apply_turn: "applierTicker r = Inr r' \<Longrightarrow> node_step r r'"
| install: "InstallSnapshot now args r = Inr (r', rep) \<Longrightarrow> node_step r r'"
| compact: "index \<le> m_lastApplied r \<Longrightarrow> Snapshot index data r = Inr r' \<Longrightarrow> node_step r r'"
| start: "Start cmd r = (r', srep) \<Longrightarrow> node_step r r'"
| stable_mark: "r' = onLogStable ok i r \<Longrightarrow> node_step r r'"
| append_begin: "ae_begin now req r = Inr (r', out) \<Longrightarrow> node_step r r'"
| append_finish: "ae_finish req ps stab r = Inr (r', arep) \<Longrightarrow> node_step r r'"
| append_answer: "handleAppendEntries server req arep k ok r = Inr (r', k') \<Longrightarrow> node_step r r'"

text \<open>
  What a consumer that has applied everything up to an index makes of the messages of the
  channel: a command must be the next one, a snapshot moves it up to the snapshot's index unless it is
  there already. \<open>None\<close> is a gap or a repetition.
\<close>

fun deliver :: "ApplyMsg list \<Rightarrow> int \<Rightarrow> int option" where
  "deliver [] i = Some i"
| "deliver (m # ms) i =
     (if SnapshotValid m then deliver ms (max i (SnapshotIndex m))
      else if CommandValid m \<and> CommandIndex m = i + 1 then deliver ms (i + 1) else None)"

lemma deliver_append:
  "deliver (xs @ ys) i = (case deliver xs i of None \<Rightarrow> None | Some j \<Rightarrow> deliver ys j)"
  by (induction xs arbitrary: i) auto

lemma message_simps [simp]:
  "CommandValid (command_message c i)" "\<not> SnapshotValid (command_message c i)"
  "CommandIndex (command_message c i) = i" "Command (command_message c i) = c"
  "SnapshotValid (install_message args)"
  "SnapshotIndex (install_message args) = is_lastsnapshotincludeindex args"
  by (simp_all add: command_message_def install_message_def new_ApplyMsg_def)

lemma deliver_commands: "a \<le> b \<Longrightarrow> deliver (commands_between r a b) a = Some b"
proof (induction "nat (b - a)" arbitrary: a)
  case (Suc n)
  then have "[a + 1..b] = (a + 1) # [a + 2..b]" by (simp add: upto_rec1 add.assoc)
  moreover have "deliver (commands_between r (a + 1) b) (a + 1) = Some b"
    using Suc by (intro Suc.hyps(1)) auto
  ultimately show ?case by (simp add: commands_between_def add.assoc)
qed (simp add: commands_between_def)

lemma node_step_ok:
  assumes "node_step r r'" "raft_ok r"
  shows "raft_ok r' \<and> m_commitIndex r \<le> m_commitIndex r' \<and> m_lastApplied r \<le> m_lastApplied r'
    \<and> (deliver (m_queue (applyChan r)) i = Some (m_lastApplied r) \<longrightarrow>
       deliver (m_queue (applyChan r')) i = Some (m_lastApplied r'))"
  using assms
proof (cases rule: node_step.cases)
  case apply_turn
  then show ?thesis
    using applierTicker_ok [OF assms(2)] assms(2) deliver_commands [of "m_lastApplied r" "m_commitIndex r" r]
    by (auto simp: deliver_append raft_ok_defs)
next
  case (install now args rep)
  from assms(2) install show ?thesis
    by (cases rule: InstallSnapshot_cases) (auto simp: deliver_append assms(2))
next
  case (compact index data)
  show ?thesis
  proof (cases "index \<le> m_lastSnapshotIndex r \<or> m_commitIndex r < index")
    case True
    then show ?thesis using compact Snapshot_refused [of index r data] assms(2) by simp
  next
    case False
    then have lt: "m_lastSnapshotIndex r < index" "index \<le> m_commitIndex r" by simp_all
    show ?thesis
      by (rule Snapshot_cut [OF assms(2) lt, of data]) (use compact in auto)
  qed
next
  case start
  then show ?thesis using Start_frame [OF assms(2)] by auto
next
  case stable_mark
  then show ?thesis using onLogStable_frame [OF assms(2)] by auto
next
  case append_begin
  then show ?thesis using ae_begin_frame [OF assms(2)] by auto
next
  case append_finish
  then show ?thesis using ae_finish_frame [OF assms(2)] by auto
next
  case append_answer
  then show ?thesis using handleAppendEntries_frame [OF assms(2)] by auto
qed

lemma node_steps_ok:
  assumes "node_step\<^sup>*\<^sup>* r r'" "raft_ok r"
  shows "raft_ok r' \<and> m_commitIndex r \<le> m_commitIndex r' \<and> m_lastApplied r \<le> m_lastApplied r'
    \<and> (deliver (m_queue (applyChan r)) i = Some (m_lastApplied r) \<longrightarrow>
       deliver (m_queue (applyChan r')) i = Some (m_lastApplied r'))"
  using assms
proof (induction rule: rtranclp_induct)
  case (step s t)
  then show ?case using node_step_ok [of s t i] by auto
qed simp

lemma last_take_index:
  "raft_ok r \<Longrightarrow> m_commitIndex r < i \<Longrightarrow> i \<le> getLastLogIndex r \<Longrightarrow>
   onLogStable False i r = r\<lparr>m_logs := take (nat (i - m_lastSnapshotIndex r - 1)) (m_logs r)\<rparr>"
  using logindex_log_ok [of r i]
  by (auto simp: onLogStable_def raft_ok_defs last_index_contiguous)

lemma Start_leader:
  "m_state r = leader \<Longrightarrow> Start cmd r =
     (let e = \<lparr>command = cmd, logterm = m_currentTerm r, logindex = getLastLogIndex r + 1\<rparr> in
      (persistState (r\<lparr>m_logs := m_logs r @ [e]\<rparr>),
       \<lparr>st_index = getLastLogIndex r + 1, st_term = m_currentTerm r, st_isLeader = True,
        st_appended = Some e\<rparr>))"
  by (simp add: Start_def Let_def)

text \<open>A leader that accepts a list of commands one after the other.\<close>

definition start_all :: "string list \<Rightarrow> raft \<Rightarrow> raft" where
  "start_all cmds r = fold (\<lambda>c s. fst (Start c s)) cmds r"

lemma start_all_log:
  assumes "raft_ok r" "m_state r = leader"
  shows "raft_ok (start_all cmds r) \<and> m_state (start_all cmds r) = leader
    \<and> m_commitIndex (start_all cmds r) = m_commitIndex r
    \<and> m_lastSnapshotIndex (start_all cmds r) = m_lastSnapshotIndex r
    \<and> m_stableLogIndex (start_all cmds r) = m_stableLogIndex r
    \<and> getLastLogIndex (start_all cmds r) = getLastLogIndex r + int (length cmds)
    \<and> (\<exists>es. m_logs (start_all cmds r) = m_logs r @ es \<and> map command es = cmds
         \<and> (\<forall>e \<in> set es. logterm e = m_currentTerm r))"
  using assms
proof (induction cmds arbitrary: r)
  case (Cons c cs)
  obtain s rep where s: "Start c r = (s, rep)" by (cases "Start c r")
  have frame: "raft_ok s" "m_commitIndex s = m_commitIndex r" "getLastLogIndex s = getLastLogIndex r + 1"
    using Start_frame [OF Cons.prems(1) s] Cons.prems(2) by auto
  obtain e where e: "m_logs s = m_logs r @ [e]" "command e = c" "logterm e = m_currentTerm r"
    "m_currentTerm s = m_currentTerm r" "m_state s = leader"
    "m_lastSnapshotIndex s = m_lastSnapshotIndex r" "m_stableLogIndex s = m_stableLogIndex r"
    using s Cons.prems(2) by (auto simp: Start_def Let_def)
  from Cons.IH [OF frame(1) e(5)] obtain es where
    es: "m_logs (start_all cs s) = m_logs s @ es" "map command es = cs" "\<forall>e \<in> set es. logterm e = m_currentTerm s"
    by blast
  then have "m_logs (start_all cs s) = m_logs r @ (e # es) \<and> map command (e # es) = c # cs
      \<and> (\<forall>x \<in> set (e # es). logterm x = m_currentTerm r)"
    using e by simp
  moreover have "start_all (c # cs) r = start_all cs s" by (simp add: start_all_def s)
  ultimately show ?case
    using Cons.IH [OF frame(1) e(5)] frame e by (metis add.assoc add.commute of_nat_Suc length_Cons)
qed (simp add: start_all_def)

section \<open>Properties\<close>

text \<open>A leader that accepts commands appends them in order, with its term, at the indices it
  returns, and commits nothing by that. If the persister then reports that the first of them could
  not be written, exactly these entries are taken back: the log is what it was before.\<close>

lemma Start_failed_write:
  "raft_ok r \<Longrightarrow> m_state r = leader \<Longrightarrow> cmds \<noteq> [] \<Longrightarrow>
   (\<exists>es. m_logs (start_all cmds r) = m_logs r @ es \<and> map command es = cmds
      \<and> (\<forall>e \<in> set es. logterm e = m_currentTerm r))
   \<and> (\<forall>k < length cmds. logindex (entry_at (start_all cmds r) (st_index (snd (Start (hd cmds) r)) + int k))
        = getLastLogIndex r + 1 + int k)
   \<and> raft_ok (start_all cmds r)
   \<and> m_logs (onLogStable False (st_index (snd (Start (hd cmds) r))) (start_all cmds r)) = m_logs r
   \<and> raft_ok (onLogStable False (st_index (snd (Start (hd cmds) r))) (start_all cmds r))"
proof -
  assume ok: "raft_ok r" and lead: "m_state r = leader" and ne: "cmds \<noteq> []"
  let ?s = "start_all cmds r" and ?i = "getLastLogIndex r + 1"
  note all = start_all_log [OF ok lead, of cmds]
  have i: "st_index (snd (Start (hd cmds) r)) = ?i" using lead by (simp add: Start_leader Let_def)
  have range: "m_commitIndex ?s < ?i" "?i \<le> getLastLogIndex ?s"
    using all ok ne by (auto simp: raft_ok_defs Suc_le_eq)
  have len: "nat (?i - m_lastSnapshotIndex r - 1) = length (m_logs r)"
    using ok by (simp add: raft_ok_def last_index_contiguous)
  have "m_logs (onLogStable False ?i ?s) = m_logs r"
    using last_take_index [of ?s ?i] range all len by auto
  moreover have "logindex (entry_at ?s (?i + int k)) = ?i + int k" if "k < length cmds" for k
    using logindex_log_ok [of ?s "?i + int k"] all that ok
    by (auto simp: raft_ok_defs entry_at_def)
  ultimately show ?thesis
    unfolding i using all onLogStable_frame [of ?s False ?i] by blast
qed

theorem Start_failed_write_witness:
  "m_logs (onLogStable False 3 (start_all [''x'', ''y''] sample_leader)) = m_logs sample_leader"
proof -
  have "m_state sample_leader = leader" "st_index (snd (Start ''x'' sample_leader)) = 3"
    by (simp_all add: sample_leader_def fresh_node_eq Start_def Let_def getLastLogIndex_def
        getLastLogIndexandTerm_def)
  then show ?thesis
    using Start_failed_write [OF sample_leader_ok, of "[''x'', ''y'']"] by simp
qed

text \<open>The stable mark can pass the end of the log. If the write of the first of two commands
  fails and that of the second succeeds, both entries are taken back but the mark is set to the
  second; the next command the leader accepts counts as stable although nothing has written it.\<close>

lemma stable_mark_past_log:
  "raft_ok r \<Longrightarrow> m_state r = leader \<Longrightarrow> i = getLastLogIndex r + 1 \<Longrightarrow>
   r' = onLogStable True (i + 1) (onLogStable False i (start_all [a, b] r)) \<Longrightarrow>
   getLastLogIndex r' = i - 1 \<and> i + 1 \<le> m_stableLogIndex r'
   \<and> st_index (snd (Start c r')) = i
   \<and> i \<le> min (getLastLogIndex (fst (Start c r'))) (m_stableLogIndex (fst (Start c r')))"
proof -
  assume ok: "raft_ok r" and lead: "m_state r = leader" and i: "i = getLastLogIndex r + 1"
    and r': "r' = onLogStable True (i + 1) (onLogStable False i (start_all [a, b] r))"
  let ?s = "start_all [a, b] r" and ?t = "onLogStable False i (start_all [a, b] r)"
  note all = start_all_log [OF ok lead, of "[a, b]"]
  have t: "?t = ?s\<lparr>m_logs := m_logs r\<rparr>"
  proof -
    have "m_commitIndex ?s < i" "i \<le> getLastLogIndex ?s" using all ok i by (auto simp: raft_ok_defs)
    moreover have "nat (i - m_lastSnapshotIndex r - 1) = length (m_logs r)"
      using ok i by (simp add: raft_ok_def last_index_contiguous)
    ultimately show ?thesis using last_take_index [of ?s i] all by auto
  qed
  have okt: "raft_ok ?t" using onLogStable_frame [of ?s False i] all by simp
  then have last: "getLastLogIndex ?t = i - 1"
    using ok all i t by (simp add: raft_ok_def last_index_contiguous)
  have okr: "raft_ok r'" unfolding r' using onLogStable_frame [OF okt, of True "i + 1"] by simp
  have logs: "m_logs r' = m_logs ?t" "m_lastSnapshotIndex r' = m_lastSnapshotIndex ?t" "m_state r' = m_state ?t"
    "i + 1 \<le> m_stableLogIndex r'"
    unfolding r' onLogStable_def [of True] Let_def by simp_all
  have lastr: "getLastLogIndex r' = i - 1"
    using okr okt last logs by (simp add: raft_ok_def last_index_contiguous)
  have lead': "m_state r' = leader" using logs(3) all by (simp add: t)
  obtain s rep where s: "Start c r' = (s, rep)" by (cases "Start c r'")
  have "getLastLogIndex s = i" using Start_frame [OF okr s] lead' lastr by simp
  moreover have "m_stableLogIndex s = m_stableLogIndex r'" "st_index rep = i"
    using s lead' lastr by (auto simp: Start_leader Let_def)
  ultimately show ?thesis using lastr logs(4) s by simp
qed

theorem stable_mark_past_log_witness:
  "m_stableLogIndex (onLogStable True 4 (onLogStable False 3 (start_all [''x'', ''y''] sample_leader))) \<ge> 4"
proof -
  have "m_state sample_leader = leader" "3 = getLastLogIndex sample_leader + 1"
    by (simp_all add: sample_leader_def fresh_node_eq getLastLogIndex_def getLastLogIndexandTerm_def)
  from stable_mark_past_log [OF sample_leader_ok this refl, of "''x''" "''y''"] show ?thesis by simp
qed

text \<open>C17: A turn of the apply thread on a well-formed node never reads outside the log; it pushes the
  commands of the entries after the applied index up to the commit index, each once and in order,
  and sets the applied index to the commit index.\<close>

theorem applierTicker_spec:
  "raft_ok r \<Longrightarrow> \<exists>r'. applierTicker r = Inr r' \<and> raft_ok r'
     \<and> m_lastApplied r' = m_commitIndex r \<and> m_logs r' = m_logs r
     \<and> m_queue (applyChan r') = m_queue (applyChan r)
         @ map (\<lambda>i. command_message (command (entry_at r i)) i) [m_lastApplied r + 1..m_commitIndex r]"
  using applierTicker_ok [of r] by (auto simp: commands_between_def)

theorem applierTicker_spec_witness:
  "\<exists>r'. applierTicker sample_follower = Inr r' \<and> m_lastApplied r' = 2
     \<and> m_queue (applyChan r') = [command_message ''b'' 2]"
proof -
  have "m_lastApplied sample_follower = 1" "m_commitIndex sample_follower = 2"
    "m_queue (applyChan sample_follower) = []" "command (entry_at sample_follower 2) = ''b''"
    by (simp_all add: sample_follower_def fresh_node_eq entry_at_def)
  then show ?thesis
    using applierTicker_spec [OF sample_follower_ok] by (auto simp: upto_rec1)
qed



text \<open>The two implementations of the step agree: on a well-formed node \<open>getApplyLogs\<close>, which
  advances the applied index entry by entry and asserts the index of each, never fails an assertion
  and returns the messages and the state of the part of \<open>applierTicker\<close> under the mutex.\<close>

lemma getApplyLogs_equiv:
  "raft_ok r \<Longrightarrow> getApplyLogs r =
     (case applier_take r of Inl f \<Rightarrow> Inl f | Inr None \<Rightarrow> Inr (r, []) | Inr (Some p) \<Rightarrow> Inr p)"
proof -
  assume "raft_ok r"
  then have ok: "log_ok r" "m_lastSnapshotIndex r \<le> m_lastApplied r" "m_lastApplied r \<le> m_commitIndex r"
    "m_commitIndex r \<le> getLastLogIndex r" by (auto simp: raft_ok_defs)
  then have "r\<lparr>m_lastApplied := m_commitIndex r\<rparr> = r" if "\<not> m_lastApplied r < m_commitIndex r"
    using that by simp
  moreover have "commands_between r (m_lastApplied r) (m_commitIndex r) = []"
    if "\<not> m_lastApplied r < m_commitIndex r"
    using that by (simp add: commands_between_def)
  ultimately show ?thesis
    using apply_loop_ok [OF ok] copyLogs_ok [OF ok(1), of "m_lastApplied r + 1" "m_commitIndex r"] ok
    by (simp add: getApplyLogs_def applier_take_def Let_def)
qed

theorem getApplyLogs_equiv_witness:
  "getApplyLogs sample_follower =
     Inr (sample_follower\<lparr>m_lastApplied := 2\<rparr>, [command_message ''b'' 2])"
proof -
  have "applier_take sample_follower = Inr (Some (sample_follower\<lparr>m_lastApplied := 2\<rparr>, [command_message ''b'' 2]))"
    by (simp add: applier_take_def sample_follower_def fresh_node_eq copyLogs.simps vec_at_def)
  with getApplyLogs_equiv [OF sample_follower_ok] show ?thesis by simp
qed

end
