(* ===== verification/Raft_Durable.thy ===== *)
theory Raft_Durable
  imports Raft_Apply
begin

text \<open>
  What every handler of a node does to its term and vote, in memory and in the mapped state file.
  A handler may leave the file behind the memory, which \<open>handleAppendEntries\<close> and the first
  section of \<open>AppendEntries\<close> do, but what it writes is never older than what it found in memory.
\<close>

section \<open>The file and the memory\<close>

abbreviation disk_term :: "raft \<Rightarrow> int" where "disk_term r \<equiv> of_u32 (ni_term (fmp r))"
abbreviation disk_vote :: "raft \<Rightarrow> int" where "disk_vote r \<equiv> of_u32 (ni_votedFor (fmp r))"

text \<open>The term and the vote are within the range of the source's \<open>int\<close>.\<close>

definition ints_fit :: "raft \<Rightarrow> bool" where
  "ints_fit r \<longleftrightarrow> int32_range (m_currentTerm r) \<and> int32_range (m_voteForId r)"

definition disk_step :: "raft \<Rightarrow> raft \<Rightarrow> bool" where
  "disk_step r r' \<longleftrightarrow> (disk_term r' = disk_term r \<and> disk_vote r' = disk_vote r)
     \<or> (m_currentTerm r \<le> disk_term r'
       \<and> (disk_term r' = m_currentTerm r \<longrightarrow> m_voteForId r = -1 \<or> disk_vote r' = m_voteForId r))"

lemma fmp_persistState [simp]:
  "ni_term (fmp (persistState r)) = to_u32 (m_currentTerm r)"
  "ni_votedFor (fmp (persistState r)) = to_u32 (m_voteForId r)"
  by (simp_all add: persistState_def)

lemma disk_same [intro]: "fmp r' = fmp r \<Longrightarrow> disk_step r r'"
  by (simp add: disk_step_def)

lemma disk_trans: "disk_step r s \<Longrightarrow> quiet_step r s \<Longrightarrow> disk_step s t \<Longrightarrow> disk_step r t"
  by (fastforce simp: disk_step_def quiet_step_def)

lemma disk_persist: "quiet_step r s \<Longrightarrow> ints_fit s \<Longrightarrow> disk_step r (persistState s)"
  by (auto simp: disk_step_def quiet_step_def ints_fit_def)

text \<open>Handlers that keep the term and the vote and leave the file alone or write it once.\<close>

definition votes_kept :: "raft \<Rightarrow> raft \<Rightarrow> bool" where
  "votes_kept r r' \<longleftrightarrow> m_id r' = m_id r \<and> m_peers_size r' = m_peers_size r \<and> m_currentTerm r' = m_currentTerm r
     \<and> m_voteForId r' = m_voteForId r \<and> m_state r' = m_state r
     \<and> (ni_term (fmp r') = ni_term (fmp r) \<and> ni_votedFor (fmp r') = ni_votedFor (fmp r)
        \<or> ni_term (fmp r') = to_u32 (m_currentTerm r) \<and> ni_votedFor (fmp r') = to_u32 (m_voteForId r))"

lemma votes_kept_safe: "votes_kept r r' \<Longrightarrow> ints_fit r' \<Longrightarrow> quiet_step r r' \<and> disk_step r r'"
  by (auto simp: votes_kept_def quiet_step_def disk_step_def ints_fit_def persistState_def)

lemma votes_kept_refl [simp]: "votes_kept r r"
  by (simp add: votes_kept_def)

section \<open>Every handler\<close>

lemma applier_push_kept: "votes_kept r (applier_push logs r)"
proof -
  have "m_id (applier_push logs r) = m_id r \<and> m_peers_size (applier_push logs r) = m_peers_size r
    \<and> m_currentTerm (applier_push logs r) = m_currentTerm r \<and> m_voteForId (applier_push logs r) = m_voteForId r
    \<and> m_state (applier_push logs r) = m_state r \<and> fmp (applier_push logs r) = fmp r"
    unfolding applier_push_def by (induction logs arbitrary: r) (simp_all add: pushMsgToKvServer_def)
  then show ?thesis by (simp add: votes_kept_def)
qed

lemma votes_kept_applied [simp]: "votes_kept (r\<lparr>m_lastApplied := i\<rparr>) = votes_kept r"
  by (simp add: votes_kept_def fun_eq_iff)

lemma applierTicker_kept: "applierTicker r = Inr r' \<Longrightarrow> votes_kept r r'"
  using applier_push_kept [of "r\<lparr>m_lastApplied := m_commitIndex r\<rparr>"]
  by (auto simp: applierTicker_def applier_take_def rbind_eq_Inr Let_def split: if_splits)

lemma Snapshot_kept: "Snapshot index data r = Inr r' \<Longrightarrow> votes_kept r r'"
  by (auto simp: Snapshot_def Let_def rbind_eq_Inr votes_kept_def split: if_splits)

lemma Start_kept: "Start cmd r = (r', rep) \<Longrightarrow> votes_kept r r'"
  by (auto simp: Start_def Let_def votes_kept_def split: if_splits)

lemma onLogStable_kept: "votes_kept r (onLogStable ok i r)"
  by (simp add: onLogStable_def Let_def votes_kept_def)

lemma ae_finish_kept: "ae_finish req ps stab r = Inr (r', rep) \<Longrightarrow> votes_kept r r'"
  by (auto simp: ae_finish_def ae_commit_def Let_def rbind_eq_Inr votes_kept_def split: if_splits option.splits)

lemma install_snapshot_kept: "install_snapshot args r = Inr r' \<Longrightarrow> votes_kept r r'"
  by (auto simp: install_snapshot_def pushMsgToKvServer_def Let_def rbind_eq_Inr votes_kept_def)

lemma advance_loop_kept: "advance_loop r i = Inr r' \<Longrightarrow> votes_kept r r'"
  by (induction r i rule: advance_loop.induct)
     (subst (asm) (2) advance_loop.simps, auto simp: votes_kept_def split: if_splits sum.splits)

lemma hb_loop_kept: "hb_loop r ps = Inr (r', ms) \<Longrightarrow> votes_kept r r'"
proof (induction ps arbitrary: r ms)
  case (Cons i ps)
  show ?case
  proof (cases "i = m_id r")
    case False
    then obtain s m ms' where "hb_peer r i = Inr (s, m)" "hb_loop s ps = Inr (r', ms')"
      using Cons.prems by (auto simp: rbind_eq_Inr)
    moreover from this(1) have "votes_kept r s"
      by (auto simp: hb_peer_def rbind_eq_Inr Let_def votes_kept_def split: if_splits)
    ultimately show ?thesis using Cons.IH [of s ms'] by (auto simp: votes_kept_def)
  qed (use Cons in auto)
qed simp

lemma leaderHeartBeat_kept: "leaderHeartBeat now r = Inr (r', ms) \<Longrightarrow> votes_kept r r'"
  using hb_loop_kept [of "r\<lparr>m_replicatePending := False\<rparr>"]
  by (fastforce simp: leaderHeartBeat_def doHeartBeat_def rbind_eq_Inr Let_def votes_kept_def split: if_splits)

text \<open>The handlers that can move the node to a newer term.\<close>

lemma ae_begin_safe_step:
  assumes "ae_begin now req r = Inr (r', out)" "ints_fit r'"
  shows "quiet_step r r' \<and> disk_step r r'"
proof -
  let ?a = "ae_accept now req r"
  have "r' = r \<or> r' = ?a \<or> r' = persistState ?a"
    using assms(1) by (auto simp: ae_begin_def rbind_eq_Inr Let_def split: if_splits)
  moreover have "fmp ?a = fmp r" by (simp add: ae_accept_def)
  moreover have "quiet_step r r'" using quiet_ae_begin [OF assms(1)] .
  ultimately show ?thesis using assms(2) disk_persist [of r ?a] by (auto simp: ints_fit_def)
qed

lemma handleAppendEntries_safe_step:
  assumes "handleAppendEntries server args reply k ok r = Inr (r', k')" "ints_fit r'"
  shows "quiet_step r r' \<and> disk_step r r'"
proof (cases "r' = r\<lparr>m_currentTerm := aer_term reply, m_state := follower, m_voteForId := -1\<rparr>
    \<and> m_currentTerm r < aer_term reply")
  case False
  then have "votes_kept r r'"
    using assms(1) advance_loop_kept
    by (fastforce simp: handleAppendEntries_def advanceCommitIndex_def rbind_eq_Inr Let_def votes_kept_def
        split: if_splits)
  then show ?thesis using assms(2) by (rule votes_kept_safe)
qed (auto simp: quiet_step_def)

lemma InstallSnapshot_safe_step:
  assumes "InstallSnapshot now args r = Inr (r', rep)" "ints_fit r'"
  shows "quiet_step r r' \<and> disk_step r r'"
proof (cases "is_term args < m_currentTerm r")
  case False
  then obtain s where s: "install_begin now args r = Inr s"
    and t: "r' = s \<or> install_snapshot args s = Inr r'"
    using assms(1) by (auto simp: InstallSnapshot_def rbind_eq_Inr split: if_splits)
  have kept: "votes_kept s r'" using t install_snapshot_kept by auto
  then have "ints_fit s" using assms(2) by (simp add: ints_fit_def votes_kept_def)
  then have "quiet_step r s \<and> disk_step r s"
    using s False
    by (cases "m_currentTerm r < is_term args")
       (auto simp: install_begin_def rbind_eq_Inr quiet_step_def disk_step_def ints_fit_def)
  then show ?thesis
    using votes_kept_safe [OF kept assms(2)] disk_trans quiet_trans by blast
qed (use assms in \<open>auto simp: InstallSnapshot_def\<close>)

lemma snapshot_answer_safe_step:
  assumes "leaderSendSnapShotHandler now ok args reply i r = Inr (r', b)" "ints_fit r'"
  shows "quiet_step r r' \<and> disk_step r r'"
  using quiet_leaderSendSnapShotHandler [OF assms(1)] assms
  by (auto simp: leaderSendSnapShotHandler_def rbind_eq_Inr disk_step_def ints_fit_def split: if_splits)

text \<open>All handlers but those of an election.\<close>

inductive handler_step :: "raft \<Rightarrow> raft \<Rightarrow> bool" where
  log_handler: "node_step r r' \<Longrightarrow> handler_step r r'"
| snapshot_answer: "leaderSendSnapShotHandler now ok args reply i r = Inr (r', b) \<Longrightarrow> handler_step r r'"
| heartbeat: "leaderHeartBeat now r = Inr (r', msgs) \<Longrightarrow> handler_step r r'"

lemma node_step_safe:
  assumes "node_step r r'" "ints_fit r'"
  shows "quiet_step r r' \<and> disk_step r r'"
  using assms(1)
proof (cases rule: node_step.cases)
  case install
  with assms(2) show ?thesis by (auto dest: InstallSnapshot_safe_step)
next
  case append_begin
  with assms(2) show ?thesis by (auto dest: ae_begin_safe_step)
next
  case append_answer
  with assms(2) show ?thesis by (auto dest: handleAppendEntries_safe_step)
qed (use assms(2) in \<open>auto intro!: votes_kept_safe
  intro: applierTicker_kept Snapshot_kept Start_kept onLogStable_kept ae_finish_kept\<close>)

lemma handler_step_safe:
  assumes "handler_step r r'" "ints_fit r'"
  shows "quiet_step r r' \<and> disk_step r r'"
  using assms(1)
proof (cases rule: handler_step.cases)
  case heartbeat
  then show ?thesis by (intro votes_kept_safe leaderHeartBeat_kept assms(2))
qed (use assms(2) in \<open>auto dest: node_step_safe snapshot_answer_safe_step\<close>)

section \<open>The handlers of an election\<close>

lemma vote_durable_persist: "ints_fit r \<Longrightarrow> vote_durable (persistState r)"
  by (simp add: vote_durable_def ints_fit_def)

lemma doElection_disk:
  "doElection now r = (r', es) \<Longrightarrow> m_state r \<noteq> leader \<Longrightarrow> ints_fit r' \<Longrightarrow> vote_durable r'"
  by (auto simp: doElection_def doElection_locked_def Let_def vote_durable_def ints_fit_def)

lemma RequestVote_disk:
  assumes "RequestVote now req r = Inr (r', rep)" "ints_fit r"
    "int32_range (rv_term req)" "int32_range (rv_candidateid req)"
  shows "ints_fit r'" "disk_step r r'" "rvr_votegranted rep \<Longrightarrow> vote_durable r'"
  using assms
  by (auto simp: RequestVote_def Let_def ints_fit_def disk_step_def vote_durable_def int32_range_def
      split: if_splits)

lemma handleRequestVoteResponse_disk:
  assumes "handleRequestVoteResponse args reply v ok r = Inr (r', v')" "ints_fit r" "int32_range (rvr_term reply)"
  shows "ints_fit r' \<and> disk_step r r'"
  using assms
  by (cases rule: handleRequestVoteResponse_cases)
     (auto simp: ints_fit_def disk_step_def int32_range_def)

section \<open>Restart\<close>

text \<open>
  A restart takes the term and the vote from the file, whatever log and snapshot are recovered
  beside them.
\<close>

lemma restart_simps:
  assumes "r' = raft_init now (m_id r) (m_peers_size r) (fmp r) logs snap ch"
  shows "m_id r' = m_id r" "m_peers_size r' = m_peers_size r" "m_state r' = follower"
    "m_currentTerm r' = disk_term r" "m_voteForId r' = disk_vote r" "fmp r' = fmp r" "ints_fit r'"
  by (simp_all add: assms raft_init_def Let_def ints_fit_def)

end
