(* ===== verification/Raft_Cluster.thy ===== *)
theory Raft_Cluster
  imports Raft_Durable
begin

text \<open>
  Elections in a cluster: the handlers of the nodes as a step relation on the states of all
  nodes and the vote calls between them, with the messages delivered late, in any order or
  never, and the nodes stopping and restarting between any two steps. A call is keyed by candidate, peer and term: \<open>doElection\<close> makes one call per peer and term,
  and the channel runs the callback of a call at most once.
\<close>

section \<open>Quorums\<close>

locale quorum_system =
  fixes quorum :: "'a set \<Rightarrow> bool"
  assumes quorum_meet: "quorum A \<Longrightarrow> quorum B \<Longrightarrow> A \<inter> B \<noteq> {}"
begin

lemma unique_winner:
  assumes "\<And>p x y. R p x \<Longrightarrow> R p y \<Longrightarrow> x = y"
    and "quorum A" "\<forall>p \<in> A. R p x" "quorum B" "\<forall>p \<in> B. R p y"
  shows "x = y"
proof -
  obtain p where "p \<in> A" "p \<in> B" using quorum_meet [OF assms(2,4)] by blast
  then show ?thesis using assms(1,3,5) by blast
qed

end

text \<open>The test of \<open>handleRequestVoteResponse\<close>: at least \<open>n / 2 + 1\<close> of the \<open>n\<close> peers.\<close>

definition is_majority :: "nat \<Rightarrow> int set \<Rightarrow> bool" where
  "is_majority n Q \<longleftrightarrow> Q \<subseteq> {0..<int n} \<and> n div 2 + 1 \<le> card Q"

interpretation maj: quorum_system "is_majority n" for n
proof
  fix A B assume A: "is_majority n A" and B: "is_majority n B"
  then have fin: "finite A" "finite B" by (auto simp: is_majority_def intro: finite_subset)
  show "A \<inter> B \<noteq> {}"
  proof
    assume "A \<inter> B = {}"
    then have "card (A \<union> B) = card A + card B" using fin by (intro card_Un_disjoint)
    moreover have "card (A \<union> B) \<le> card {0..<int n}"
      using A B by (intro card_mono) (auto simp: is_majority_def)
    ultimately have "card A + card B \<le> n" by simp
    moreover have "n div 2 + 1 \<le> card A" "n div 2 + 1 \<le> card B"
      using A B by (simp_all add: is_majority_def)
    ultimately show False by linarith
  qed
qed

section \<open>The cluster\<close>

datatype vote_call =
    Idle
  | Requested RequestVoteArgs
  | Replied RequestVoteArgs RequestVoteReply
  | Counted
  | Dropped

text \<open>
  \<open>votedNum\<close> is the counter the callbacks of one election share. \<open>ballots\<close> records every vote
  a node has recorded, as voter, term and candidate; no step reads it.
\<close>

record cluster =
  node :: "int \<Rightarrow> raft"
  calls :: "int \<times> int \<times> int \<Rightarrow> vote_call"
  votedNum :: "int \<times> int \<Rightarrow> int"
  ballots :: "(int \<times> int \<times> int) set"

definition start_cluster :: "nat \<Rightarrow> cluster" where
  "start_cluster n = \<lparr>node = (\<lambda>i. fresh_node i n), calls = (\<lambda>_. Idle), votedNum = (\<lambda>_. 0), ballots = {}\<rparr>"

definition send_votes :: "int \<Rightarrow> effect list \<Rightarrow> (int \<times> int \<times> int \<Rightarrow> vote_call) \<Rightarrow> int \<times> int \<times> int \<Rightarrow> vote_call" where
  "send_votes c es calls0 =
     fold (\<lambda>e cs. case e of Send_vote p a \<Rightarrow> cs((c, p, rv_term a) := Requested a) | Persist _ \<Rightarrow> cs) es calls0"

text \<open>
  An election and its write of the state file are one step. A node that stops forgets everything but
  its files; \<open>restart\<close> leaves the calls of the old process to \<open>lose\<close>, and also allows what a real run
  does not, that they are answered after all. The terms of a run stay within the source's \<open>int\<close>.
\<close>

inductive cluster_step :: "nat \<Rightarrow> cluster \<Rightarrow> cluster \<Rightarrow> bool" for n where
  elect: "0 \<le> i \<Longrightarrow> i < int n \<Longrightarrow> m_state (node C i) \<noteq> leader \<Longrightarrow>
    doElection now (node C i) = (r', es) \<Longrightarrow> ints_fit r' \<Longrightarrow>
    cluster_step n C (C\<lparr>node := (node C)(i := r'), calls := send_votes i es (calls C),
      votedNum := (votedNum C)((i, m_currentTerm r') := 1),
      ballots := insert (i, m_currentTerm r', m_voteForId r') (ballots C)\<rparr>)"
| request: "calls C (c, p, t) = Requested a \<Longrightarrow> RequestVote now a (node C p) = Inr (r', rep) \<Longrightarrow>
    cluster_step n C (C\<lparr>node := (node C)(p := r'), calls := (calls C)((c, p, t) := Replied a rep),
      ballots := (if rvr_votegranted rep then insert (p, m_currentTerm r', m_voteForId r') (ballots C)
                  else ballots C)\<rparr>)"
| answer: "calls C (c, p, t) = Replied a rep \<Longrightarrow>
    handleRequestVoteResponse a rep (votedNum C (c, t)) True (node C c) = Inr (r', v') \<Longrightarrow>
    cluster_step n C (C\<lparr>node := (node C)(c := r'), votedNum := (votedNum C)((c, t) := v'),
      calls := (calls C)((c, p, t) := (if v' = votedNum C (c, t) + 1 then Counted else Dropped))\<rparr>)"
| lose: "cluster_step n C (C\<lparr>calls := (calls C)((c, p, t) := Dropped)\<rparr>)" if "calls C (c, p, t) \<noteq> Idle" "calls C (c, p, t) \<noteq> Counted"
| other: "handler_step (node C i) r' \<Longrightarrow> ints_fit r' \<Longrightarrow> cluster_step n C (C\<lparr>node := (node C)(i := r')\<rparr>)"
| restart: "r' = raft_init now (m_id (node C i)) (m_peers_size (node C i)) (fmp (node C i)) logs snap ch \<Longrightarrow>
    cluster_step n C (C\<lparr>node := (node C)(i := r')\<rparr>)"

definition reachable :: "nat \<Rightarrow> cluster \<Rightarrow> bool" where
  "reachable n C \<longleftrightarrow> (cluster_step n)\<^sup>*\<^sup>* (start_cluster n) C"

section \<open>The invariant\<close>

definition nodes_ok :: "nat \<Rightarrow> cluster \<Rightarrow> bool" where
  "nodes_ok n C \<longleftrightarrow> (\<forall>i. m_id (node C i) = i \<and> m_peers_size (node C i) = n \<and> ints_fit (node C i))"

text \<open>
  A node's recorded votes are those of past terms and the current one, and the current one is in
  its state; and so they are for the term and the vote in its file, which may be behind.
\<close>

definition holds_vote :: "int \<Rightarrow> int \<Rightarrow> int \<Rightarrow> int \<Rightarrow> bool" where
  "holds_vote T v t c \<longleftrightarrow> t \<le> T \<and> (t = T \<longrightarrow> v = c)"

definition recorded :: "raft \<Rightarrow> int \<Rightarrow> int \<Rightarrow> bool" where
  "recorded r t c \<longleftrightarrow> holds_vote (m_currentTerm r) (m_voteForId r) t c \<and> holds_vote (disk_term r) (disk_vote r) t c"

definition ballots_ok :: "nat \<Rightarrow> cluster \<Rightarrow> bool" where
  "ballots_ok n C \<longleftrightarrow> (\<forall>(p, t, c) \<in> ballots C. 0 \<le> c \<and> c < int n \<and> int32_range t \<and> int32_range c
     \<and> recorded (node C p) t c)
   \<and> (\<forall>p t c c'. (p, t, c) \<in> ballots C \<and> (p, t, c') \<in> ballots C \<longrightarrow> c = c')"

text \<open>What a call says: it was made by a node of the cluster after a vote for itself, for a peer;
  a granted answer and a counted one stand for a recorded vote.\<close>

fun call_ok :: "nat \<Rightarrow> cluster \<Rightarrow> int \<times> int \<times> int \<Rightarrow> vote_call \<Rightarrow> bool" where
  "call_ok n C (c, p, t) Idle = True"
| "call_ok n C (c, p, t) call = (0 \<le> c \<and> c < int n \<and> 0 \<le> p \<and> p < int n \<and> p \<noteq> c
     \<and> (c, t, c) \<in> ballots C
     \<and> (case call of
          Requested a \<Rightarrow> rv_term a = t \<and> rv_candidateid a = c
        | Replied a rep \<Rightarrow> rv_term a = t \<and> rv_candidateid a = c \<and> int32_range (rvr_term rep)
            \<and> (rvr_votegranted rep \<longrightarrow> (p, t, c) \<in> ballots C)
        | Counted \<Rightarrow> (p, t, c) \<in> ballots C
        | _ \<Rightarrow> True))"

definition calls_ok :: "nat \<Rightarrow> cluster \<Rightarrow> bool" where
  "calls_ok n C \<longleftrightarrow> (\<forall>k. call_ok n C k (calls C k))"

definition counted :: "cluster \<Rightarrow> int \<Rightarrow> int \<Rightarrow> int set" where
  "counted C c t = {p. calls C (c, p, t) = Counted}"

definition counts_ok :: "cluster \<Rightarrow> bool" where
  "counts_ok C \<longleftrightarrow> (\<forall>c t. votedNum C (c, t) \<le> 1 + int (card (counted C c t)))"

definition leaders_ok :: "nat \<Rightarrow> cluster \<Rightarrow> bool" where
  "leaders_ok n C \<longleftrightarrow> (\<forall>c. m_state (node C c) = leader \<longrightarrow>
     (\<exists>p. calls C (c, p, m_currentTerm (node C c)) = Counted)
     \<and> (\<exists>Q. is_majority n Q \<and> (\<forall>p \<in> Q. (p, m_currentTerm (node C c), c) \<in> ballots C)))"

lemmas cluster_defs = nodes_ok_def ballots_ok_def calls_ok_def counts_ok_def leaders_ok_def

definition cluster_ok :: "nat \<Rightarrow> cluster \<Rightarrow> bool" where
  "cluster_ok n C \<longleftrightarrow> nodes_ok n C \<and> ballots_ok n C \<and> calls_ok n C \<and> counts_ok C \<and> leaders_ok n C"

lemma start_ok: "cluster_ok n (start_cluster n)"
  by (simp add: cluster_ok_def cluster_defs start_cluster_def fresh_node_eq ints_fit_def int32_range_def)

lemma call_ok_iff: "call_ok n C (c, p, t) call \<longleftrightarrow> call = Idle \<or> (0 \<le> c \<and> c < int n \<and> 0 \<le> p \<and> p < int n
     \<and> p \<noteq> c \<and> (c, t, c) \<in> ballots C
     \<and> (case call of
          Requested a \<Rightarrow> rv_term a = t \<and> rv_candidateid a = c
        | Replied a rep \<Rightarrow> rv_term a = t \<and> rv_candidateid a = c \<and> int32_range (rvr_term rep)
            \<and> (rvr_votegranted rep \<longrightarrow> (p, t, c) \<in> ballots C)
        | Counted \<Rightarrow> (p, t, c) \<in> ballots C
        | _ \<Rightarrow> True))"
  by (cases call) auto

lemma calls_okD: "calls_ok n C \<Longrightarrow> call_ok n C k (calls C k)"
  unfolding calls_ok_def by blast

lemma counted_subset: "calls_ok n C \<Longrightarrow> counted C c t \<subseteq> {0..<int n} - {c}"
proof
  fix p assume "calls_ok n C" "p \<in> counted C c t"
  then show "p \<in> {0..<int n} - {c}"
    using calls_okD [of n C "(c, p, t)"] by (simp add: counted_def)
qed

lemma finite_counted: "calls_ok n C \<Longrightarrow> finite (counted C c t)"
  by (rule finite_subset [OF counted_subset]) auto

lemma ballots_okD:
  assumes "ballots_ok n C" "(p, t, c) \<in> ballots C"
  shows "0 \<le> c" "c < int n" "int32_range t" "int32_range c" "recorded (node C p) t c"
  using assms by (auto simp: ballots_ok_def)

lemma recorded_step:
  assumes "recorded r t c" "0 \<le> c" "m_currentTerm r \<le> m_currentTerm r'" "disk_step r r'"
    and "m_currentTerm r' = m_currentTerm r \<longrightarrow> m_voteForId r = -1 \<or> m_voteForId r' = m_voteForId r"
  shows "recorded r' t c"
  using assms by (auto simp: recorded_def holds_vote_def disk_step_def)

lemma recorded_durable: "vote_durable r \<Longrightarrow> recorded r t c \<longleftrightarrow> holds_vote (m_currentTerm r) (m_voteForId r) t c"
  by (auto simp: recorded_def vote_durable_def)

lemma ballots_ok_step:
  assumes "ballots_ok n C" "node D = (node C)(p := r')"
    and kept: "\<And>t c. (p, t, c) \<in> ballots C \<Longrightarrow> recorded r' t c"
    and "ballots D = ballots C \<or> ballots D = insert (p, m_currentTerm r', m_voteForId r') (ballots C)
      \<and> 0 \<le> m_voteForId r' \<and> m_voteForId r' < int n \<and> ints_fit r' \<and> vote_durable r'"
  shows "ballots_ok n D"
proof -
  have old: "0 \<le> c \<and> c < int n \<and> int32_range t \<and> int32_range c \<and> recorded (node D q) t c"
    if "(q, t, c) \<in> ballots C" for q t c
    using ballots_okD [OF assms(1) that] kept [of t c] that assms(2) by auto
  have "0 \<le> c \<and> c < int n \<and> int32_range t \<and> int32_range c \<and> recorded (node D q) t c"
    if "(q, t, c) \<in> ballots D" for q t c
    using that old [of q t c] assms(2,4) by (auto simp: ints_fit_def recorded_durable holds_vote_def)
  moreover have "c = c'" if "(q, t, c) \<in> ballots D" "(q, t, c') \<in> ballots D" for q t c c'
  proof (cases "(q, t, c) \<in> ballots C \<and> (q, t, c') \<in> ballots C")
    case True
    then show ?thesis using assms(1) by (auto simp: ballots_ok_def)
  next
    case False
    then have "q = p" "t = m_currentTerm r'" using that assms(4) by auto
    then show ?thesis
      using that old [of q t c] old [of q t c'] assms(2,4) by (auto simp: recorded_def holds_vote_def)
  qed
  ultimately show ?thesis by (auto simp: ballots_ok_def)
qed

text \<open>The steps but a restart: the term does not fall, and the file does not fall behind what was recorded.\<close>

lemma recorded_forward:
  assumes "ballots_ok n C" "(p, t, c) \<in> ballots C" "m_currentTerm (node C p) \<le> m_currentTerm r'" "disk_step (node C p) r'"
    and "m_currentTerm r' = m_currentTerm (node C p) \<longrightarrow> m_voteForId (node C p) = -1 \<or> m_voteForId r' = m_voteForId (node C p)"
  shows "recorded r' t c"
  using ballots_okD [OF assms(1,2)] recorded_step assms(3-5) by blast

lemma calls_ok_step:
  assumes "calls_ok n C" "ballots C \<subseteq> ballots D" "\<forall>k. calls D k = calls C k \<or> call_ok n D k (calls D k)"
  shows "calls_ok n D"
  unfolding calls_ok_def
proof
  fix k :: "int \<times> int \<times> int"
  obtain c p t where k: "k = (c, p, t)" by (cases k)
  have "call_ok n D k (calls C k)"
    using calls_okD [OF assms(1), of k] assms(2) unfolding k by (cases "calls C (c, p, t)") auto
  then show "call_ok n D k (calls D k)" using assms(3) by metis
qed

lemma leaders_ok_step:
  assumes "leaders_ok n C" "node D = (node C)(p := r')" "ballots C \<subseteq> ballots D"
    and "\<forall>k. calls C k = Counted \<longrightarrow> calls D k = Counted"
    and "m_state r' = leader \<longrightarrow>
      (m_state (node C p) = leader \<and> m_currentTerm r' = m_currentTerm (node C p))
      \<or> (\<exists>q. calls D (p, q, m_currentTerm r') = Counted)
        \<and> (\<exists>Q. is_majority n Q \<and> (\<forall>q \<in> Q. (q, m_currentTerm r', p) \<in> ballots D))"
  shows "leaders_ok n D"
  unfolding leaders_ok_def
proof (intro allI impI)
  fix c assume lead: "m_state (node D c) = leader"
  consider "m_state (node C c) = leader" "m_currentTerm (node D c) = m_currentTerm (node C c)"
    | "c = p" "node D c = r'" "\<exists>q. calls D (p, q, m_currentTerm r') = Counted"
      "\<exists>Q. is_majority n Q \<and> (\<forall>q \<in> Q. (q, m_currentTerm r', p) \<in> ballots D)"
    using lead assms(2,5) by (cases "c = p") auto
  then show "(\<exists>q. calls D (c, q, m_currentTerm (node D c)) = Counted)
     \<and> (\<exists>Q. is_majority n Q \<and> (\<forall>q \<in> Q. (q, m_currentTerm (node D c), c) \<in> ballots D))"
  proof cases
    case 1
    with assms(1) have "(\<exists>q. calls C (c, q, m_currentTerm (node C c)) = Counted)"
      "(\<exists>Q. is_majority n Q \<and> (\<forall>q \<in> Q. (q, m_currentTerm (node C c), c) \<in> ballots C))"
      by (auto simp: leaders_ok_def)
    then show ?thesis using 1(2) assms(3,4) by (metis subsetD)
  qed auto
qed

lemma leaders_ok_keep:
  assumes "leaders_ok n C" "node D = (node C)(p := r')" "ballots C \<subseteq> ballots D"
    and "\<forall>k. calls C k = Counted \<longrightarrow> calls D k = Counted"
    and "m_state r' = leader \<longrightarrow> m_state (node C p) = leader \<and> m_currentTerm r' = m_currentTerm (node C p)"
  shows "leaders_ok n D"
  using assms(5) by (intro leaders_ok_step [OF assms(1-4)]) blast

lemma send_votes_eq:
  "send_votes i (map (\<lambda>p. Send_vote p v) ps @ [Persist f]) cs (c, p, t) =
     (if c = i \<and> p \<in> set ps \<and> t = rv_term v then Requested v else cs (c, p, t))"
  by (induction ps arbitrary: cs) (auto simp: send_votes_def)

lemma doElection_send_votes:
  assumes "m_state r \<noteq> leader" "doElection now r = (r', es)"
  shows "send_votes i es cs (c, p, t) =
    (if c = i \<and> p \<in> set (other_peers r) \<and> t = m_currentTerm r + 1
     then Requested \<lparr>rv_term = m_currentTerm r + 1, rv_candidateid = m_id r,
       rv_lastlogindex = getLastLogIndex r, rv_lastlogterm = getLastLogTerm r\<rparr> else cs (c, p, t))"
    "m_state r' = candidate" "m_currentTerm r' = m_currentTerm r + 1" "m_voteForId r' = m_id r"
    "m_id r' = m_id r" "m_peers_size r' = m_peers_size r"
  using assms
  by (auto simp: doElection_def doElection_locked_def Let_def vote_request_def other_peers_def
      comp_def send_votes_eq)

lemma counts_ok_step:
  assumes "counts_ok C" "calls_ok n D" "\<forall>k. calls C k = Counted \<longrightarrow> calls D k = Counted"
    "\<forall>c t. votedNum D (c, t) \<le> votedNum C (c, t) \<or> votedNum D (c, t) \<le> 1 + int (card (counted D c t))"
  shows "counts_ok D"
  unfolding counts_ok_def
proof (intro allI)
  fix c t
  have "counted C c t \<subseteq> counted D c t" using assms(3) by (auto simp: counted_def)
  then have "card (counted C c t) \<le> card (counted D c t)"
    by (rule card_mono [OF finite_counted [OF assms(2)]])
  then show "votedNum D (c, t) \<le> 1 + int (card (counted D c t))"
    using assms(1,4) unfolding counts_ok_def by (smt (verit) of_nat_mono)
qed

lemma step_elect:
  assumes ok: "cluster_ok n C" and i: "0 \<le> i" "i < int n" and st: "m_state (node C i) \<noteq> leader"
    and run: "doElection now (node C i) = (r', es)"
    and D: "D = C\<lparr>node := (node C)(i := r'), calls := send_votes i es (calls C),
      votedNum := (votedNum C)((i, m_currentTerm r') := 1),
      ballots := insert (i, m_currentTerm r', m_voteForId r') (ballots C)\<rparr>"
    and fit: "ints_fit r'"
  shows "cluster_ok n D"
proof -
  note parts = ok [unfolded cluster_ok_def]
  note sent = doElection_send_votes [OF st run]
  note durable = doElection_disk [OF run st fit]
  have id: "m_id (node C i) = i" "m_peers_size (node C i) = n" using parts by (auto simp: nodes_ok_def)
  have fresh: "calls C (i, p, m_currentTerm r') = Idle" for p
    using parts calls_okD [of n C "(i, p, m_currentTerm r')"] sent(3) ballots_okD(5) [of n C i _ i]
    by (fastforce simp: call_ok_iff recorded_def holds_vote_def)
  have keep: "calls C k = Counted \<Longrightarrow> calls D k = Counted" for k
    using fresh by (cases k) (auto simp: D sent)
  have ballots: "ballots_ok n D"
  proof (rule ballots_ok_step [of n C D i r'])
    show "recorded r' t c" if "(i, t, c) \<in> ballots C" for t c
    proof -
      have "t \<le> m_currentTerm (node C i)"
        using ballots_okD(5) [OF _ that, of n] parts by (simp add: recorded_def holds_vote_def)
      then show ?thesis by (simp add: recorded_durable [OF durable] holds_vote_def sent(3))
    qed
  qed (use parts D sent id i fit durable in simp_all)
  moreover have calls: "calls_ok n D"
  proof (rule calls_ok_step [of n C D])
    have "calls D (c, p, t) = calls C (c, p, t) \<or> call_ok n D (c, p, t) (calls D (c, p, t))" for c p t
      using i id sent(3,4) by (simp add: D sent(1) other_peers_set call_ok_iff)
    then show "\<forall>k. calls D k = calls C k \<or> call_ok n D k (calls D k)" by auto
  qed (use parts D sent in auto)
  moreover have "counts_ok D"
    using parts calls keep by (intro counts_ok_step [of C n D]) (simp_all add: D)
  moreover have "leaders_ok n D"
    using parts keep sent(2) by (intro leaders_ok_keep [of n C D i r']) (simp_all add: D subset_insertI)
  moreover have "nodes_ok n D" using parts id sent fit by (auto simp: nodes_ok_def D)
  ultimately show ?thesis by (simp add: cluster_ok_def)
qed

lemma step_request:
  assumes ok: "cluster_ok n C" and call: "calls C (c, p, t) = Requested a"
    and run: "RequestVote now a (node C p) = Inr (r', rep)"
    and D: "D = C\<lparr>node := (node C)(p := r'), calls := (calls C)((c, p, t) := Replied a rep),
      ballots := (if rvr_votegranted rep then insert (p, m_currentTerm r', m_voteForId r') (ballots C)
                  else ballots C)\<rparr>"
  shows "cluster_ok n D"
proof -
  note parts = ok [unfolded cluster_ok_def]
  note vote = RequestVote_cases [OF run]
  have a: "0 \<le> c" "c < int n" "0 \<le> p" "p < int n" "p \<noteq> c" "(c, t, c) \<in> ballots C"
    "rv_term a = t" "rv_candidateid a = c"
    using parts calls_okD [of n C "(c, p, t)"] call by auto
  have id: "m_id (node C p) = p" "m_peers_size (node C p) = n" "ints_fit (node C p)"
    using parts by (auto simp: nodes_ok_def)
  have rng: "int32_range (rv_term a)" "int32_range (rv_candidateid a)"
    using parts a ballots_okD(3,4) [of n C c t c] by auto
  note disk = RequestVote_disk [OF run id(3) rng]
  have "ballots_ok n D"
  proof (rule ballots_ok_step [of n C D p r'])
    show "recorded r' t' c'" if "(p, t', c') \<in> ballots C" for t' c'
      using parts that vote(1,10) disk(2) by (intro recorded_forward [of n C p]) auto
  qed (use parts D vote(8) a disk in auto)
  moreover have calls: "calls_ok n D"
  proof (rule calls_ok_step [of n C D])
    have own: "(c, t, c) \<in> ballots D" "rvr_votegranted rep \<longrightarrow> (p, t, c) \<in> ballots D"
      "int32_range (rvr_term rep)"
      using a vote(2,8) disk(1) by (auto simp: D ints_fit_def)
    then have "call_ok n D (c, p, t) (Replied a rep)" using a by simp
    moreover have "calls D k = calls C k \<or> k = (c, p, t) \<and> calls D k = Replied a rep" for k by (simp add: D)
    ultimately show "\<forall>k. calls D k = calls C k \<or> call_ok n D k (calls D k)" by metis
  qed (use parts D vote(1) in auto)
  moreover have keep: "\<forall>k. calls C k = Counted \<longrightarrow> calls D k = Counted"
    using call by (auto simp: D)
  then have "counts_ok D"
    using parts calls by (intro counts_ok_step [of C n D]) (simp_all add: D)
  moreover have "leaders_ok n D"
  proof (rule leaders_ok_keep [of n C D p r'])
    show "m_state r' = leader \<longrightarrow> m_state (node C p) = leader \<and> m_currentTerm r' = m_currentTerm (node C p)"
      by (cases "m_currentTerm (node C p) < rv_term a") (use vote(1,6,7) in auto)
  qed (use parts keep in \<open>auto simp: D\<close>)
  moreover have "nodes_ok n D" using parts id vote disk(1) by (auto simp: nodes_ok_def D)
  ultimately show ?thesis by (simp add: cluster_ok_def)
qed

text \<open>A step of one node that records no vote, with what it must say of the votes recorded before.\<close>

lemma step_node:
  assumes ok: "cluster_ok n C" and D: "D = C\<lparr>node := (node C)(i := r')\<rparr>"
    and kept: "\<And>t c. (i, t, c) \<in> ballots C \<Longrightarrow> recorded r' t c"
    and id: "m_id r' = m_id (node C i)" "m_peers_size r' = m_peers_size (node C i)" "ints_fit r'"
    and lead: "m_state r' = leader \<longrightarrow> m_state (node C i) = leader \<and> m_currentTerm r' = m_currentTerm (node C i)"
  shows "cluster_ok n D"
proof -
  note parts = ok [unfolded cluster_ok_def]
  have "ballots_ok n D" using parts D kept by (intro ballots_ok_step [of n C D i r']) auto
  moreover have "calls_ok n D" using parts D by (intro calls_ok_step [of n C D]) auto
  moreover have "counts_ok D" using parts D by (simp add: counts_ok_def counted_def)
  moreover have "leaders_ok n D"
    using parts lead by (intro leaders_ok_keep [of n C D i r']) (simp_all add: D)
  moreover have "nodes_ok n D" using parts id D by (auto simp: nodes_ok_def)
  ultimately show ?thesis by (simp add: cluster_ok_def)
qed

lemma step_other:
  assumes ok: "cluster_ok n C" and run: "handler_step (node C i) r'" "ints_fit r'"
    and D: "D = C\<lparr>node := (node C)(i := r')\<rparr>"
  shows "cluster_ok n D"
proof (rule step_node [OF ok D])
  note q = handler_step_safe [OF run, unfolded quiet_step_def]
  show "recorded r' t c" if "(i, t, c) \<in> ballots C" for t c
    using ok that q by (intro recorded_forward [of n C i]) (auto simp: cluster_ok_def)
qed (use handler_step_safe [OF run] run(2) in \<open>auto simp: quiet_step_def\<close>)

lemma step_restart:
  assumes ok: "cluster_ok n C"
    and run: "r' = raft_init now (m_id (node C i)) (m_peers_size (node C i)) (fmp (node C i)) logs snap ch"
    and D: "D = C\<lparr>node := (node C)(i := r')\<rparr>"
  shows "cluster_ok n D"
proof (rule step_node [OF ok D])
  note r = restart_simps [OF run]
  show "recorded r' t c" if "(i, t, c) \<in> ballots C" for t c
    using ballots_okD(5) [OF _ that, of n] ok by (simp add: cluster_ok_def recorded_def r)
qed (simp_all add: restart_simps [OF run])

lemma step_lose:
  assumes ok: "cluster_ok n C" and call: "calls C (c, p, t) \<noteq> Idle" "calls C (c, p, t) \<noteq> Counted"
    and D: "D = C\<lparr>calls := (calls C)((c, p, t) := Dropped)\<rparr>"
  shows "cluster_ok n D"
proof -
  note parts = ok [unfolded cluster_ok_def]
  have calls: "calls_ok n D"
  proof (rule calls_ok_step [of n C D])
    have "call_ok n D (c, p, t) Dropped"
      using parts calls_okD [of n C "(c, p, t)"] call(1) by (auto simp: call_ok_iff D)
    then show "\<forall>k. calls D k = calls C k \<or> call_ok n D k (calls D k)" by (auto simp: D)
  qed (use parts D in auto)
  moreover have keep: "\<forall>k. calls C k = Counted \<longrightarrow> calls D k = Counted" using call by (auto simp: D)
  then have "counts_ok D"
    using parts calls by (intro counts_ok_step [of C n D]) (simp_all add: D)
  moreover have "leaders_ok n D"
    using parts keep by (intro leaders_ok_keep [of n C D c "node C c"]) (simp_all add: D)
  moreover have "ballots_ok n D" "nodes_ok n D" using parts by (auto simp: D ballots_ok_def nodes_ok_def)
  ultimately show ?thesis by (simp add: cluster_ok_def)
qed

text \<open>
  An answered call is the only step that can make a leader. The peers counted for a candidate, and
  the candidate itself, have recorded their votes for it.
\<close>

lemma step_answer:
  assumes ok: "cluster_ok n C" and call: "calls C (c, p, t) = Replied a rep"
    and run: "handleRequestVoteResponse a rep (votedNum C (c, t)) True (node C c) = Inr (r', v')"
    and D: "D = C\<lparr>node := (node C)(c := r'), votedNum := (votedNum C)((c, t) := v'),
      calls := (calls C)((c, p, t) := (if v' = votedNum C (c, t) + 1 then Counted else Dropped))\<rparr>"
  shows "cluster_ok n D"
proof -
  note parts = ok [unfolded cluster_ok_def]
  let ?new = "if v' = votedNum C (c, t) + 1 then Counted else Dropped"
  have a: "0 \<le> c" "c < int n" "0 \<le> p" "p < int n" "p \<noteq> c" "int32_range (rvr_term rep)"
    "(c, t, c) \<in> ballots C" "rv_term a = t" "rvr_votegranted rep \<longrightarrow> (p, t, c) \<in> ballots C"
    using parts calls_okD [of n C "(c, p, t)"] call by auto
  have id: "m_id (node C c) = c" "m_peers_size (node C c) = n" "ints_fit (node C c)"
    using parts by (auto simp: nodes_ok_def)
  note disk = handleRequestVoteResponse_disk [OF run id(3) a(6)]
  define v where "v = votedNum C (c, t)"
  have step: "m_currentTerm (node C c) \<le> m_currentTerm r' \<and> m_id r' = c \<and> m_peers_size r' = n
      \<and> (m_currentTerm r' = m_currentTerm (node C c) \<longrightarrow> m_voteForId r' = m_voteForId (node C c))
      \<and> (v' = v \<or> v' = v + 1 \<and> rvr_votegranted rep)
      \<and> (m_state r' = leader \<longrightarrow> m_currentTerm r' = m_currentTerm (node C c)
          \<and> (m_state (node C c) = leader \<or> v' = v + 1 \<and> int (n div 2 + 1) \<le> v'
             \<and> t = m_currentTerm (node C c)))"
    using run id a(8) unfolding v_def [symmetric]
    by (cases rule: handleRequestVoteResponse_cases) (simp_all add: majority_def)
  have keep: "\<forall>k. calls C k = Counted \<longrightarrow> calls D k = Counted" using call by (simp add: D)
  have same: "ballots D = ballots C" "node D = (node C)(c := r')" by (simp_all add: D)
  have calls: "calls_ok n D"
  proof (rule calls_ok_step [of n C])
    have placed: "call_ok n D (c, p, t) Dropped" "v' = v + 1 \<longrightarrow> call_ok n D (c, p, t) Counted"
      using a step by (auto simp: same)
    have "calls D (c, p, t) = (if v' = v + 1 then Counted else Dropped)" by (simp add: D v_def)
    with placed have "call_ok n D (c, p, t) (calls D (c, p, t))" by simp
    moreover have "k \<noteq> (c, p, t) \<Longrightarrow> calls D k = calls C k" for k by (simp add: D)
    ultimately show "\<forall>k. calls D k = calls C k \<or> call_ok n D k (calls D k)" by metis
  qed (use parts step in \<open>auto simp: same\<close>)
  have num: "votedNum D (c, t) = v'" "\<And>k. k \<noteq> (c, t) \<Longrightarrow> votedNum D k = votedNum C k"
    by (simp_all add: D)
  have counts: "counts_ok D"
    unfolding counts_ok_def
  proof (intro allI)
    fix c' t'
    have old: "votedNum C (c', t') \<le> 1 + int (card (counted C c' t'))" using parts by (simp add: counts_ok_def)
    show "votedNum D (c', t') \<le> 1 + int (card (counted D c' t'))"
    proof (cases "(c', t') = (c, t) \<and> v' = v + 1")
      case True
      have "counted D c t = insert p (counted C c t)" "p \<notin> counted C c t"
        using True call by (auto simp: D counted_def v_def)
      moreover have "finite (counted C c t)" using parts by (intro finite_counted [of n C]) simp
      ultimately show ?thesis using True old num(1) by (simp add: v_def)
    next
      case False
      have "counted C c' t' \<subseteq> counted D c' t'" using keep by (auto simp: counted_def)
      then have "card (counted C c' t') \<le> card (counted D c' t')"
        by (rule card_mono [OF finite_counted [OF calls]])
      moreover have "votedNum D (c', t') \<le> votedNum C (c', t')"
        using False step num by (cases "(c', t') = (c, t)") (auto simp: v_def)
      ultimately show ?thesis using old by linarith
    qed
  qed
  have "leaders_ok n D"
  proof (rule leaders_ok_step [of n C D c r'])
    have "(\<exists>q. calls D (c, q, m_currentTerm r') = Counted)
        \<and> (\<exists>Q. is_majority n Q \<and> (\<forall>q \<in> Q. (q, m_currentTerm r', c) \<in> ballots D))"
      if won: "v' = v + 1" "int (n div 2 + 1) \<le> v'" "t = m_currentTerm r'"
    proof
      show "\<exists>q. calls D (c, q, m_currentTerm r') = Counted"
        using won by (intro exI [of _ p]) (simp add: D v_def)
      let ?Q = "insert c (counted D c t)"
      have sub: "counted D c t \<subseteq> {0..<int n} - {c}" by (rule counted_subset [OF calls])
      have "votedNum D (c, t) = v'" by (simp add: D)
      then have "int (n div 2 + 1) \<le> 1 + int (card (counted D c t))"
        using counts won unfolding counts_ok_def by (metis order_trans)
      moreover have "card ?Q = 1 + card (counted D c t)"
        using sub finite_counted [OF calls] by (subst card_insert_disjoint) auto
      ultimately have "is_majority n ?Q" using sub a(1,2) by (auto simp: is_majority_def)
      moreover have "(q, t, c) \<in> ballots D" if "q \<in> ?Q" for q
        using that a(7) calls_okD [OF calls, of "(c, q, t)"] by (auto simp: counted_def same)
      ultimately show "\<exists>Q. is_majority n Q \<and> (\<forall>q \<in> Q. (q, m_currentTerm r', c) \<in> ballots D)"
        using won(3) by blast
    qed
    then show "m_state r' = leader \<longrightarrow>
      (m_state (node C c) = leader \<and> m_currentTerm r' = m_currentTerm (node C c))
      \<or> (\<exists>q. calls D (c, q, m_currentTerm r') = Counted)
        \<and> (\<exists>Q. is_majority n Q \<and> (\<forall>q \<in> Q. (q, m_currentTerm r', c) \<in> ballots D))"
      using step by metis
  qed (use parts keep in \<open>simp_all add: same\<close>)
  moreover have "ballots_ok n D"
  proof (rule ballots_ok_step [of n C D c r'])
    show "recorded r' t' c'" if "(c, t', c') \<in> ballots C" for t' c'
      using parts that step disk by (intro recorded_forward [of n C c]) auto
  qed (use parts in \<open>simp_all add: same\<close>)
  moreover have "nodes_ok n D" using parts step disk by (auto simp: nodes_ok_def same)
  ultimately show ?thesis using calls counts by (simp add: cluster_ok_def)
qed

lemma cluster_step_ok:
  assumes "cluster_step n C D" "cluster_ok n C"
  shows "cluster_ok n D"
  using assms(1)
proof (cases rule: cluster_step.cases)
  case elect
  then show ?thesis by (intro step_elect [OF assms(2)])
next
  case request
  then show ?thesis by (intro step_request [OF assms(2)])
next
  case answer
  then show ?thesis by (intro step_answer [OF assms(2)])
next
  case lose
  then show ?thesis by (intro step_lose [OF assms(2)])
next
  case other
  then show ?thesis by (intro step_other [OF assms(2)])
next
  case restart
  then show ?thesis by (intro step_restart [OF assms(2)])
qed

lemma reachable_ok: "reachable n C \<Longrightarrow> cluster_ok n C"
  unfolding reachable_def
  by (induction rule: rtranclp_induct) (auto simp: start_ok intro: cluster_step_ok)

section \<open>Properties\<close>

lemma two_leaders_agree:
  assumes "cluster_ok n C" "m_state (node C i) = leader" "m_state (node C j) = leader"
    "m_currentTerm (node C i) = m_currentTerm (node C j)"
  shows "i = j"
proof -
  have quorum: "\<exists>Q. is_majority n Q \<and> (\<forall>p \<in> Q. (p, m_currentTerm (node C k), k) \<in> ballots C)"
    if "m_state (node C k) = leader" for k
    using assms(1) that unfolding cluster_ok_def leaders_ok_def by blast
  obtain A where A: "is_majority n A" "\<forall>p \<in> A. (p, m_currentTerm (node C i), i) \<in> ballots C"
    using quorum [OF assms(2)] by blast
  obtain B where B: "is_majority n B" "\<forall>p \<in> B. (p, m_currentTerm (node C i), j) \<in> ballots C"
    using quorum [OF assms(3)] assms(4) by auto
  have "x = y" if "(p, m_currentTerm (node C i), x) \<in> ballots C" "(p, m_currentTerm (node C i), y) \<in> ballots C" for p x y
    using assms(1) that unfolding cluster_ok_def ballots_ok_def by blast
  from maj.unique_winner [where R = "\<lambda>p x. (p, m_currentTerm (node C i), x) \<in> ballots C", OF this A B]
  show ?thesis .
qed

text \<open>Three nodes, of which node 0 starts an election and gets the vote of node 1.\<close>

lemma sample_election:
  "\<exists>C. reachable 3 C \<and> m_state (node C 0) = leader \<and> m_currentTerm (node C 0) = 1"
proof -
  let ?C0 = "start_cluster 3"
  let ?a = "\<lparr>rv_term = 1, rv_candidateid = 0, rv_lastlogindex = 0, rv_lastlogterm = 0\<rparr>"
  obtain r0 es where e: "doElection 5 (node ?C0 0) = (r0, es)" by (cases "doElection 5 (node ?C0 0)")
  have st: "m_state (node ?C0 0) \<noteq> leader" and node: "node ?C0 = (\<lambda>i. fresh_node i 3)"
    and base: "getLastLogIndex (fresh_node i 3) = 0" "getLastLogTerm (fresh_node i 3) = 0" for i
    by (simp_all add: start_cluster_def fresh_node_eq getLastLogIndex_def getLastLogTerm_def
        getLastLogIndexandTerm_def)
  note sent = doElection_send_votes [OF st e]
  have fit: "ints_fit r0" using sent(3,4) by (simp add: node fresh_node_eq ints_fit_def int32_range_def)
  define C1 where "C1 = ?C0\<lparr>node := (node ?C0)(0 := r0), calls := send_votes 0 es (calls ?C0),
      votedNum := (votedNum ?C0)((0, m_currentTerm r0) := 1),
      ballots := insert (0, m_currentTerm r0, m_voteForId r0) (ballots ?C0)\<rparr>"
  have s1: "cluster_step 3 ?C0 C1" unfolding C1_def by (rule elect [OF _ _ st e]) (simp_all add: fit)
  have r0: "m_currentTerm r0 = 1" "m_state r0 = candidate" "m_id r0 = 0" "m_peers_size r0 = 3"
    "m_logs r0 = []" "m_lastSnapshotIndex r0 = 0" "length (m_nextIndex r0) = 3" "length (m_matchIndex r0) = 3"
    using sent(2,3,5,6) e by (auto simp: node fresh_node_eq doElection_def doElection_locked_def Let_def)
  have call: "calls C1 (0, 1, 1) = Requested ?a" and node1: "node C1 1 = fresh_node 1 3"
    by (simp_all add: C1_def sent(1) other_peers_set node base) (simp_all add: fresh_node_eq)
  obtain r1 rep where v: "RequestVote 6 ?a (node C1 1) = Inr (r1, rep)" "rvr_votegranted rep"
    using RequestVote_grant [of 6 ?a "node C1 1"] unfolding node1
    by (auto simp: last_position_def base less_eq_log_position_def) (simp_all add: fresh_node_eq)
  have rep: "rvr_term rep = 1"
    using RequestVote_cases(1,2) [OF v(1)] by (simp add: node1 fresh_node_eq)
  define C2 where "C2 = C1\<lparr>node := (node C1)(1 := r1), calls := (calls C1)((0, 1, 1) := Replied ?a rep),
      ballots := (if rvr_votegranted rep then insert (1, m_currentTerm r1, m_voteForId r1) (ballots C1)
                  else ballots C1)\<rparr>"
  have s2: "cluster_step 3 C1 C2" unfolding C2_def by (rule request [OF call v(1)])
  have "node C2 0 = r0" "votedNum C2 (0, 1) = 1" "calls C2 (0, 1, 1) = Replied ?a rep"
    by (simp_all add: C2_def C1_def r0)
  moreover obtain r2 v2 where r2: "handleRequestVoteResponse ?a rep 1 True r0 = Inr (r2, v2)" "m_state r2 = leader"
    "m_currentTerm r2 = 1"
    using r0 rep v(2) by (simp add: handleRequestVoteResponse_def majority_def vec_put_def numeral_3_eq_3
        getLastLogIndex_def getLastLogIndexandTerm_def)
  ultimately have s3: "\<exists>C3. cluster_step 3 C2 C3 \<and> node C3 0 = r2"
    using answer [of C2 0 1 1 ?a rep r2 v2 3] by fastforce
  then obtain C3 where "cluster_step 3 C2 C3" "node C3 0 = r2" by blast
  then show ?thesis
    using s1 s2 r2 unfolding reachable_def
    by (intro exI [of _ C3]) (auto intro: rtranclp.rtrancl_into_rtrancl)
qed



text \<open>A cluster of one node never has a leader: a candidate is promoted only by the answer of
  another peer, so the vote it gives itself is never enough although it is a majority.\<close>

lemma single_node_never_leads:
  "reachable 1 C \<Longrightarrow> m_state (node C i) \<noteq> leader"
proof
  assume run: "reachable 1 C" and lead: "m_state (node C i) = leader"
  have ok: "leaders_ok 1 C" "calls_ok 1 C" using reachable_ok [OF run] by (auto simp: cluster_ok_def)
  then obtain p where "calls C (i, p, m_currentTerm (node C i)) = Counted"
    using lead by (auto simp: leaders_ok_def)
  with calls_okD [OF ok(2), of "(i, p, m_currentTerm (node C i))"]
  have "0 \<le> i \<and> i < 1 \<and> 0 \<le> p \<and> p < 1 \<and> p \<noteq> i" by simp
  then show False by linarith
qed

theorem single_node_never_leads_witness:
  "\<exists>C. reachable 1 C \<and> m_state (node C 0) = candidate \<and> m_state (node C 0) \<noteq> leader"
proof -
  let ?C0 = "start_cluster 1"
  obtain r0 es where e: "doElection 5 (node ?C0 0) = (r0, es)" by (cases "doElection 5 (node ?C0 0)")
  have st: "m_state (node ?C0 0) \<noteq> leader" by (simp add: start_cluster_def fresh_node_eq)
  have fit: "ints_fit r0"
    using doElection_send_votes(3,4) [OF st e]
    by (simp add: start_cluster_def fresh_node_eq ints_fit_def int32_range_def)
  obtain C where C: "cluster_step 1 ?C0 C" "node C 0 = r0"
    using elect [of 0 1 ?C0 5 r0 es] st e fit by fastforce
  then have "reachable 1 C" unfolding reachable_def by blast
  with single_node_never_leads [OF this, of 0] C doElection_send_votes(2) [OF st e] show ?thesis by auto
qed

text \<open>C32: The vote of a candidate for itself can be forgotten. The requests of an election leave the
  node before the new term is written, so a node that stops between the two restarts in its old
  term, and then gives its vote in the term of its own requests to any other candidate whose
  log is as up to date as what it recovers.\<close>

theorem restart_before_persist_votes_again:
  "vote_durable r \<Longrightarrow> m_state r \<noteq> leader \<Longrightarrow>
   m_currentTerm r + 1 = rv_term req \<Longrightarrow> rv_candidateid req \<noteq> m_id r \<Longrightarrow>
   r1 = raft_init now (m_id r) (m_peers_size r) (fmp r) logs snap ch \<Longrightarrow>
   last_position r1 \<le> Log_position (rv_lastlogterm req) (rv_lastlogindex req) \<Longrightarrow>
   \<exists>es f. snd (doElection now r) = es @ [Persist f]
     \<and> (\<forall>e \<in> set es. \<exists>p a. e = Send_vote p a \<and> rv_term a = rv_term req \<and> rv_candidateid a = m_id r)
     \<and> (\<exists>r2 rep. RequestVote now req r1 = Inr (r2, rep) \<and> rvr_votegranted rep
          \<and> rvr_term rep = rv_term req \<and> m_voteForId r2 = rv_candidateid req)"
proof -
  assume dur: "vote_durable r" and st: "m_state r \<noteq> leader" and term_eq: "m_currentTerm r + 1 = rv_term req"
    and r1: "r1 = raft_init now (m_id r) (m_peers_size r) (fmp r) logs snap ch"
    and pos: "last_position r1 \<le> Log_position (rv_lastlogterm req) (rv_lastlogindex req)"
  have "m_currentTerm r1 = m_currentTerm r" using dur by (simp add: r1 raft_init_def Let_def vote_durable_def)
  then obtain r2 rep where vote: "RequestVote now req r1 = Inr (r2, rep)" "rvr_votegranted rep"
    using RequestVote_grant [of now req r1] pos term_eq by auto
  moreover have "\<exists>es f. snd (doElection now r) = es @ [Persist f]
      \<and> (\<forall>e \<in> set es. \<exists>p a. e = Send_vote p a \<and> rv_term a = rv_term req \<and> rv_candidateid a = m_id r)"
    using st term_eq
    by (auto simp: doElection_def doElection_locked_def Let_def vote_request_def)
  ultimately show ?thesis using RequestVote_cases(2,8) [OF vote(1)] by auto
qed

theorem restart_before_persist_votes_again_witness:
  "\<exists>r2 rep. RequestVote 9 \<lparr>rv_term = 1, rv_candidateid = 2, rv_lastlogindex = 0, rv_lastlogterm = 0\<rparr>
       (raft_init 9 0 3 (fmp (fresh_node 0 3)) (\<lambda>_. []) [] empty_queue) = Inr (r2, rep)
     \<and> rvr_votegranted rep \<and> rvr_term rep = 1"
proof -
  let ?req = "\<lparr>rv_term = 1, rv_candidateid = 2, rv_lastlogindex = 0, rv_lastlogterm = 0\<rparr>"
  let ?r1 = "raft_init 9 (m_id (fresh_node 0 3)) (m_peers_size (fresh_node 0 3)) (fmp (fresh_node 0 3))
    (\<lambda>_. []) [] empty_queue"
  have facts: "vote_durable (fresh_node 0 3)" "m_state (fresh_node 0 3) \<noteq> leader"
    "m_currentTerm (fresh_node 0 3) + 1 = rv_term ?req" "rv_candidateid ?req \<noteq> m_id (fresh_node 0 3)"
    by (simp_all add: vote_durable_def fresh_node_eq zero_NodeInfo_def of_u32_def)
  have "last_position ?r1 \<le> Log_position (rv_lastlogterm ?req) (rv_lastlogindex ?req)"
    by (simp add: last_position_def less_eq_log_position_def fresh_node_eq raft_init_def Let_def
        zero_NodeInfo_def of_u32_def getLastLogIndex_def getLastLogTerm_def getLastLogIndexandTerm_def)
  from restart_before_persist_votes_again [OF facts refl this] show ?thesis
    by (auto simp: fresh_node_eq)
qed

end
