(* ===== verification/Raft_Repair.thy ===== *)
theory Raft_Repair
  imports Raft_Snapshot
begin

text \<open>
  Log repair: the rounds in which a leader brings one peer's log up to its own. A round is what
  one heartbeat does for the peer: \<open>doHeartBeat\<close> builds the message, the peer handles it
  (\<open>AppendEntries\<close> or \<open>InstallSnapshot\<close>) and the callback takes the answer
  (\<open>handleAppendEntries\<close>, \<open>leaderSendSnapShotHandler\<close>). The request or the answer may be lost;
  the callback is then run with \<open>ok\<close> false. The theory composes the handlers of the theories
  before it and shows that the rounds come to an end.
\<close>

section \<open>Rounds\<close>

datatype delivery = Lost_request | Lost_answer | Delivered

definition repl_round :: "int \<Rightarrow> int \<Rightarrow> delivery \<Rightarrow> raft \<times> raft \<Rightarrow> (raft \<times> raft) result" where
  "repl_round now i d lf = (case lf of (l, f) \<Rightarrow>
     rbind (hb_peer l i) (\<lambda>(l1, msg).
     if d = Lost_request then Inr (l1, f)
     else case msg of
       HB_append args \<Rightarrow>
         rbind (AppendEntries now args True f) (\<lambda>(f1, reply).
         rbind (handleAppendEntries i args reply 0 (d = Delivered) l1) (\<lambda>(l2, _). Inr (l2, f1)))
     | HB_snapshot \<Rightarrow>
         rbind (InstallSnapshot now (leaderSendSnapShot l1) f) (\<lambda>(f1, reply).
         rbind (leaderSendSnapShotHandler now (d = Delivered) (leaderSendSnapShot l1) reply i l1)
           (\<lambda>(l2, _). Inr (l2, f1)))))"

fun repl_rounds :: "int \<Rightarrow> int \<Rightarrow> delivery list \<Rightarrow> raft \<times> raft \<Rightarrow> (raft \<times> raft) result" where
  "repl_rounds now i [] lf = Inr lf"
| "repl_rounds now i (d # ds) lf = rbind (repl_round now i d lf) (repl_rounds now i ds)"

section \<open>The state of a repair\<close>

text \<open>
  No entry of one log contradicts the other: entries with one index and one term carry one command.
\<close>

definition consistent_logs :: "raft \<Rightarrow> raft \<Rightarrow> bool" where
  "consistent_logs l f \<longleftrightarrow> (\<forall>j. m_lastSnapshotIndex l < j \<longrightarrow> m_lastSnapshotIndex f < j \<longrightarrow>
     j \<le> getLastLogIndex l \<longrightarrow> j \<le> getLastLogIndex f \<longrightarrow>
     logterm (entry_at f j) = logterm (entry_at l j) \<longrightarrow>
     command (entry_at f j) = command (entry_at l j))"

text \<open>A leader whose log is stable and whose vectors are in range at the peer \<open>i\<close>.\<close>

definition leads :: "int \<Rightarrow> raft \<Rightarrow> bool" where
  "leads i l \<longleftrightarrow> raft_ok l \<and> m_state l = leader \<and> m_stableLogIndex l = getLastLogIndex l
     \<and> 0 \<le> m_lastSnapshotIndex l \<and> 0 \<le> i \<and> i < int (m_peers_size l)
     \<and> 1 \<le> m_nextIndex l ! nat i \<and> m_nextIndex l ! nat i \<le> getLastLogIndex l + 1
     \<and> m_matchIndex l ! nat i \<le> getLastLogIndex l"

text \<open>A node that can follow the leader: not in a newer term, its snapshot within the leader's log
  and of the same history as far as the leader still has the entry.\<close>

definition follows :: "raft \<Rightarrow> raft \<Rightarrow> bool" where
  "follows l f \<longleftrightarrow> raft_ok f \<and> m_currentTerm f \<le> m_currentTerm l
     \<and> 0 \<le> m_lastSnapshotIndex f \<and> m_lastSnapshotIndex f \<le> getLastLogIndex l
     \<and> (m_lastSnapshotIndex l \<le> m_lastSnapshotIndex f \<longrightarrow>
          term_at l (m_lastSnapshotIndex f) = m_lastSnapshotTerm f)
     \<and> consistent_logs l f"

text \<open>From some index on that both nodes know with one term, the follower has the leader's entries.\<close>

definition repaired :: "raft \<Rightarrow> raft \<Rightarrow> bool" where
  "repaired l f \<longleftrightarrow> getLastLogIndex l \<le> getLastLogIndex f
     \<and> (\<exists>p. m_lastSnapshotIndex l \<le> p \<and> m_lastSnapshotIndex f \<le> p \<and> p \<le> getLastLogIndex l
          \<and> term_at f p = term_at l p
          \<and> (\<forall>j. p < j \<and> j \<le> getLastLogIndex l \<longrightarrow> entry_at f j = entry_at l j))"

text \<open>The number of delivered rounds that are enough.\<close>

definition repair_bound :: "int \<Rightarrow> raft \<Rightarrow> raft \<Rightarrow> nat" where
  "repair_bound i l f =
     (let prev = m_nextIndex l ! nat i - 1; ls = m_lastSnapshotIndex l; fs = m_lastSnapshotIndex f in
      if prev < ls then 3
      else if prev < fs then 2
      else if fs < ls then 4 + nat (prev - ls)
      else 1 + nat (prev - fs))"

section \<open>What an append writes\<close>

lemma entry_at_written:
  assumes "m_logs f' = take (nat (p - m_lastSnapshotIndex f)) (m_logs f) @ es
      @ drop (nat (p - m_lastSnapshotIndex f) + length es) (m_logs f)"
    "m_lastSnapshotIndex f' = m_lastSnapshotIndex f" "log_ok f"
    "m_lastSnapshotIndex f \<le> p" "p \<le> getLastLogIndex f"
  shows "p < j \<Longrightarrow> j \<le> p + int (length es) \<Longrightarrow> entry_at f' j = es ! nat (j - p - 1)"
    "m_lastSnapshotIndex f < j \<Longrightarrow> j \<le> p \<Longrightarrow> entry_at f' j = entry_at f j"
    "int (length (m_logs f')) = max (int (length (m_logs f))) (p - m_lastSnapshotIndex f + int (length es))"
proof -
  let ?k = "nat (p - m_lastSnapshotIndex f)"
  have k: "?k \<le> length (m_logs f)" using assms(3,5) by (simp add: last_index_contiguous nat_le_iff)
  show "entry_at f' j = es ! nat (j - p - 1)" if "p < j" "j \<le> p + int (length es)"
  proof -
    have "nat (j - m_lastSnapshotIndex f - 1) = ?k + nat (j - p - 1)" using that assms(4) by simp
    moreover have "nat (j - p - 1) < length es" using that by (simp add: nat_less_iff)
    ultimately show ?thesis using k by (simp add: entry_at_def assms(1,2) nth_append)
  qed
  show "entry_at f' j = entry_at f j" if "m_lastSnapshotIndex f < j" "j \<le> p"
  proof -
    have "nat (j - m_lastSnapshotIndex f - 1) < ?k" using that by simp
    then show ?thesis using k by (simp add: entry_at_def assms(1,2) nth_append)
  qed
  show "int (length (m_logs f')) = max (int (length (m_logs f))) (p - m_lastSnapshotIndex f + int (length es))"
    using k assms(4) by (auto simp: assms(1) max_def)
qed

lemma nth_log_slice:
  assumes "log_ok l" "m_lastSnapshotIndex l \<le> p" "p < j" "j \<le> q" "q \<le> getLastLogIndex l"
  shows "log_slice l p q ! nat (j - p - 1) = entry_at l j"
proof -
  have "nat (p - m_lastSnapshotIndex l) + nat (j - p - 1) = nat (j - m_lastSnapshotIndex l - 1)"
    using assms by simp
  then show ?thesis
    using assms by (simp add: log_slice_def entry_at_def last_index_contiguous nat_less_iff)
qed

section \<open>An append round\<close>

lemma follows_same_log:
  assumes "follows l f" "raft_ok f'" "m_logs f' = m_logs f" "m_currentTerm f' \<le> m_currentTerm l"
    "m_lastSnapshotIndex f' = m_lastSnapshotIndex f" "m_lastSnapshotTerm f' = m_lastSnapshotTerm f"
  shows "follows l f'"
proof -
  have "getLastLogIndex f' = getLastLogIndex f"
    using assms(1,2,3,5) by (simp add: follows_def raft_ok_def last_index_contiguous)
  then show ?thesis using assms by (simp add: follows_def consistent_logs_def entry_at_def)
qed

lemma slice_not_contradicts:
  assumes "log_ok l" "m_lastSnapshotIndex l \<le> p" "p \<le> q" "q \<le> getLastLogIndex l" "consistent_logs l f"
    "e \<in> set (log_slice l p q)"
  shows "\<not> contradicts f e"
proof -
  from log_slice_facts [OF assms(1-4)] have len: "int (length (log_slice l p q)) = q - p"
    and cont: "contiguous p (log_slice l p q)" by auto
  obtain k where k: "k < length (log_slice l p q)" "e = log_slice l p q ! k"
    using assms(6) by (auto simp: in_set_conv_nth)
  then have idx: "logindex e = p + 1 + int k" using cont by (simp add: contiguous_nth)
  then have "e = entry_at l (logindex e)"
    using nth_log_slice [OF assms(1,2), of "logindex e" q] k len assms(4) by auto
  moreover have "m_lastSnapshotIndex l < logindex e" "logindex e \<le> getLastLogIndex l"
    using idx k(1) len assms(2,4) by auto
  ultimately show ?thesis
    using assms(5) unfolding contradicts_def consistent_logs_def by metis
qed

lemma append_round_accepts:
  assumes "leads i l" "follows l f" "p = m_nextIndex l ! nat i - 1"
    "m_lastSnapshotIndex l \<le> p" "m_lastSnapshotIndex f \<le> p" "p \<le> getLastLogIndex f"
    "term_at l p = term_at f p"
  obtains f' where "AppendEntries now (append_request l (p + 1)) True f =
      Inr (f', \<lparr>aer_term = m_currentTerm l, aer_success = True, aer_updatenextindex = -100\<rparr>)"
    "follows l f'" "m_lastSnapshotIndex f' = m_lastSnapshotIndex f" "repaired l f'"
    "m_commitIndex l \<le> m_commitIndex f'"
proof -
  let ?q = "getLastLogIndex l"
  let ?req = "append_request l (p + 1)"
  let ?es = "log_slice l p ?q"
  have okl: "log_ok l" and okf: "raft_ok f" "log_ok f" and con: "consistent_logs l f"
    and p: "p \<le> ?q" and st: "m_stableLogIndex l = ?q"
    using assms(1-3) by (auto simp: leads_def follows_def raft_ok_def)
  have fields: "ae_term ?req = m_currentTerm l" "ae_prevlogindex ?req = p" "ae_entries ?req = ?es"
    "ae_prevlogterm ?req = term_at l p" "ae_leadercommit ?req = m_commitIndex l"
    by (simp_all add: append_request_def st)
  from log_slice_facts [OF okl assms(4) p order_refl]
  have len: "int (length ?es) = ?q - p" and cont: "contiguous p ?es" by auto
  have "matching ?req f"
    using assms(2,5-7) slice_not_contradicts [OF okl assms(4) p order_refl con] cont
    by (auto simp: matching_def fields follows_def)
  from append_matching [OF okf(1) this, of now] obtain f' where
    run: "AppendEntries now ?req True f =
      Inr (f', \<lparr>aer_term = m_currentTerm l, aer_success = True, aer_updatenextindex = -100\<rparr>)"
    and okf': "raft_ok f'" and tm: "m_currentTerm f' = m_currentTerm l"
    and logs: "m_logs f' = take (nat (p - m_lastSnapshotIndex f)) (m_logs f) @ ?es
      @ drop (nat (p - m_lastSnapshotIndex f) + length ?es) (m_logs f)"
    and com: "m_commitIndex f' = max (m_commitIndex f) (min (m_commitIndex l) (getLastLogIndex f'))"
    by (auto simp: fields req_start_def)
  have snap: "m_lastSnapshotIndex f' = m_lastSnapshotIndex f" "m_lastSnapshotTerm f' = m_lastSnapshotTerm f"
    using AppendEntries_frame [OF run] by auto
  note w = entry_at_written [OF logs snap(1) okf(2) assms(5,6)]
  have new: "entry_at f' j = entry_at l j" if "p < j" "j \<le> ?q" for j
    using w(1) [OF that(1)] nth_log_slice [OF okl assms(4) that order_refl] that len by simp
  have old: "term_at f' p = term_at f p"
    using w(2) [of p] assms(5) snap by (cases "p = m_lastSnapshotIndex f") (auto simp: term_at_def)
  have last: "?q \<le> getLastLogIndex f'"
    using w(3) len okf' snap(1) by (simp add: raft_ok_def last_index_contiguous)
  have "consistent_logs l f'"
    unfolding consistent_logs_def
  proof (intro allI impI)
    fix j assume j: "m_lastSnapshotIndex l < j" "m_lastSnapshotIndex f' < j" "j \<le> ?q"
      "logterm (entry_at f' j) = logterm (entry_at l j)"
    show "command (entry_at f' j) = command (entry_at l j)"
    proof (cases "p < j")
      case False
      with j w(2) [of j] con assms(6) snap show ?thesis by (simp add: consistent_logs_def)
    qed (use new j in simp)
  qed
  then have "follows l f'"
    using assms(2) okf' tm snap by (simp add: follows_def)
  moreover have "repaired l f'"
    using last new old assms(4,5,7) p snap(1) unfolding repaired_def by (intro conjI exI [of _ p]) auto
  moreover have "m_commitIndex l \<le> m_commitIndex f'"
    using com last assms(1) by (simp add: leads_def raft_ok_defs)
  ultimately show thesis using run snap(1) that by blast
qed

lemma append_round_refuses:
  assumes "leads i l" "follows l f" "p = m_nextIndex l ! nat i - 1"
    "m_lastSnapshotIndex l \<le> p"
    "p < m_lastSnapshotIndex f \<or> getLastLogIndex f < p \<or> term_at l p \<noteq> term_at f p"
  obtains f' m where "AppendEntries now (append_request l (p + 1)) True f =
      Inr (f', \<lparr>aer_term = m_currentTerm l, aer_success = False, aer_updatenextindex = m\<rparr>)"
    "follows l f'" "m_lastSnapshotIndex f' = m_lastSnapshotIndex f" "m_lastSnapshotIndex f < m"
    "p < m_lastSnapshotIndex f \<longrightarrow> m = m_lastSnapshotIndex f + 1"
    "m_lastSnapshotIndex f \<le> p \<longrightarrow> m \<le> p" "m_commitIndex f' = m_commitIndex f"
proof -
  let ?req = "append_request l (p + 1)"
  let ?a = "ae_accept now ?req f"
  have okf: "raft_ok f" "log_ok f" and tm: "m_currentTerm f \<le> m_currentTerm l"
    using assms(2) by (auto simp: follows_def raft_ok_def)
  have fields: "ae_term ?req = m_currentTerm l" "ae_prevlogindex ?req = p"
    "ae_prevlogterm ?req = term_at l p"
    by (simp_all add: append_request_def)
  have foll: "follows l (persistState ?a)"
    using assms(2) tm by (rule_tac follows_same_log [OF assms(2)]) (auto simp: fields okf)
  have last: "m_lastSnapshotIndex f \<le> getLastLogIndex f"
    using okf(2) by (simp add: last_index_contiguous)
  consider (ahead) "getLastLogIndex f < p" | (behind) "p \<le> getLastLogIndex f" "p < m_lastSnapshotIndex f"
    | (differ) "p \<le> getLastLogIndex f" "m_lastSnapshotIndex f \<le> p" "term_at l p \<noteq> term_at f p"
    using assms(5) by linarith
  then show thesis
  proof cases
    case differ
    have pt: "prev_term ln ?req ?a = Inr (term_at f p)" for ln
      using prev_term_ok [of ?a ?req ln] differ okf by (simp add: term_at_def entry_at_def fields)
    have ta: "term_at ?a p = term_at f p" by (simp add: term_at_def entry_at_def)
    have "p \<noteq> m_lastSnapshotIndex f"
      using differ assms(2,4) by (auto simp: follows_def term_at_def)
    then have gt: "m_lastSnapshotIndex f < p" using differ by simp
    obtain m where m: "ae_backtrack ?a (term_at f p) p = Inr m" "m_lastSnapshotIndex f < m"
      "m \<le> max (p + 1) (m_lastSnapshotIndex f + 1)"
      "m > m_lastSnapshotIndex f + 1 \<longrightarrow> term_at ?a (m - 1) \<noteq> term_at f p"
      using ae_backtrack_spec [of ?a p "term_at f p"] differ okf by auto
    have "m \<noteq> p + 1" using m(4) gt ta by auto
    then have "m \<le> p" using m(3) gt by auto
    moreover have "AppendEntries now ?req True f = Inr (persistState ?a,
        \<lparr>aer_term = m_currentTerm l, aer_success = False, aer_updatenextindex = m\<rparr>)"
      using differ tm pt m(1) by (simp add: append_defs fields refuse_def)
    ultimately show thesis using foll m(2) gt that by simp
  qed (use tm foll last in \<open>auto simp: append_defs fields refuse_def intro: that\<close>)
qed

section \<open>The leader's side of a round\<close>

text \<open>What the rounds do not change on the leader, as far as the follower is concerned.\<close>

definition same_log :: "raft \<Rightarrow> raft \<Rightarrow> bool" where
  "same_log l l' \<longleftrightarrow> m_logs l' = m_logs l \<and> m_lastSnapshotIndex l' = m_lastSnapshotIndex l
     \<and> m_lastSnapshotTerm l' = m_lastSnapshotTerm l \<and> m_currentTerm l' = m_currentTerm l"

lemma same_log_refl [simp]: "same_log l l"
  by (simp add: same_log_def)

lemma same_log_last: "same_log l l' \<Longrightarrow> getLastLogIndex l' = getLastLogIndex l"
  by (simp add: same_log_def getLastLogIndex_def getLastLogIndexandTerm_def)

lemma same_log_follows: "same_log l l' \<Longrightarrow> follows l' f = follows l f"
  using same_log_last [of l l']
  by (simp add: follows_def consistent_logs_def term_at_def entry_at_def same_log_def)

lemma same_log_repaired: "same_log l l' \<Longrightarrow> repaired l' f = repaired l f"
  using same_log_last [of l l']
  by (simp add: repaired_def term_at_def entry_at_def same_log_def)

definition told :: "int \<Rightarrow> raft \<Rightarrow> bool" where
  "told i l \<longleftrightarrow> m_matchIndex l ! nat i = getLastLogIndex l \<and> m_nextIndex l ! nat i = getLastLogIndex l + 1"

lemma accepted_answer:
  assumes "leads i l" "m_lastSnapshotIndex l < m_nextIndex l ! nat i"
  obtains l' k where "handleAppendEntries i (append_request l (m_nextIndex l ! nat i))
      \<lparr>aer_term = m_currentTerm l, aer_success = True, aer_updatenextindex = n\<rparr> 0 True l = Inr (l', k)"
    "leads i l'" "same_log l l'" "told i l'" "m_commitIndex l \<le> m_commitIndex l'"
proof -
  let ?q = "getLastLogIndex l" and ?n = "m_nextIndex l ! nat i"
  let ?req = "append_request l ?n"
  have ok: "raft_ok l" and i: "0 \<le> i" "i < int (length (m_matchIndex l))" "i < int (length (m_nextIndex l))"
    and st: "m_state l = leader" "m_stableLogIndex l = ?q" and n: "?n \<le> ?q + 1"
    and m: "m_matchIndex l ! nat i \<le> ?q"
    using assms(1) by (auto simp: leads_def raft_ok_defs)
  have q: "ae_prevlogindex ?req + int (length (ae_entries ?req)) = ?q"
    using log_slice_facts(1) [of l "?n - 1" ?q] ok n assms(2) st by (simp add: append_request_def raft_ok_def)
  let ?l = "l\<lparr>m_matchIndex := (m_matchIndex l)[nat i := ?q], m_nextIndex := (m_nextIndex l)[nat i := ?q + 1]\<rparr>"
  have okl: "raft_ok ?l" by (rule raft_ok_vectors' [OF ok]) simp_all
  obtain c where c: "advanceCommitIndex ?l = Inr (?l\<lparr>m_commitIndex := c\<rparr>)" "m_commitIndex l \<le> c" "c \<le> ?q"
    using advanceCommitIndex_ok [OF okl] ok by (auto simp: raft_ok_defs)
  have run: "handleAppendEntries i ?req
      \<lparr>aer_term = m_currentTerm l, aer_success = True, aer_updatenextindex = n\<rparr> 0 True l
      = Inr (?l\<lparr>m_commitIndex := c\<rparr>, 1)"
    using i st q m c(1)
    by (simp add: handleAppendEntries_def vec_at_in_range vec_put_in_range Let_def max_absorb2)
  have same: "same_log l (?l\<lparr>m_commitIndex := c\<rparr>)" by (simp add: same_log_def)
  have "raft_ok (?l\<lparr>m_commitIndex := c\<rparr>)"
    using c(2,3) by (intro raft_ok_set_commit [OF okl]) simp_all
  then have "leads i (?l\<lparr>m_commitIndex := c\<rparr>)"
    using assms i by (simp add: leads_def same_log_last [OF same] nat_less_iff)
  moreover have "told i (?l\<lparr>m_commitIndex := c\<rparr>)"
    using i by (simp add: told_def same_log_last [OF same] nat_less_iff)
  ultimately show thesis using run same c(2) that [of "?l\<lparr>m_commitIndex := c\<rparr>" 1] by simp
qed

lemma refused_answer:
  assumes "leads i l" "1 \<le> m" "m \<le> getLastLogIndex l + 1"
  shows "handleAppendEntries i req
      \<lparr>aer_term = m_currentTerm l, aer_success = False, aer_updatenextindex = m\<rparr> 0 True l
      = Inr (l\<lparr>m_nextIndex := (m_nextIndex l)[nat i := m]\<rparr>, 0)"
    "leads i (l\<lparr>m_nextIndex := (m_nextIndex l)[nat i := m]\<rparr>)"
    "m_nextIndex (l\<lparr>m_nextIndex := (m_nextIndex l)[nat i := m]\<rparr>) ! nat i = m"
proof -
  let ?l = "l\<lparr>m_nextIndex := (m_nextIndex l)[nat i := m]\<rparr>"
  have ok: "raft_ok l" and i: "0 \<le> i" "i < int (length (m_nextIndex l))" and st: "m_state l = leader"
    using assms(1) by (auto simp: leads_def raft_ok_defs)
  show "handleAppendEntries i req
      \<lparr>aer_term = m_currentTerm l, aer_success = False, aer_updatenextindex = m\<rparr> 0 True l = Inr (?l, 0)"
    using assms(2) i st by (simp add: handleAppendEntries_def vec_put_in_range)
  have "raft_ok ?l" using ok by (simp add: raft_ok_defs log_ok_def)
  then show "leads i ?l" using assms i by (simp add: leads_def nat_less_iff)
  show "m_nextIndex ?l ! nat i = m" using i by (simp add: nat_less_iff)
qed

section \<open>A snapshot round\<close>

lemma InstallSnapshot_old_term:
  "InstallSnapshot now args r = Inr (r', rep) \<Longrightarrow>
   is_lastsnapshotincludeindex args \<le> m_lastSnapshotIndex r \<Longrightarrow> m_lastSnapshotTerm r' = m_lastSnapshotTerm r"
  by (auto simp: InstallSnapshot_def install_begin_def rbind_eq_Inr Let_def split: if_splits)

lemma snapshot_round:
  assumes "leads i l" "follows l f"
  obtains f' where "InstallSnapshot now (leaderSendSnapShot l) f = Inr (f', \<lparr>isr_term = m_currentTerm l\<rparr>)"
    "follows l f'" "m_lastSnapshotIndex l \<le> m_lastSnapshotIndex f'"
    "m_lastSnapshotIndex f' = max (m_lastSnapshotIndex f) (m_lastSnapshotIndex l)"
    "m_commitIndex f \<le> m_commitIndex f'"
proof -
  let ?args = "leaderSendSnapShot l"
  have ok: "raft_ok f" and tm: "m_currentTerm f \<le> m_currentTerm l"
    and ls: "m_lastSnapshotIndex l \<le> getLastLogIndex l" "0 \<le> m_lastSnapshotIndex l"
    using assms by (auto simp: leads_def follows_def raft_ok_def last_index_contiguous)
  have fields: "is_term ?args = m_currentTerm l" "is_lastsnapshotincludeindex ?args = m_lastSnapshotIndex l"
    "is_lastsnapshotincludeterm ?args = m_lastSnapshotTerm l"
    by (simp_all add: leaderSendSnapShot_def)
  obtain f' rep where run: "InstallSnapshot now ?args f = Inr (f', rep)"
    using InstallSnapshot_total [OF ok] by blast
  from ok run show thesis
  proof (cases rule: InstallSnapshot_cases)
    case refused
    then show ?thesis using tm by (simp add: fields)
  next
    case old
    have "follows l f'"
      using old InstallSnapshot_old_term [OF run old(2)]
      by (intro follows_same_log [OF assms(2)]) (auto simp: fields)
    moreover have "rep = \<lparr>isr_term = m_currentTerm l\<rparr>" using old by (simp add: fields)
    ultimately show ?thesis using run old that [of f'] by (simp add: fields)
  next
    case installed
    have "entry_at f' j = entry_at f j" if "m_lastSnapshotIndex l < j" "j \<le> getLastLogIndex f" for j
    proof -
      have "nat (m_lastSnapshotIndex l - m_lastSnapshotIndex f) + nat (j - m_lastSnapshotIndex l - 1)
          = nat (j - m_lastSnapshotIndex f - 1)"
        using that(1) installed(2) by (simp add: fields)
      then show ?thesis
        using that installed(2,8,10) ok
        by (simp add: entry_at_def fields log_above_def raft_ok_def last_index_contiguous)
    qed
    then have "consistent_logs l f'"
      using assms(2) installed(2,9,10) by (auto simp: consistent_logs_def follows_def fields)
    then have "follows l f'"
      using installed ls by (simp add: follows_def fields term_at_def)
    moreover have "rep = \<lparr>isr_term = m_currentTerm l\<rparr>" using installed by (simp add: fields)
    ultimately show ?thesis using run installed that [of f'] by (simp add: fields)
  qed
qed

lemma snapshot_answer:
  assumes "leads i l"
  obtains l' where "leaderSendSnapShotHandler now True (leaderSendSnapShot l)
      \<lparr>isr_term = m_currentTerm l\<rparr> i l = Inr (l', True)"
    "leads i l'" "same_log l l'" "m_nextIndex l' ! nat i = m_lastSnapshotIndex l + 1"
    "m_commitIndex l' = m_commitIndex l"
proof -
  let ?s = "m_lastSnapshotIndex l"
  let ?l = "l\<lparr>m_matchIndex := (m_matchIndex l)[nat i := ?s], m_nextIndex := (m_nextIndex l)[nat i := ?s + 1]\<rparr>"
  have i: "0 \<le> i" "i < int (length (m_matchIndex l))" "i < int (length (m_nextIndex l))"
    and ok: "raft_ok l" and st: "m_state l = leader"
    using assms by (auto simp: leads_def raft_ok_defs)
  have run: "leaderSendSnapShotHandler now True (leaderSendSnapShot l) \<lparr>isr_term = m_currentTerm l\<rparr> i l
      = Inr (?l, True)"
    using i st by (simp add: leaderSendSnapShotHandler_def leaderSendSnapShot_def vec_put_in_range)
  have same: "same_log l ?l" by (simp add: same_log_def)
  have "raft_ok ?l" by (rule raft_ok_vectors' [OF ok]) simp_all
  moreover have "?s \<le> getLastLogIndex l" using ok by (simp add: raft_ok_def last_index_contiguous)
  ultimately have "leads i ?l"
    using assms i by (simp add: leads_def same_log_last [OF same] nat_less_iff)
  then show thesis using run same i that [of ?l] by (simp add: nat_less_iff)
qed

section \<open>One round\<close>

lemma hb_peer_leads:
  assumes "leads i l"
  shows "hb_peer l i = Inr (l, if m_nextIndex l ! nat i \<le> m_lastSnapshotIndex l then HB_snapshot
     else HB_append (append_request l (m_nextIndex l ! nat i)))"
proof -
  have "m_lastSnapshotIndex l \<le> m_stableLogIndex l"
    using assms by (simp add: leads_def raft_ok_def last_index_contiguous)
  then show ?thesis using assms by (subst hb_peer_cases) (auto simp: leads_def)
qed

lemma AppendEntries_commit_mono:
  assumes "raft_ok f" "AppendEntries now req b f = Inr (f', rep)"
  shows "m_commitIndex f \<le> m_commitIndex f'"
proof -
  have "m_commitIndex f \<le> m_commitIndex (ae_commit req ps (ae_accept now req f))"
    if "ae_validate (ae_accept now req f) (getLastLogIndex f) ps = None" for ps
    using ae_commit_ok(3) [of "ae_accept now req f" ps req] that assms(1) by simp
  with assms show ?thesis
    by (auto simp: AppendEntries_def ae_begin_def ae_finish_def Let_def rbind_eq_Inr
        split: if_splits option.splits ae_outcome.splits)
qed

text \<open>The follower's log ends where the leader's does, or later, and agrees with it at the end.\<close>

lemma repaired_at_end:
  assumes "repaired l f"
  shows "m_lastSnapshotIndex f \<le> getLastLogIndex l" "getLastLogIndex l \<le> getLastLogIndex f"
    "term_at l (getLastLogIndex l) = term_at f (getLastLogIndex l)"
proof -
  obtain p where p: "m_lastSnapshotIndex l \<le> p" "m_lastSnapshotIndex f \<le> p" "p \<le> getLastLogIndex l"
    "term_at f p = term_at l p" "\<forall>j. p < j \<and> j \<le> getLastLogIndex l \<longrightarrow> entry_at f j = entry_at l j"
    using assms by (auto simp: repaired_def)
  then show "m_lastSnapshotIndex f \<le> getLastLogIndex l" by simp
  show "getLastLogIndex l \<le> getLastLogIndex f" using assms by (simp add: repaired_def)
  show "term_at l (getLastLogIndex l) = term_at f (getLastLogIndex l)"
    using p by (cases "p = getLastLogIndex l") (auto simp: term_at_def)
qed

definition settled :: "int \<Rightarrow> raft \<Rightarrow> raft \<Rightarrow> bool" where
  "settled i l f \<longleftrightarrow> told i l \<and> repaired l f"

text \<open>What every round keeps, delivered or not.\<close>

definition round_keeps :: "int \<Rightarrow> raft \<Rightarrow> raft \<Rightarrow> raft \<Rightarrow> raft \<Rightarrow> bool" where
  "round_keeps i l f l' f' \<longleftrightarrow> leads i l' \<and> follows l' f' \<and> same_log l l'
     \<and> m_commitIndex l \<le> m_commitIndex l' \<and> m_commitIndex f \<le> m_commitIndex f'
     \<and> m_lastSnapshotIndex f' \<le> max (m_lastSnapshotIndex f) (m_lastSnapshotIndex l)
     \<and> m_lastSnapshotIndex f \<le> m_lastSnapshotIndex f'"

lemma repl_round_snapshot:
  assumes "leads i l" "follows l f" "m_nextIndex l ! nat i \<le> m_lastSnapshotIndex l"
  obtains l' f' where "repl_round now i d (l, f) = Inr (l', f')" "round_keeps i l f l' f'"
    "d \<noteq> Delivered \<longrightarrow> repair_bound i l' f' \<le> repair_bound i l f"
    "d = Delivered \<longrightarrow> repair_bound i l' f' < repair_bound i l f"
proof -
  note hb = hb_peer_leads [OF assms(1)]
  obtain f' where f': "InstallSnapshot now (leaderSendSnapShot l) f = Inr (f', \<lparr>isr_term = m_currentTerm l\<rparr>)"
    "follows l f'" "m_lastSnapshotIndex f' = max (m_lastSnapshotIndex f) (m_lastSnapshotIndex l)"
    "m_commitIndex f \<le> m_commitIndex f'"
    using snapshot_round [OF assms(1,2), where now = now] by blast
  obtain l' where l': "leaderSendSnapShotHandler now True (leaderSendSnapShot l)
      \<lparr>isr_term = m_currentTerm l\<rparr> i l = Inr (l', True)"
    "leads i l'" "same_log l l'" "m_nextIndex l' ! nat i = m_lastSnapshotIndex l + 1"
    "m_commitIndex l' = m_commitIndex l"
    using snapshot_answer [OF assms(1), where now = now] by blast
  have b: "repair_bound i l g = 3" for g using assms(3) by (simp add: repair_bound_def)
  have lsf: "m_lastSnapshotIndex l' = m_lastSnapshotIndex l" using l'(3) by (simp add: same_log_def)
  show thesis
  proof (cases d)
    case Lost_request
    then have "repl_round now i d (l, f) = Inr (l, f)" by (simp add: repl_round_def hb)
    then show thesis using Lost_request assms that by (simp add: round_keeps_def)
  next
    case Lost_answer
    then have "repl_round now i d (l, f) = Inr (l, f')"
      using assms(3) f'(1) by (simp add: repl_round_def hb leaderSendSnapShotHandler_def)
    then show thesis using Lost_answer assms f' that [of l f'] by (simp add: round_keeps_def b)
  next
    case Delivered
    then have "repl_round now i d (l, f) = Inr (l', f')"
      using assms(3) f'(1) l'(1) by (simp add: repl_round_def hb)
    moreover have "repair_bound i l' f' < 3"
      using l'(4) f'(3) by (simp add: repair_bound_def Let_def lsf)
    moreover have "follows l' f'" using f'(2) l'(3) by (simp add: same_log_follows)
    ultimately show thesis using Delivered f' l' that [of l' f'] by (simp add: round_keeps_def b)
  qed
qed

lemma repair_bound_refused:
  assumes "p = m_nextIndex l ! nat i - 1" "m_lastSnapshotIndex l \<le> p" "m_nextIndex l' ! nat i = m"
    "m_lastSnapshotIndex l' = m_lastSnapshotIndex l" "m_lastSnapshotIndex f' = m_lastSnapshotIndex f"
    "m_lastSnapshotIndex f < m" "p < m_lastSnapshotIndex f \<longrightarrow> m = m_lastSnapshotIndex f + 1"
    "m_lastSnapshotIndex f \<le> p \<longrightarrow> m \<le> p"
  shows "repair_bound i l' f' < repair_bound i l f"
proof -
  have eq: "repair_bound i l' f' = (if m - 1 < m_lastSnapshotIndex l then 3
      else if m_lastSnapshotIndex f < m_lastSnapshotIndex l then 4 + nat (m - 1 - m_lastSnapshotIndex l)
      else 1 + nat (m - 1 - m_lastSnapshotIndex f))"
    using assms(3-6) by (simp add: repair_bound_def Let_def)
  show ?thesis
  proof (cases "p < m_lastSnapshotIndex f")
    case True
    with assms have "repair_bound i l f = 2" by (simp add: repair_bound_def Let_def)
    moreover have "repair_bound i l' f' = 1" using True assms by (simp add: eq)
    ultimately show ?thesis by simp
  next
    case False
    with assms show ?thesis by (auto simp: eq) (auto simp: repair_bound_def Let_def)
  qed
qed

lemma repl_round_append:
  assumes "leads i l" "follows l f" "m_lastSnapshotIndex l < m_nextIndex l ! nat i"
  obtains l' f' where "repl_round now i d (l, f) = Inr (l', f')" "round_keeps i l f l' f'"
    "d \<noteq> Delivered \<longrightarrow> repair_bound i l' f' = repair_bound i l f"
    "d = Delivered \<longrightarrow> settled i l' f' \<and> m_commitIndex l \<le> m_commitIndex f'
       \<or> repair_bound i l' f' < repair_bound i l f"
    "settled i l f \<longrightarrow> settled i l' f'"
proof -
  let ?n = "m_nextIndex l ! nat i"
  let ?p = "?n - 1"
  let ?req = "append_request l ?n"
  have hb: "hb_peer l i = Inr (l, HB_append ?req)"
    using hb_peer_leads [OF assms(1)] assms(3) by simp
  have okf: "raft_ok f" using assms(2) by (simp add: follows_def)
  have p: "m_lastSnapshotIndex l \<le> ?p" using assms(3) by simp
  have same_bound: "repair_bound i l f' = repair_bound i l f"
    if "m_lastSnapshotIndex f' = m_lastSnapshotIndex f" for f'
    using that by (simp add: repair_bound_def)
  have lost: "repl_round now i Lost_request (l, f) = Inr (l, f)" by (simp add: repl_round_def hb)
  show thesis
  proof (cases "m_lastSnapshotIndex f \<le> ?p \<and> ?p \<le> getLastLogIndex f \<and> term_at l ?p = term_at f ?p")
    case True
    then obtain f' where f': "AppendEntries now ?req True f =
        Inr (f', \<lparr>aer_term = m_currentTerm l, aer_success = True, aer_updatenextindex = -100\<rparr>)"
      "follows l f'" "m_lastSnapshotIndex f' = m_lastSnapshotIndex f" "repaired l f'"
      "m_commitIndex l \<le> m_commitIndex f'"
      using append_round_accepts [OF assms(1,2) refl p, where now = now] by auto
    obtain l' k where l': "handleAppendEntries i ?req
        \<lparr>aer_term = m_currentTerm l, aer_success = True, aer_updatenextindex = -100\<rparr> 0 True l = Inr (l', k)"
      "leads i l'" "same_log l l'" "told i l'" "m_commitIndex l \<le> m_commitIndex l'"
      using accepted_answer [OF assms(1,3), where n = "-100"] by blast
    have mono: "m_commitIndex f \<le> m_commitIndex f'"
      by (rule AppendEntries_commit_mono [OF okf f'(1)])
    show thesis
    proof (cases d)
      case Lost_request
      then show thesis using lost assms that by (simp add: round_keeps_def)
    next
      case Lost_answer
      then have "repl_round now i d (l, f) = Inr (l, f')"
        using f'(1) by (simp add: repl_round_def hb handleAppendEntries_def)
      moreover have "round_keeps i l f l f'"
        using assms(1) f'(2,3) mono by (simp add: round_keeps_def)
      ultimately show thesis
        using Lost_answer f'(4) same_bound [OF f'(3)] by (intro that [of l f']) (simp_all add: settled_def)
    next
      case Delivered
      then have "repl_round now i d (l, f) = Inr (l', f')"
        using f'(1) l'(1) by (simp add: repl_round_def hb)
      moreover have "follows l' f'" "settled i l' f'"
        using f'(2,4) l'(3,4) by (simp_all add: same_log_follows same_log_repaired settled_def)
      moreover have "round_keeps i l f l' f'"
        using \<open>follows l' f'\<close> f'(3) l'(2,3,5) mono by (simp add: round_keeps_def)
      ultimately show thesis using Delivered f'(5) by (intro that [of l' f']) simp_all
    qed
  next
    case False
    then obtain f' m where f': "AppendEntries now ?req True f =
        Inr (f', \<lparr>aer_term = m_currentTerm l, aer_success = False, aer_updatenextindex = m\<rparr>)"
      "follows l f'" "m_lastSnapshotIndex f' = m_lastSnapshotIndex f" "m_lastSnapshotIndex f < m"
      "?p < m_lastSnapshotIndex f \<longrightarrow> m = m_lastSnapshotIndex f + 1"
      "m_lastSnapshotIndex f \<le> ?p \<longrightarrow> m \<le> ?p" "m_commitIndex f' = m_commitIndex f"
      using append_round_refuses [OF assms(1,2) refl p, where now = now] by (fastforce simp: not_le)
    let ?l = "l\<lparr>m_nextIndex := (m_nextIndex l)[nat i := m]\<rparr>"
    have not: "\<not> settled i l f"
      using False repaired_at_end [of l f] by (auto simp: settled_def told_def)
    have m: "1 \<le> m" "m \<le> getLastLogIndex l + 1"
      using f'(4-6) assms(1,2) by (auto simp: follows_def leads_def)
    note ans = refused_answer [OF assms(1) m]
    have same: "same_log l ?l" by (simp add: same_log_def)
    show thesis
    proof (cases d)
      case Lost_request
      then show thesis using lost assms not that by (simp add: round_keeps_def)
    next
      case Lost_answer
      then have "repl_round now i d (l, f) = Inr (l, f')"
        using f'(1) by (simp add: repl_round_def hb handleAppendEntries_def)
      moreover have "round_keeps i l f l f'"
        using assms(1) f'(2,3,7) by (simp add: round_keeps_def)
      ultimately show thesis
        using Lost_answer not same_bound [OF f'(3)] by (intro that [of l f']) simp_all
    next
      case Delivered
      then have "repl_round now i d (l, f) = Inr (?l, f')"
        using f'(1) ans(1) by (simp add: repl_round_def hb)
      moreover have "repair_bound i ?l f' < repair_bound i l f"
        by (rule repair_bound_refused [OF refl p ans(3) _ f'(3-6)]) simp
      moreover have "round_keeps i l f ?l f'"
        using ans(2) same f'(2,3,7) by (simp add: round_keeps_def same_log_follows)
      ultimately show thesis using Delivered not by (intro that [of ?l f']) simp_all
    qed
  qed
qed

lemma settled_next: "leads i l \<Longrightarrow> settled i l f \<Longrightarrow> m_lastSnapshotIndex l < m_nextIndex l ! nat i"
  by (simp add: settled_def told_def leads_def raft_ok_def last_index_contiguous)

lemma repl_round_step:
  assumes "leads i l" "follows l f"
  obtains l' f' where "repl_round now i d (l, f) = Inr (l', f')" "round_keeps i l f l' f'"
    "d \<noteq> Delivered \<longrightarrow> repair_bound i l' f' \<le> repair_bound i l f"
    "d = Delivered \<longrightarrow> settled i l' f' \<and> m_commitIndex l \<le> m_commitIndex f'
       \<or> repair_bound i l' f' < repair_bound i l f"
    "settled i l f \<longrightarrow> settled i l' f'"
proof (cases "m_nextIndex l ! nat i \<le> m_lastSnapshotIndex l")
  case True
  with settled_next [OF assms(1)] have "\<not> settled i l f" by auto
  then show thesis using repl_round_snapshot [OF assms True, where now = now and d = d] that by metis
next
  case False
  then show thesis
    using repl_round_append [OF assms, where now = now and d = d] that by (metis not_le order_refl)
qed

section \<open>The rounds end\<close>

lemma repair_bound_pos: "0 < repair_bound i l f"
  by (simp add: repair_bound_def Let_def)

lemma repair_bound_le:
  "leads i l \<Longrightarrow> repair_bound i l f
     \<le> 4 + nat (getLastLogIndex l - max (m_lastSnapshotIndex l) (m_lastSnapshotIndex f))"
  by (auto simp: repair_bound_def leads_def Let_def max_def)

lemma same_log_trans: "same_log a b \<Longrightarrow> same_log b c \<Longrightarrow> same_log a c"
  by (simp add: same_log_def)

lemma repl_rounds_settle:
  assumes "leads i l" "follows l f" "c \<le> m_commitIndex l"
    "settled i l f \<and> c \<le> m_commitIndex f \<or> repair_bound i l f \<le> count_list ds Delivered"
  shows "\<exists>l' f'. repl_rounds now i ds (l, f) = Inr (l', f') \<and> leads i l' \<and> follows l' f'
    \<and> same_log l l' \<and> settled i l' f' \<and> c \<le> m_commitIndex f'"
  using assms
proof (induction ds arbitrary: l f)
  case Nil
  then show ?case using repair_bound_pos [of i l f] by auto
next
  case (Cons d ds)
  obtain l1 f1 where step: "repl_round now i d (l, f) = Inr (l1, f1)" and keep: "round_keeps i l f l1 f1"
    and lost: "d \<noteq> Delivered \<longrightarrow> repair_bound i l1 f1 \<le> repair_bound i l f"
    and got: "d = Delivered \<longrightarrow> settled i l1 f1 \<and> m_commitIndex l \<le> m_commitIndex f1
       \<or> repair_bound i l1 f1 < repair_bound i l f"
    and stay: "settled i l f \<longrightarrow> settled i l1 f1"
    by (rule repl_round_step [OF Cons.prems(1,2)])
  have "settled i l1 f1 \<and> c \<le> m_commitIndex f1 \<or> repair_bound i l1 f1 \<le> count_list ds Delivered"
    using Cons.prems(3,4) keep lost got stay by (cases d) (auto simp: round_keeps_def)
  moreover have "leads i l1" "follows l1 f1" "c \<le> m_commitIndex l1" "same_log l l1"
    using keep Cons.prems(3) by (auto simp: round_keeps_def)
  ultimately obtain l' f' where "repl_rounds now i ds (l1, f1) = Inr (l', f')" "leads i l'"
    "follows l' f'" "same_log l1 l'" "settled i l' f'" "c \<le> m_commitIndex f'"
    using Cons.IH by blast
  with step \<open>same_log l l1\<close> same_log_trans show ?case by auto
qed

text \<open>
  A leader of term 3 whose second entry is of its own term; the follower of the next witness is
  the node of the theory of appends whose second and third entries come from a leader of term 2.
\<close>

definition repair_leader :: raft where
  "repair_leader = (fresh_node 0 3)\<lparr>m_state := leader, m_currentTerm := 3, m_stableLogIndex := 2,
     m_logs := [\<lparr>command = ''a'', logterm = 1, logindex = 1\<rparr>,
                \<lparr>command = ''d'', logterm = 3, logindex = 2\<rparr>],
     m_commitIndex := 1, m_nextIndex := [3, 3, 3], m_matchIndex := [0, 0, 0]\<rparr>"

lemma repair_sample: "leads 1 repair_leader" "follows repair_leader stale_follower"
proof -
  show "leads 1 repair_leader"
    by (simp add: leads_def raft_ok_defs log_ok_def contiguous_def repair_leader_def fresh_node_eq
        getLastLogIndex_def getLastLogIndexandTerm_def less_Suc_eq numeral_2_eq_2)
  have last: "getLastLogIndex repair_leader = 2" "getLastLogIndex stale_follower = 3"
    "m_lastSnapshotIndex repair_leader = 0" "m_lastSnapshotIndex stale_follower = 0"
    by (simp_all add: repair_leader_def stale_follower_def fresh_node_eq getLastLogIndex_def
        getLastLogIndexandTerm_def)
  have "command (entry_at stale_follower j) = command (entry_at repair_leader j)"
    if "0 < j" "j \<le> 2" "logterm (entry_at stale_follower j) = logterm (entry_at repair_leader j)" for j
  proof -
    have "j = 1 \<or> j = 2" using that by auto
    with that(3) show ?thesis
      by (auto simp: entry_at_def repair_leader_def stale_follower_def fresh_node_eq)
  qed
  then have "consistent_logs repair_leader stale_follower"
    by (simp add: consistent_logs_def last)
  then show "follows repair_leader stale_follower"
    using stale_follower_ok(1) last by (simp add: follows_def term_at_def)
      (simp add: repair_leader_def stale_follower_def fresh_node_eq)
qed

text \<open>C2: Log repair ends. A leader whose log is stable and a peer that can follow it exchange
  rounds in which any request and any answer may be lost. As soon as as many rounds as there are
  entries behind both snapshots, and four more, have been delivered, no handler has failed, the
  leader's log is the old one and it knows that the peer has all of it; and from an index on that
  both know with the same term the peer holds exactly the leader's entries, and has committed at
  least what the leader had committed at the start.\<close>

theorem log_repair_ends:
  "leads i l \<Longrightarrow> follows l f \<Longrightarrow>
   4 + nat (getLastLogIndex l - max (m_lastSnapshotIndex l) (m_lastSnapshotIndex f))
     \<le> count_list ds Delivered \<Longrightarrow>
   \<exists>l' f'. repl_rounds now i ds (l, f) = Inr (l', f') \<and> m_logs l' = m_logs l
     \<and> m_matchIndex l' ! nat i = getLastLogIndex l \<and> m_nextIndex l' ! nat i = getLastLogIndex l + 1
     \<and> raft_ok f' \<and> repaired l f' \<and> m_commitIndex l \<le> m_commitIndex f'"
proof -
  assume l: "leads i l" and f: "follows l f"
    and n: "4 + nat (getLastLogIndex l - max (m_lastSnapshotIndex l) (m_lastSnapshotIndex f))
      \<le> count_list ds Delivered"
  from repair_bound_le [OF l, of f] n have "repair_bound i l f \<le> count_list ds Delivered" by linarith
  with repl_rounds_settle [OF l f order_refl] obtain l' f' where
    run: "repl_rounds now i ds (l, f) = Inr (l', f')" "follows l' f'" "same_log l l'"
    "settled i l' f'" "m_commitIndex l \<le> m_commitIndex f'"
    by blast
  moreover have "m_logs l' = m_logs l" "getLastLogIndex l' = getLastLogIndex l" "repaired l f'"
    using run(3,4) same_log_last [OF run(3)] same_log_repaired [OF run(3)]
    by (auto simp: same_log_def settled_def)
  moreover have "told i l'" "raft_ok f'" using run(2,4) by (simp_all add: settled_def follows_def)
  ultimately show ?thesis unfolding told_def by (intro exI [of _ l'] exI [of _ f']) simp
qed

theorem log_repair_ends_witness:
  "\<exists>l' f'. repl_rounds 5 1 ([Lost_request, Delivered, Lost_answer] @ replicate 5 Delivered)
       (repair_leader, stale_follower) = Inr (l', f')
     \<and> m_matchIndex l' ! 1 = 2 \<and> repaired repair_leader f' \<and> 1 \<le> m_commitIndex f'"
proof -
  have "getLastLogIndex repair_leader = 2" "m_lastSnapshotIndex repair_leader = 0"
    "m_lastSnapshotIndex stale_follower = 0" "m_commitIndex repair_leader = 1"
    by (simp_all add: repair_leader_def stale_follower_def fresh_node_eq getLastLogIndex_def
        getLastLogIndexandTerm_def)
  with log_repair_ends [OF repair_sample, of "[Lost_request, Delivered, Lost_answer] @ replicate 5 Delivered" 5]
  show ?thesis by (auto simp: numeral_eq_Suc)
qed

section \<open>A snapshot of another history\<close>

text \<open>
  The hypothesis on the follower's snapshot is needed: when the leader's entry at the follower's
  snapshot index has another term than the snapshot, the refusal names the same next index again,
  and as the leader sends a snapshot only for a next index that its own snapshot covers, no number
  of rounds changes anything.
\<close>

lemma differing_snapshot_round:
  assumes "leads i l" "raft_ok f" "m_currentTerm f \<le> m_currentTerm l"
    "m_lastSnapshotIndex l \<le> m_lastSnapshotIndex f"
    "m_nextIndex l ! nat i = m_lastSnapshotIndex f + 1"
    "term_at l (m_lastSnapshotIndex f) \<noteq> m_lastSnapshotTerm f" "m_lastSnapshotIndex f \<ge> 0"
  obtains f' where "repl_round now i d (l, f) = Inr (l, f')" "raft_ok f'" "m_logs f' = m_logs f"
    "m_currentTerm f' \<le> m_currentTerm l" "m_lastSnapshotIndex f' = m_lastSnapshotIndex f"
    "m_lastSnapshotTerm f' = m_lastSnapshotTerm f"
proof -
  let ?s = "m_lastSnapshotIndex f"
  let ?req = "append_request l (?s + 1)"
  let ?a = "ae_accept now ?req f"
  have hb: "hb_peer l i = Inr (l, HB_append ?req)"
    using hb_peer_leads [OF assms(1)] assms(4,5) by simp
  have fields: "ae_term ?req = m_currentTerm l" "ae_prevlogindex ?req = ?s"
    "ae_prevlogterm ?req = term_at l ?s"
    by (simp_all add: append_request_def)
  have last: "?s \<le> getLastLogIndex f" using assms(2) by (simp add: raft_ok_def last_index_contiguous)
  have bt: "ae_backtrack ?a (m_lastSnapshotTerm f) ?s = Inr (?s + 1)"
    by (subst ae_backtrack.simps, simp) (subst ae_backtrack.simps, simp)
  have run: "AppendEntries now ?req True f = Inr (persistState ?a,
      \<lparr>aer_term = m_currentTerm l, aer_success = False, aer_updatenextindex = ?s + 1\<rparr>)"
    using assms(3,6) last bt
    by (simp add: append_defs fields prev_term_def refuse_def max_absorb2)
  have "m_nextIndex l ! nat i \<le> getLastLogIndex l + 1" using assms(1) by (simp add: leads_def)
  moreover have "(m_nextIndex l)[nat i := ?s + 1] = m_nextIndex l"
    by (metis list_update_id assms(5))
  ultimately have ans: "handleAppendEntries i ?req
      \<lparr>aer_term = m_currentTerm l, aer_success = False, aer_updatenextindex = ?s + 1\<rparr> 0 True l = Inr (l, 0)"
    using refused_answer(1) [OF assms(1), of "?s + 1" ?req] assms(5,7) by simp
  have "repl_round now i d (l, f) = Inr (l, f) \<or> repl_round now i d (l, f) = Inr (l, persistState ?a)"
  proof (cases d)
    case Lost_answer
    then show ?thesis by (simp add: repl_round_def hb run handleAppendEntries_def)
  qed (simp_all add: repl_round_def hb run ans)
  then show thesis
  proof
    assume "repl_round now i d (l, f) = Inr (l, f)"
    then show thesis by (rule that) (use assms(2,3) in simp_all)
  next
    assume "repl_round now i d (l, f) = Inr (l, persistState ?a)"
    then show thesis by (rule that) (use assms(2,3) in \<open>simp_all add: fields\<close>)
  qed
qed

lemma differing_snapshot_never_repaired:
  assumes "leads i l" "raft_ok f" "m_currentTerm f \<le> m_currentTerm l"
    "m_lastSnapshotIndex l \<le> m_lastSnapshotIndex f"
    "m_nextIndex l ! nat i = m_lastSnapshotIndex f + 1"
    "term_at l (m_lastSnapshotIndex f) \<noteq> m_lastSnapshotTerm f" "m_lastSnapshotIndex f \<ge> 0"
  shows "\<exists>f'. repl_rounds now i ds (l, f) = Inr (l, f') \<and> m_logs f' = m_logs f"
  using assms(2-7)
proof (induction ds arbitrary: f)
  case (Cons d ds)
  obtain f1 where f1: "repl_round now i d (l, f) = Inr (l, f1)" "raft_ok f1" "m_logs f1 = m_logs f"
    "m_currentTerm f1 \<le> m_currentTerm l" "m_lastSnapshotIndex f1 = m_lastSnapshotIndex f"
    "m_lastSnapshotTerm f1 = m_lastSnapshotTerm f"
    by (rule differing_snapshot_round [OF assms(1) Cons.prems, where now = now and d = d]) (rule that)
  then show ?case using Cons.IH [OF f1(2)] Cons.prems by simp
qed simp

end
