(* ===== verification/Skip_List.thy ===== *)
theory Skip_List
  imports KV_Prelude "HOL-Library.Monad_Syntax"
begin

text \<open>
  The skip list of include/common/skipList.h, on a heap of nodes: an address is a number, \<open>NULL\<close>
  is \<open>None\<close>, and an operation is \<open>None\<close> when it would follow an invalid pointer, index a node's
  forward array outside its bounds, or not return. The mutex makes every operation one step.
  \<open>rand\<close> is an argument, the list of the coin flips \<open>get_random_level\<close> makes.
\<close>

section \<open>Nodes and the heap\<close>

type_synonym addr = nat

record ('k, 'v) node =
  node_key :: 'k
  node_value :: 'v
  node_level :: nat
  forward :: "addr option list"

type_synonym ('k, 'v) node_heap = "addr \<Rightarrow> ('k, 'v) node option"

definition new_node :: "'k \<Rightarrow> 'v \<Rightarrow> nat \<Rightarrow> ('k, 'v) node" where
  "new_node k v level = \<lparr>node_key = k, node_value = v, node_level = level,
     forward = replicate (level + 1) None\<rparr>"

text \<open>\<open>p->forward[i]\<close>, read and written.\<close>

definition fwd :: "('k, 'v) node_heap \<Rightarrow> addr \<Rightarrow> nat \<Rightarrow> addr option option" where
  "fwd h p i = (case h p of None \<Rightarrow> None
     | Some n \<Rightarrow> if i < length (forward n) then Some (forward n ! i) else None)"

definition set_fwd :: "('k, 'v) node_heap \<Rightarrow> addr \<Rightarrow> nat \<Rightarrow> addr option \<Rightarrow> ('k, 'v) node_heap option" where
  "set_fwd h p i q = (case h p of None \<Rightarrow> None
     | Some n \<Rightarrow> if i < length (forward n) then Some (h(p \<mapsto> n\<lparr>forward := (forward n)[i := q]\<rparr>)) else None)"

text \<open>
  The list itself; \<open>next_free\<close> is the address the next \<open>new\<close> returns.
\<close>

record ('k, 'v) skip_list =
  max_level :: nat
  skip_list_level :: nat
  header :: addr
  heap :: "('k, 'v) node_heap"
  next_free :: addr
  element_count :: int

definition SkipList :: "'k \<Rightarrow> 'v \<Rightarrow> nat \<Rightarrow> ('k, 'v) skip_list" where
  "SkipList k v m = \<lparr>max_level = m, skip_list_level = 0, header = 0,
     heap = [0 \<mapsto> new_node k v m], next_free = 1, element_count = 0\<rparr>"

section \<open>Searching\<close>

text \<open>The inner loop: from \<open>current\<close> along level \<open>i\<close> while the next key is smaller.\<close>

partial_function (option) walk :: "('k::linorder, 'v) node_heap \<Rightarrow> nat \<Rightarrow> 'k \<Rightarrow> addr \<Rightarrow> addr option" where
  "walk h i key current =
     (case fwd h current i of None \<Rightarrow> None
      | Some None \<Rightarrow> Some current
      | Some (Some a) \<Rightarrow>
          (case h a of None \<Rightarrow> None
           | Some n \<Rightarrow> if node_key n < key then walk h i key a else Some current))"

text \<open>The outer loop, with the array \<open>update\<close>.\<close>

fun descend :: "('k::linorder, 'v) node_heap \<Rightarrow> 'k \<Rightarrow> nat \<Rightarrow> addr \<Rightarrow> (nat \<Rightarrow> addr option) \<Rightarrow>
    (addr \<times> (nat \<Rightarrow> addr option)) option" where
  "descend h key 0 current update =
     do { current \<leftarrow> walk h 0 key current; Some (current, update(0 := Some current)) }"
| "descend h key (Suc i) current update =
     do { current \<leftarrow> walk h (Suc i) key current;
          descend h key i current (update(Suc i := Some current)) }"

text \<open>The result is the value found, if any.\<close>

definition search_element :: "'k::linorder \<Rightarrow> ('k, 'v) skip_list \<Rightarrow> 'v option option" where
  "search_element key s =
     do { (current, _) \<leftarrow> descend (heap s) key (skip_list_level s) (header s) (\<lambda>_. None);
          nxt \<leftarrow> fwd (heap s) current 0;
          case nxt of None \<Rightarrow> Some None
          | Some a \<Rightarrow> do { n \<leftarrow> heap s a;
                        Some (if node_key n = key then Some (node_value n) else None) } }"

section \<open>Inserting\<close>

definition get_random_level :: "bool list \<Rightarrow> nat \<Rightarrow> nat" where
  "get_random_level flips m =
     (let k = 1 + length (takeWhile (\<lambda>b. b) flips) in if k < m then k else m)"

fun link :: "('k, 'v) node_heap \<Rightarrow> addr \<Rightarrow> (nat \<Rightarrow> addr option) \<Rightarrow> nat list \<Rightarrow> ('k, 'v) node_heap option" where
  "link h inserted update [] = Some h"
| "link h inserted update (i # is) =
     do { u \<leftarrow> update i;
          nxt \<leftarrow> fwd h u i;
          h1 \<leftarrow> set_fwd h inserted i nxt;
          h2 \<leftarrow> set_fwd h1 u i (Some inserted);
          link h2 inserted update is }"

text \<open>Returns the list and 1 when the key exists, 0 when it was inserted.\<close>

definition insert_element ::
  "bool list \<Rightarrow> 'k::linorder \<Rightarrow> 'v \<Rightarrow> ('k, 'v) skip_list \<Rightarrow> (('k, 'v) skip_list \<times> nat) option" where
  "insert_element flips key value s =
     do { (current, update) \<leftarrow> descend (heap s) key (skip_list_level s) (header s) (\<lambda>_. None);
          nxt \<leftarrow> fwd (heap s) current 0;
          found \<leftarrow> (case nxt of None \<Rightarrow> Some False
                    | Some a \<Rightarrow> do { n \<leftarrow> heap s a; Some (node_key n = key) });
          if found then Some (s, 1)
          else
            let random_level = get_random_level flips (max_level s);
                update' = (\<lambda>i. if skip_list_level s < i \<and> i < random_level + 1
                               then Some (header s) else update i);
                inserted = next_free s in
            do { h \<leftarrow> link ((heap s)(inserted \<mapsto> new_node key value random_level)) inserted update'
                   [0..<random_level + 1];
                 Some (s\<lparr>skip_list_level := (if random_level > skip_list_level s then random_level
                                             else skip_list_level s),
                         heap := h, next_free := next_free s + 1,
                         element_count := element_count s + 1\<rparr>, 0) } }"

section \<open>Deleting\<close>

fun unlink :: "('k, 'v) node_heap \<Rightarrow> addr \<Rightarrow> (nat \<Rightarrow> addr option) \<Rightarrow> nat list \<Rightarrow> ('k, 'v) node_heap option" where
  "unlink h current update [] = Some h"
| "unlink h current update (i # is) =
     do { u \<leftarrow> update i;
          nxt \<leftarrow> fwd h u i;
          if nxt \<noteq> Some current then Some h
          else do { nxt' \<leftarrow> fwd h current i;
                    h1 \<leftarrow> set_fwd h u i nxt';
                    unlink h1 current update is } }"

fun shrink :: "('k, 'v) node_heap \<Rightarrow> addr \<Rightarrow> nat \<Rightarrow> nat option" where
  "shrink h hdr 0 = Some 0"
| "shrink h hdr (Suc l) =
     do { nxt \<leftarrow> fwd h hdr (Suc l); if nxt = None then shrink h hdr l else Some (Suc l) }"

definition delete_element :: "'k::linorder \<Rightarrow> ('k, 'v) skip_list \<Rightarrow> ('k, 'v) skip_list option" where
  "delete_element key s =
     do { (current, update) \<leftarrow> descend (heap s) key (skip_list_level s) (header s) (\<lambda>_. None);
          nxt \<leftarrow> fwd (heap s) current 0;
          case nxt of None \<Rightarrow> Some s
          | Some a \<Rightarrow>
              do { n \<leftarrow> heap s a;
                   if node_key n \<noteq> key then Some s
                   else
                     do { h \<leftarrow> unlink (heap s) a update [0..<skip_list_level s + 1];
                          l \<leftarrow> shrink h (header s) (skip_list_level s);
                          Some (s\<lparr>skip_list_level := l, heap := h(a := None),
                                  element_count := element_count s - 1\<rparr>) } } }"

definition insert_set_element ::
  "bool list \<Rightarrow> 'k::linorder \<Rightarrow> 'v \<Rightarrow> ('k, 'v) skip_list \<Rightarrow> ('k, 'v) skip_list option" where
  "insert_set_element flips key value s =
     do { oldValue \<leftarrow> search_element key s;
          s' \<leftarrow> (if oldValue \<noteq> None then delete_element key s else Some s);
          (s'', _) \<leftarrow> insert_element flips key value s';
          Some s'' }"

section \<open>Dumping and loading\<close>

text \<open>The two vectors of \<open>SkipListDump\<close>; their text encoding is the serialization library's.\<close>

record ('k, 'v) skip_list_dump =
  keyDumpVt :: "'k list"
  valDumpVt :: "'v list"

partial_function (option) dump_loop :: "('k, 'v) node_heap \<Rightarrow> addr option \<Rightarrow> ('k \<times> 'v) list option" where
  "dump_loop h p =
     (case p of None \<Rightarrow> Some []
      | Some a \<Rightarrow>
          do { n \<leftarrow> h a; nxt \<leftarrow> fwd h a 0; rest \<leftarrow> dump_loop h nxt;
               Some ((node_key n, node_value n) # rest) })"

definition dump_file :: "('k, 'v) skip_list \<Rightarrow> ('k, 'v) skip_list_dump option" where
  "dump_file s =
     do { p \<leftarrow> fwd (heap s) (header s) 0;
          kvs \<leftarrow> dump_loop (heap s) p;
          Some \<lparr>keyDumpVt = map fst kvs, valDumpVt = map snd kvs\<rparr> }"

text \<open>One list of flips per element. The key is passed for the value too, as in the source.\<close>

fun load_loop :: "bool list list \<Rightarrow> 'k::linorder list \<Rightarrow> ('k, 'k) skip_list \<Rightarrow> ('k, 'k) skip_list option" where
  "load_loop flipss [] s = Some s"
| "load_loop flipss (k # ks) s =
     do { (s', _) \<leftarrow> insert_element (case flipss of [] \<Rightarrow> [] | f # _ \<Rightarrow> f) k k s;
          load_loop (tl flipss) ks s' }"

definition load_file ::
  "bool list list \<Rightarrow> ('k::linorder, 'k) skip_list_dump \<Rightarrow> ('k, 'k) skip_list \<Rightarrow> ('k, 'k) skip_list option" where
  "load_file flipss dumper s = load_loop flipss (keyDumpVt dumper) s"

definition size_of :: "('k, 'v) skip_list \<Rightarrow> int" where
  "size_of s = element_count s"

section \<open>The destructor\<close>

text \<open>\<open>delete p\<close>, invalid on what is not allocated, and \<open>clear\<close>, which frees a node after those behind it.\<close>

definition delete_node :: "('k, 'v) node_heap \<Rightarrow> addr \<Rightarrow> ('k, 'v) node_heap option" where
  "delete_node h p = (if h p = None then None else Some (h(p := None)))"

partial_function (option) clear :: "('k, 'v) node_heap \<Rightarrow> addr \<Rightarrow> ('k, 'v) node_heap option" where
  "clear h cur =
     do { nxt \<leftarrow> fwd h cur 0;
          h1 \<leftarrow> (case nxt of None \<Rightarrow> Some h | Some a \<Rightarrow> clear h a);
          delete_node h1 cur }"

definition delete_SkipList :: "('k, 'v) skip_list \<Rightarrow> ('k, 'v) node_heap option" where
  "delete_SkipList s =
     do { nxt \<leftarrow> fwd (heap s) (header s) 0;
          h1 \<leftarrow> (case nxt of None \<Rightarrow> Some (heap s) | Some a \<Rightarrow> clear (heap s) a);
          delete_node h1 (header s) }"

section \<open>Lines of a text dump\<close>

text \<open>The helpers that split a line at the first delimiter; an invalid line leaves key and value as they were.\<close>

definition delimiter :: char where
  "delimiter = CHR '':''"

definition is_valid_string :: "string \<Rightarrow> bool" where
  "is_valid_string str \<longleftrightarrow> str \<noteq> [] \<and> delimiter \<in> set str"

definition get_key_value_from_string :: "string \<Rightarrow> string \<Rightarrow> string \<Rightarrow> string \<times> string" where
  "get_key_value_from_string str key v =
     (if \<not> is_valid_string str then (key, v)
      else (takeWhile (\<lambda>c. c \<noteq> delimiter) str, drop (length (takeWhile (\<lambda>c. c \<noteq> delimiter) str) + 1) str))"

text \<open>What joins a key without a delimiter and a value is split into them again.\<close>

lemma get_key_value_join:
  assumes "delimiter \<notin> set k"
  shows "get_key_value_from_string (k @ delimiter # v) key val = (k, v)"
proof -
  have "takeWhile (\<lambda>c. c \<noteq> delimiter) (k @ delimiter # v) = k"
    using assms by (induction k) auto
  then show ?thesis by (simp add: get_key_value_from_string_def is_valid_string_def)
qed

section \<open>Pointers\<close>

text \<open>Two heaps with the same nodes up to the contents of the forward arrays.\<close>

definition shape :: "('k, 'v) node \<Rightarrow> 'k \<times> 'v \<times> nat \<times> nat" where
  "shape n = (node_key n, node_value n, node_level n, length (forward n))"

definition same_nodes :: "('k, 'v) node_heap \<Rightarrow> ('k, 'v) node_heap \<Rightarrow> bool" where
  "same_nodes h h' \<longleftrightarrow> (\<forall>a. map_option shape (h' a) = map_option shape (h a))"

lemma same_nodes_refl [simp]: "same_nodes h h"
  by (simp add: same_nodes_def)

lemma same_nodes_trans: "same_nodes h h1 \<Longrightarrow> same_nodes h1 h2 \<Longrightarrow> same_nodes h h2"
  by (simp add: same_nodes_def)

lemma same_nodesD:
  assumes "same_nodes h h'" "h a = Some n"
  shows "\<exists>n'. h' a = Some n' \<and> node_key n' = node_key n \<and> node_value n' = node_value n
    \<and> node_level n' = node_level n \<and> length (forward n') = length (forward n)"
proof -
  have "map_option shape (h' a) = Some (shape n)" using assms by (simp add: same_nodes_def)
  then show ?thesis by (auto simp: shape_def)
qed

lemma same_nodes_dom: "same_nodes h h' \<Longrightarrow> dom h' = dom h"
  unfolding same_nodes_def dom_def by (metis (mono_tags) map_option_is_None)

lemma set_fwd_spec:
  assumes "fwd h p i \<noteq> None"
  shows "\<exists>h'. set_fwd h p i v = Some h' \<and> same_nodes h h'
    \<and> (\<forall>q j. fwd h' q j = (if q = p \<and> j = i then Some v else fwd h q j))"
proof -
  obtain n where n: "h p = Some n" "i < length (forward n)"
    using assms by (auto simp: fwd_def split: option.splits if_splits)
  let ?h = "h(p \<mapsto> n\<lparr>forward := (forward n)[i := v]\<rparr>)"
  have "same_nodes h ?h" using n by (simp add: same_nodes_def shape_def)
  moreover have "fwd ?h q j = (if q = p \<and> j = i then Some v else fwd h q j)" for q j
    using n by (auto simp: fwd_def)
  ultimately show ?thesis using n by (simp add: set_fwd_def)
qed

text \<open>\<open>chain h i p xs e\<close>: following level \<open>i\<close> from \<open>p\<close> visits \<open>xs\<close> and then points to \<open>e\<close>.\<close>

fun chain :: "('k, 'v) node_heap \<Rightarrow> nat \<Rightarrow> addr \<Rightarrow> addr list \<Rightarrow> addr option \<Rightarrow> bool" where
  "chain h i p [] e \<longleftrightarrow> fwd h p i = Some e"
| "chain h i p (x # xs) e \<longleftrightarrow> fwd h p i = Some (Some x) \<and> chain h i x xs e"

lemma chain_append:
  "chain h i p (xs @ y # ys) e \<longleftrightarrow> chain h i p xs (Some y) \<and> chain h i y ys e"
  by (induction xs arbitrary: p) auto

lemma chain_cong:
  "\<forall>q \<in> set (p # xs). fwd h' q i = fwd h q i \<Longrightarrow> chain h' i p xs e = chain h i p xs e"
  by (induction xs arbitrary: p) auto

lemma chain_last:
  "chain h i p (xs @ ys) e \<Longrightarrow> fwd h (last (p # xs)) i = Some (case ys of [] \<Rightarrow> e | y # _ \<Rightarrow> Some y)"
  by (induction xs arbitrary: p) (auto split: list.splits)

lemma chain_rest:
  "chain h i p (xs @ ys) e \<Longrightarrow> chain h i (last (p # xs)) ys e"
  by (induction xs arbitrary: p) auto

text \<open>Redirecting the last pointer of a prefix of a chain.\<close>

lemma chain_redirect:
  assumes "chain h i p (xs @ ys) e0" "distinct (p # xs)"
    "fwd h' (last (p # xs)) i = Some e" "\<forall>q \<in> set (p # xs) - {last (p # xs)}. fwd h' q i = fwd h q i"
  shows "chain h' i p xs e"
  using assms
proof (induction xs arbitrary: p)
  case (Cons x xs)
  have le: "last (p # x # xs) = last (x # xs)" by simp
  have "last (x # xs) \<in> set (x # xs)" by (rule last_in_set) simp
  then have ne: "p \<noteq> last (x # xs)" using Cons.prems(2) by (simp only: distinct.simps) blast
  note rest = Cons.prems(4) [unfolded le]
  have "fwd h' p i = fwd h p i" using rest ne by simp
  moreover have "chain h' i x xs e"
  proof (rule Cons.IH)
    show "chain h i x (xs @ ys) e0" "distinct (x # xs)" using Cons.prems(1,2) by simp_all
    show "fwd h' (last (x # xs)) i = Some e" using Cons.prems(3) unfolding le .
    show "\<forall>q \<in> set (x # xs) - {last (x # xs)}. fwd h' q i = fwd h q i"
      using rest by (simp only: list.set) blast
  qed
  ultimately show ?case using Cons.prems(1) by simp
qed simp

lemma walk_chain:
  assumes "chain h i p xs None" "\<forall>a \<in> set xs. h a \<noteq> None"
  shows "walk h i key p = Some (last (p # takeWhile (\<lambda>a. node_key (the (h a)) < key) xs))"
  using assms
proof (induction xs arbitrary: p)
  case (Cons x xs)
  then show ?case by (subst walk.simps) auto
qed (subst walk.simps, simp)

text \<open>Starting in the middle of the chain makes no difference.\<close>

lemma walk_from:
  assumes "chain h i p (xs @ ys) None" "\<forall>a \<in> set (xs @ ys). h a \<noteq> None"
    "\<forall>a \<in> set xs. node_key (the (h a)) < key"
  shows "walk h i key (last (p # xs)) =
    Some (last (p # takeWhile (\<lambda>a. node_key (the (h a)) < key) (xs @ ys)))"
proof -
  have "walk h i key (last (p # xs)) =
      Some (last (last (p # xs) # takeWhile (\<lambda>a. node_key (the (h a)) < key) ys))"
    using walk_chain [OF chain_rest [OF assms(1)]] assms(2) by simp
  moreover have "takeWhile (\<lambda>a. node_key (the (h a)) < key) (xs @ ys) =
      xs @ takeWhile (\<lambda>a. node_key (the (h a)) < key) ys"
    using assms(3) by (simp add: takeWhile_append2)
  ultimately show ?thesis by (simp add: last_append)
qed

section \<open>What a well-formed list represents\<close>

definition key_of :: "('k, 'v) node_heap \<Rightarrow> addr \<Rightarrow> 'k" where
  "key_of h a = node_key (the (h a))"

definition at_level :: "('k, 'v) node_heap \<Rightarrow> nat \<Rightarrow> addr list \<Rightarrow> addr list" where
  "at_level h i ns = filter (\<lambda>a. i \<le> node_level (the (h a))) ns"

text \<open>
  \<open>ns\<close> are the nodes in the order of level 0: distinct, with growing keys, and on each level the
  chain from the header visits exactly those that are high enough. Nothing else is allocated.
\<close>

definition sl_rep :: "('k::linorder, 'v) skip_list \<Rightarrow> addr list \<Rightarrow> bool" where
  "sl_rep s ns \<longleftrightarrow> distinct (header s # ns) \<and> (\<forall>a \<in> set (header s # ns). a < next_free s)
     \<and> 1 \<le> max_level s \<and> skip_list_level s \<le> max_level s
     \<and> (\<exists>n. heap s (header s) = Some n \<and> length (forward n) = max_level s + 1)
     \<and> (\<forall>a \<in> set ns. \<exists>n. heap s a = Some n \<and> length (forward n) = node_level n + 1
          \<and> node_level n \<le> skip_list_level s)
     \<and> sorted_wrt (\<lambda>a b. key_of (heap s) a < key_of (heap s) b) ns
     \<and> (\<forall>i \<le> max_level s. chain (heap s) i (header s) (at_level (heap s) i ns) None)
     \<and> element_count s = int (length ns)
     \<and> dom (heap s) = set (header s # ns)"

lemma at_level_append [simp]: "at_level h i (xs @ ys) = at_level h i xs @ at_level h i ys"
  by (simp add: at_level_def)

lemma at_level_simps [simp]: "at_level h i [] = []"
  "at_level h i (x # xs) = (if i \<le> node_level (the (h x)) then x # at_level h i xs else at_level h i xs)"
  by (simp_all add: at_level_def)

lemma set_at_level [simp]: "set (at_level h i xs) = {a \<in> set xs. i \<le> node_level (the (h a))}"
  by (auto simp: at_level_def)

text \<open>The nodes split at a key: those below it and the rest.\<close>

definition below :: "('k::linorder, 'v) node_heap \<Rightarrow> 'k \<Rightarrow> addr list \<Rightarrow> addr list" where
  "below h key ns = takeWhile (\<lambda>a. key_of h a < key) ns"

definition above :: "('k::linorder, 'v) node_heap \<Rightarrow> 'k \<Rightarrow> addr list \<Rightarrow> addr list" where
  "above h key ns = dropWhile (\<lambda>a. key_of h a < key) ns"

lemma below_above: "below h key ns @ above h key ns = ns"
  by (simp add: below_def above_def)

lemma below_less: "a \<in> set (below h key ns) \<Longrightarrow> key_of h a < key"
  by (auto simp: below_def dest: set_takeWhileD)

lemma above_not_less:
  assumes "sorted_wrt (\<lambda>a b. key_of h a < key_of h b) ns" "a \<in> set (above h key ns)"
  shows "\<not> key_of h a < key"
proof -
  obtain x xs where x: "above h key ns = x # xs" using assms(2) by (cases "above h key ns") auto
  then have "\<not> key_of h x < key" by (simp add: above_def dropWhile_eq_Cons_conv)
  moreover have "sorted_wrt (\<lambda>a b. key_of h a < key_of h b) (x # xs)"
    using assms(1) below_above [of h key ns] x by (metis sorted_wrt_append)
  ultimately show ?thesis using assms(2) x by auto
qed

lemma above_greater:
  assumes "sorted_wrt (\<lambda>a b. key_of h a < key_of h b) ns" "above h key ns = r # rs" "a \<in> set rs"
  shows "key < key_of h a"
proof -
  have "sorted_wrt (\<lambda>a b. key_of h a < key_of h b) (r # rs)"
    using assms(1,2) below_above [of h key ns] by (metis sorted_wrt_append)
  then have "key_of h r < key_of h a" using assms(3) by simp
  moreover have "\<not> key_of h r < key" using above_not_less [OF assms(1), of r key] assms(2) by simp
  ultimately show ?thesis by simp
qed

text \<open>The predecessor on each level, which the outer loop records.\<close>

definition pred :: "('k::linorder, 'v) skip_list \<Rightarrow> 'k \<Rightarrow> addr list \<Rightarrow> nat \<Rightarrow> addr" where
  "pred s key ns i = last (header s # at_level (heap s) i (below (heap s) key ns))"

lemma sl_repD:
  assumes "sl_rep s ns"
  shows "distinct (header s # ns)" "\<And>a. a \<in> set (header s # ns) \<Longrightarrow> a < next_free s"
    "1 \<le> max_level s" "skip_list_level s \<le> max_level s"
    "\<exists>n. heap s (header s) = Some n \<and> length (forward n) = max_level s + 1"
    "\<And>a. a \<in> set ns \<Longrightarrow> \<exists>n. heap s a = Some n \<and> length (forward n) = node_level n + 1
        \<and> node_level n \<le> skip_list_level s"
    "sorted_wrt (\<lambda>a b. key_of (heap s) a < key_of (heap s) b) ns"
    "\<And>i. i \<le> max_level s \<Longrightarrow> chain (heap s) i (header s) (at_level (heap s) i ns) None"
    "element_count s = int (length ns)"
    "dom (heap s) = set (header s # ns)"
  using assms unfolding sl_rep_def by blast+

lemma walk_level:
  assumes rep: "sl_rep s ns" and i: "i \<le> max_level s"
    and split: "at_level (heap s) i ns = xs @ ys" "\<forall>a \<in> set xs. key_of (heap s) a < key"
  shows "walk (heap s) i key (last (header s # xs)) = Some (pred s key ns i)"
proof -
  let ?h = "heap s"
  note sorted = sl_repD(7) [OF rep]
  have "chain ?h i (header s) (xs @ ys) None" using sl_repD(8) [OF rep i] unfolding split(1) .
  moreover have "set (at_level ?h i ns) \<subseteq> set ns" by auto
  then have "\<forall>a \<in> set (xs @ ys). ?h a \<noteq> None" using sl_repD(6) [OF rep] unfolding split(1) by fastforce
  moreover have "takeWhile (\<lambda>a. key_of ?h a < key) (at_level ?h i ns) = at_level ?h i (below ?h key ns)"
  proof -
    have "at_level ?h i ns = at_level ?h i (below ?h key ns) @ at_level ?h i (above ?h key ns)"
      by (metis at_level_append below_above)
    moreover have "takeWhile (\<lambda>a. key_of ?h a < key) (at_level ?h i (above ?h key ns)) = []"
      using above_not_less [OF sorted, of _ key] by (auto simp: takeWhile_eq_Nil_iff dest: hd_in_set)
    moreover have "takeWhile (\<lambda>a. key_of ?h a < key) (at_level ?h i (below ?h key ns) @ zs) =
        at_level ?h i (below ?h key ns) @ takeWhile (\<lambda>a. key_of ?h a < key) zs" for zs
      by (rule takeWhile_append2) (auto dest: below_less)
    ultimately show ?thesis by simp
  qed
  ultimately show ?thesis
    using walk_from [of ?h i "header s" xs ys key] split by (simp add: pred_def key_of_def)
qed

lemma descend_spec:
  assumes rep: "sl_rep s ns" and i: "i \<le> max_level s"
    and split: "at_level (heap s) i ns = xs @ ys" "\<forall>a \<in> set xs. key_of (heap s) a < key"
  shows "descend (heap s) key i (last (header s # xs)) update =
    Some (pred s key ns 0, \<lambda>j. if j \<le> i then Some (pred s key ns j) else update j)"
  using i split
proof (induction i arbitrary: xs ys update)
  case 0
  then show ?case using walk_level [OF rep 0] by (auto simp: fun_eq_iff)
next
  case (Suc i)
  let ?h = "heap s"
  let ?B = "below ?h key ns"
  have walk: "walk ?h (Suc i) key (last (header s # xs)) = Some (pred s key ns (Suc i))"
    by (rule walk_level [OF rep Suc.prems])
  have level: "at_level ?h i ns = at_level ?h i ?B @ at_level ?h i (above ?h key ns)"
    by (metis at_level_append below_above)
  obtain us vs where us: "at_level ?h i ?B = us @ vs" "pred s key ns (Suc i) = last (header s # us)"
  proof (cases "at_level ?h (Suc i) ?B = []")
    case True
    then show ?thesis using that [of "[]" "at_level ?h i ?B"] by (simp add: pred_def)
  next
    case False
    then have "last (at_level ?h (Suc i) ?B) \<in> set (at_level ?h (Suc i) ?B)" by (rule last_in_set)
    then have "pred s key ns (Suc i) \<in> set (at_level ?h i ?B)" using False by (simp add: pred_def)
    then obtain us vs where "at_level ?h i ?B = us @ pred s key ns (Suc i) # vs" by (metis split_list)
    then show ?thesis using that [of "us @ [pred s key ns (Suc i)]" vs] by simp
  qed
  have "set us \<subseteq> set (at_level ?h i ?B)" using us(1) by simp
  then have "\<forall>a \<in> set us. key_of ?h a < key" using below_less by fastforce
  moreover have "at_level ?h i ns = us @ (vs @ at_level ?h i (above ?h key ns))" by (simp add: level us(1))
  ultimately have down: "descend ?h key i (pred s key ns (Suc i)) u =
      Some (pred s key ns 0, \<lambda>j. if j \<le> i then Some (pred s key ns j) else u j)" for u
    unfolding us(2) using Suc.prems(1) by (intro Suc.IH [unfolded us(2)]) simp_all
  have "(\<lambda>j. if j \<le> i then Some (pred s key ns j) else (update(Suc i := Some (pred s key ns (Suc i)))) j) =
      (\<lambda>j. if j \<le> Suc i then Some (pred s key ns j) else update j)"
    by (auto simp: fun_eq_iff le_Suc_eq)
  then show ?case unfolding descend.simps walk by (simp add: down)
qed

text \<open>The loops as the operations start them.\<close>

lemma descend_start:
  assumes "sl_rep s ns"
  shows "descend (heap s) key (skip_list_level s) (header s) (\<lambda>_. None) =
    Some (pred s key ns 0, \<lambda>j. if j \<le> skip_list_level s then Some (pred s key ns j) else None)"
  using descend_spec [OF assms, of "skip_list_level s" "[]" _ key "\<lambda>_. None"] assms
  by (simp add: sl_rep_def)

lemma at_level_0 [simp]: "at_level h 0 ns = ns"
  by (simp add: at_level_def)

lemma fwd_pred:
  assumes "sl_rep s ns" "i \<le> max_level s"
  shows "fwd (heap s) (pred s key ns i) i =
    Some (case at_level (heap s) i (above (heap s) key ns) of [] \<Rightarrow> None | r # _ \<Rightarrow> Some r)"
proof -
  have "chain (heap s) i (header s) (at_level (heap s) i (below (heap s) key ns @ above (heap s) key ns)) None"
    unfolding below_above by (rule sl_repD(8) [OF assms])
  then show ?thesis using chain_last unfolding pred_def at_level_append by blast
qed

text \<open>The map a list of nodes represents.\<close>

definition pairs :: "('k, 'v) node_heap \<Rightarrow> addr list \<Rightarrow> ('k \<times> 'v) list" where
  "pairs h ns = map (\<lambda>a. (key_of h a, node_value (the (h a)))) ns"

lemma pairs_simps [simp]:
  "pairs h [] = []" "pairs h (x # xs) = (key_of h x, node_value (the (h x))) # pairs h xs"
  "pairs h (xs @ ys) = pairs h xs @ pairs h ys"
  by (simp_all add: pairs_def)

lemma length_pairs [simp]: "length (pairs h ns) = length ns"
  by (simp add: pairs_def)

lemma map_of_pairs_None: "\<forall>a \<in> set ns. key_of h a \<noteq> key \<Longrightarrow> map_of (pairs h ns) key = None"
  by (induction ns) auto

lemma map_of_pairs_split:
  assumes "sorted_wrt (\<lambda>a b. key_of h a < key_of h b) ns"
  shows "map_of (pairs h ns) key = (case above h key ns of [] \<Rightarrow> None
    | r # _ \<Rightarrow> if key_of h r = key then Some (node_value (the (h r))) else None)"
proof -
  have "map_of (pairs h (below h key ns)) key = None"
    by (rule map_of_pairs_None) (auto dest: below_less)
  then have "map_of (pairs h (below h key ns @ above h key ns)) key = map_of (pairs h (above h key ns)) key"
    unfolding pairs_simps map_of_append by (simp add: map_add_def split: option.split)
  then have "map_of (pairs h ns) key = map_of (pairs h (above h key ns)) key" unfolding below_above .
  then show ?thesis
  proof (cases "above h key ns")
    case (Cons r rs)
    have "map_of (pairs h rs) key = None"
      using above_greater [OF assms Cons] by (intro map_of_pairs_None) auto
    then show ?thesis using Cons \<open>map_of (pairs h ns) key = _\<close> by auto
  qed simp
qed

lemma search_spec:
  assumes "sl_rep s ns"
  shows "search_element key s = Some (map_of (pairs (heap s) ns) key)"
proof -
  note fwd0 = fwd_pred [OF assms, of 0 key, simplified]
  show ?thesis
  proof (cases "above (heap s) key ns")
    case Nil
    then show ?thesis
      using fwd0 by (simp add: search_element_def descend_start [OF assms] map_of_pairs_split [OF sl_repD(7) [OF assms]])
  next
    case (Cons r rs)
    then have "r \<in> set ns" using below_above [of "heap s" key ns] by (metis in_set_conv_decomp)
    then obtain n where "heap s r = Some n" using sl_repD(6) [OF assms] by blast
    then show ?thesis
      using fwd0 Cons by (simp add: search_element_def descend_start [OF assms] key_of_def
          map_of_pairs_split [OF sl_repD(7) [OF assms]])
  qed
qed

section \<open>Inserting a node\<close>

lemma fwd_same_nodes: "same_nodes h h' \<Longrightarrow> fwd h' p i = None \<longleftrightarrow> fwd h p i = None"
proof -
  assume "same_nodes h h'"
  then have "map_option shape (h' p) = map_option shape (h p)" by (simp add: same_nodes_def)
  then show ?thesis by (cases "h p"; cases "h' p") (auto simp: fwd_def shape_def)
qed

lemma link_spec:
  assumes "distinct is" "\<forall>i \<in> set is. update i = Some (u i) \<and> u i \<noteq> a \<and> fwd h (u i) i \<noteq> None \<and> fwd h a i \<noteq> None"
  shows "\<exists>h'. link h a update is = Some h' \<and> same_nodes h h'
    \<and> (\<forall>q j. fwd h' q j = (if j \<in> set is \<and> q = a then fwd h (u j) j
         else if j \<in> set is \<and> q = u j then Some (Some a) else fwd h q j))"
  using assms
proof (induction "is" arbitrary: h)
  case (Cons i "is")
  obtain nxt where nxt: "fwd h (u i) i = Some nxt" using Cons.prems(2) by auto
  obtain h1 where h1: "set_fwd h a i nxt = Some h1" "same_nodes h h1"
    "\<forall>q j. fwd h1 q j = (if q = a \<and> j = i then Some nxt else fwd h q j)"
    using set_fwd_spec [of h a i nxt] Cons.prems(2) by auto
  have "fwd h1 (u i) i \<noteq> None" using h1(3) Cons.prems(2) by auto
  then obtain h2 where h2: "set_fwd h1 (u i) i (Some a) = Some h2" "same_nodes h1 h2"
    "\<forall>q j. fwd h2 q j = (if q = u i \<and> j = i then Some (Some a) else fwd h1 q j)"
    using set_fwd_spec by blast
  have same: "same_nodes h h2" by (rule same_nodes_trans [OF h1(2) h2(2)])
  have step: "fwd h2 q j = (if j = i \<and> q = a then Some nxt else if j = i \<and> q = u i then Some (Some a) else fwd h q j)" for q j
    using h1(3) h2(3) Cons.prems(2) by auto
  have "\<forall>j \<in> set is. update j = Some (u j) \<and> u j \<noteq> a \<and> fwd h2 (u j) j \<noteq> None \<and> fwd h2 a j \<noteq> None"
    using Cons.prems(2) fwd_same_nodes [OF same] by auto
  then obtain h' where h': "link h2 a update is = Some h'" "same_nodes h2 h'"
    "\<forall>q j. fwd h' q j = (if j \<in> set is \<and> q = a then fwd h2 (u j) j
         else if j \<in> set is \<and> q = u j then Some (Some a) else fwd h2 q j)"
    using Cons.IH [of h2] Cons.prems(1) by auto
  have "link h a update (i # is) = Some h'" using nxt h1(1) h2(1) h'(1) Cons.prems(2) by simp
  moreover have "fwd h' q j = (if j \<in> set (i # is) \<and> q = a then fwd h (u j) j
         else if j \<in> set (i # is) \<and> q = u j then Some (Some a) else fwd h q j)" for q j
  proof (cases "j = i")
    case True
    then have "j \<notin> set is" using Cons.prems(1) by simp
    then show ?thesis using True h'(3) step nxt by simp
  next
    case False
    then show ?thesis using h'(3) step [of _ j] by simp
  qed
  ultimately show ?case using same_nodes_trans [OF same h'(2)] by blast
qed simp

text \<open>A new node between the two parts of a chain.\<close>

lemma chain_insert:
  assumes "chain h i p (xs @ ys) None" "distinct (p # xs @ ys)" "a \<notin> set (p # xs @ ys)"
    and "fwd h' a i = fwd h (last (p # xs)) i" "fwd h' (last (p # xs)) i = Some (Some a)"
    and "\<forall>q \<in> set (p # xs @ ys). q \<noteq> last (p # xs) \<longrightarrow> fwd h' q i = fwd h q i"
  shows "chain h' i p (xs @ a # ys) None"
proof -
  have "chain h' i p xs (Some a)"
    using assms by (intro chain_redirect [OF assms(1)]) auto
  moreover have "chain h' i a ys None"
  proof (cases ys)
    case Nil
    then show ?thesis using assms(4) chain_last [OF assms(1)] by simp
  next
    case (Cons y zs)
    have "last (p # xs) \<in> set (p # xs)" by (rule last_in_set) simp
    then have notin: "last (p # xs) \<notin> set ys" using assms(2) by auto
    have same: "\<forall>q \<in> set (y # zs). fwd h' q i = fwd h q i"
    proof
      fix q assume "q \<in> set (y # zs)"
      then have q: "q \<in> set ys" using Cons by simp
      then have "q \<noteq> last (p # xs)" using notin by metis
      with q assms(6) show "fwd h' q i = fwd h q i" by simp
    qed
    have "chain h i y zs None"
      using chain_rest [OF assms(1)] Cons by simp
    then have "chain h' i y zs None" using chain_cong [OF same] by simp
    moreover have "fwd h' a i = Some (Some y)" using assms(4) chain_last [OF assms(1)] Cons by simp
    ultimately show ?thesis using Cons by simp
  qed
  ultimately show ?thesis by (simp add: chain_append)
qed

lemma random_level_bounds: "1 \<le> m \<Longrightarrow> 1 \<le> get_random_level flips m \<and> get_random_level flips m \<le> m"
  by (simp add: get_random_level_def Let_def)

lemma key_of_same: "same_nodes h h' \<Longrightarrow> h a \<noteq> None \<Longrightarrow> key_of h' a = key_of h a"
  using same_nodesD [of h h' a] by (auto simp: key_of_def)

lemma level_of_same:
  "same_nodes h h' \<Longrightarrow> h a \<noteq> None \<Longrightarrow> node_level (the (h' a)) = node_level (the (h a))"
  using same_nodesD [of h h' a] by auto

lemma at_level_cong:
  "\<forall>a \<in> set ns. node_level (the (h' a)) = node_level (the (h a)) \<Longrightarrow> at_level h' i ns = at_level h i ns"
  by (auto simp: at_level_def intro: filter_cong)

lemma pairs_cong:
  "\<forall>a \<in> set ns. key_of h' a = key_of h a \<and> node_value (the (h' a)) = node_value (the (h a)) \<Longrightarrow>
   pairs h' ns = pairs h ns"
  by (simp add: pairs_def)

text \<open>The predecessors are old nodes that have the level in question.\<close>

lemma pred_valid:
  assumes "sl_rep s ns" "i \<le> max_level s"
  shows "pred s key ns i \<in> set (header s # ns)" "fwd (heap s) (pred s key ns i) i \<noteq> None"
proof -
  have "last (header s # at_level (heap s) i (below (heap s) key ns)) \<in>
      set (header s # at_level (heap s) i (below (heap s) key ns))" by (rule last_in_set) simp
  moreover have "set (below (heap s) key ns) \<subseteq> set ns" by (auto simp: below_def dest: set_takeWhileD)
  ultimately show "pred s key ns i \<in> set (header s # ns)" unfolding pred_def by auto
  show "fwd (heap s) (pred s key ns i) i \<noteq> None" using fwd_pred [OF assms, of key] by simp
qed

text \<open>On the levels above the list's own the predecessor is the header.\<close>

lemma pred_high:
  assumes "sl_rep s ns" "skip_list_level s < i"
  shows "pred s key ns i = header s"
proof -
  have "at_level (heap s) i (below (heap s) key ns) = []"
    using sl_repD(6) [OF assms(1)] assms(2) by (force simp: at_level_def filter_empty_conv below_def dest: set_takeWhileD)
  then show ?thesis by (simp add: pred_def)
qed

text \<open>The chains once a node is linked in: the predecessors point to it up to its level.\<close>

lemma insert_chains:
  assumes rep: "sl_rep s ns" and fresh: "a \<notin> set (header s # ns)" and i: "i \<le> max_level s"
    and fwd': "\<And>q j. fwd h' q j = (if j \<le> lvl \<and> q = a then fwd (heap s) (pred s key ns j) j
         else if j \<le> lvl \<and> q = pred s key ns j then Some (Some a) else fwd g q j)"
    and g: "\<And>q j. q \<noteq> a \<Longrightarrow> fwd g q j = fwd (heap s) q j"
    and levels: "at_level h' i (below (heap s) key ns @ a # above (heap s) key ns) =
      at_level (heap s) i (below (heap s) key ns) @ (if i \<le> lvl then [a] else []) @ at_level (heap s) i (above (heap s) key ns)"
  shows "chain h' i (header s) (at_level h' i (below (heap s) key ns @ a # above (heap s) key ns)) None"
proof -
  let ?h = "heap s" and ?B = "at_level (heap s) i (below (heap s) key ns)" and ?A = "at_level (heap s) i (above (heap s) key ns)"
  note D = sl_repD [OF rep]
  have old: "?B @ ?A = at_level ?h i ns" by (metis at_level_append below_above)
  have old_chain: "chain ?h i (header s) (?B @ ?A) None" unfolding old by (rule D(8) [OF i])
  have sub: "set (header s # ?B @ ?A) \<subseteq> set (header s # ns)" unfolding old by auto
  have dist: "distinct (header s # ?B @ ?A)" unfolding old using D(1) by (auto simp: at_level_def)
  have ne: "pred s key ns i \<noteq> a" using pred_valid(1) [OF rep i, of key] fresh by metis
  have other: "fwd h' q i = fwd ?h q i"
    if q: "q \<in> set (header s # ?B @ ?A)" "i \<le> lvl \<longrightarrow> q \<noteq> pred s key ns i" for q
  proof -
    have "q \<noteq> a" using subsetD [OF sub q(1)] fresh by metis
    then show ?thesis using g q(2) by (cases "i \<le> lvl") (simp_all add: fwd')
  qed
  show ?thesis
  proof (cases "i \<le> lvl")
    case True
    have last_eq: "last (header s # ?B) = pred s key ns i" by (simp add: pred_def)
    have "chain h' i (header s) (?B @ a # ?A) None"
    proof (rule chain_insert [OF old_chain dist])
      show "a \<notin> set (header s # ?B @ ?A)" using fresh sub by blast
      show "fwd h' a i = fwd ?h (last (header s # ?B)) i" "fwd h' (last (header s # ?B)) i = Some (Some a)"
        unfolding last_eq using True fwd' [of a i] fwd' [of "pred s key ns i" i] ne by simp_all
      show "\<forall>q \<in> set (header s # ?B @ ?A). q \<noteq> last (header s # ?B) \<longrightarrow> fwd h' q i = fwd ?h q i"
        unfolding last_eq using other by blast
    qed
    then show ?thesis unfolding levels using True by simp
  next
    case False
    then have "\<forall>q \<in> set (header s # ?B @ ?A). fwd h' q i = fwd ?h q i" using other by blast
    then have "chain h' i (header s) (?B @ ?A) None" using old_chain by (simp only: chain_cong)
    then show ?thesis unfolding levels using False by simp
  qed
qed

text \<open>What linking a new node in writes.\<close>

lemma link_insert:
  assumes rep: "sl_rep s ns" and fresh: "a \<notin> set (header s # ns)" and lvl: "lvl \<le> max_level s"
    and upd: "\<forall>i \<le> lvl. update i = Some (pred s key ns i)"
    and g_def: "g = (heap s)(a \<mapsto> new_node key value lvl)"
  shows "\<exists>h'. link g a update [0..<lvl + 1] = Some h' \<and> same_nodes g h'
    \<and> (\<forall>q j. fwd h' q j = (if j \<le> lvl \<and> q = a then fwd (heap s) (pred s key ns j) j
         else if j \<le> lvl \<and> q = pred s key ns j then Some (Some a) else fwd g q j))"
proof -
  have g: "fwd g q j = (if q = a then (if j \<le> lvl then Some None else None) else fwd (heap s) q j)" for q j
    by (auto simp: g_def fwd_def new_node_def nth_Cons')
  have pred: "pred s key ns i \<noteq> a" "fwd g (pred s key ns i) i = fwd (heap s) (pred s key ns i) i"
    "fwd (heap s) (pred s key ns i) i \<noteq> None" if "i \<le> lvl" for i
  proof -
    have "i \<le> max_level s" using that lvl by simp
    note v = pred_valid [OF rep this, of key]
    show ne: "pred s key ns i \<noteq> a" using v(1) fresh by metis
    show "fwd g (pred s key ns i) i = fwd (heap s) (pred s key ns i) i" by (subst g) (simp add: ne)
    show "fwd (heap s) (pred s key ns i) i \<noteq> None" by (rule v(2))
  qed
  have "\<exists>h'. link g a update [0..<lvl + 1] = Some h' \<and> same_nodes g h'
    \<and> (\<forall>q j. fwd h' q j = (if j \<in> set [0..<lvl + 1] \<and> q = a then fwd g (pred s key ns j) j
         else if j \<in> set [0..<lvl + 1] \<and> q = pred s key ns j then Some (Some a) else fwd g q j))"
    using upd pred g by (intro link_spec) auto
  moreover have "j \<in> set [0..<lvl + 1] \<longleftrightarrow> j \<le> lvl" for j by auto
  ultimately show ?thesis using pred(2) by (metis (no_types, lifting))
qed

lemma insert_node_spec:
  assumes rep: "sl_rep s ns" and new: "key \<notin> key_of (heap s) ` set ns"
    and lvl: "lvl = get_random_level flips (max_level s)" and a: "a = next_free s"
    and upd: "\<forall>i \<le> lvl. update i = Some (pred s key ns i)"
  shows "\<exists>h'. link ((heap s)(a \<mapsto> new_node key value lvl)) a update [0..<lvl + 1] = Some h'
    \<and> sl_rep (s\<lparr>skip_list_level := max lvl (skip_list_level s), heap := h', next_free := next_free s + 1,
           element_count := element_count s + 1\<rparr>)
        (below (heap s) key ns @ a # above (heap s) key ns)
    \<and> pairs h' (below (heap s) key ns @ a # above (heap s) key ns) =
        pairs (heap s) (below (heap s) key ns) @ (key, value) # pairs (heap s) (above (heap s) key ns)"
proof -
  let ?h = "heap s" and ?g = "(heap s)(a \<mapsto> new_node key value lvl)"
  let ?B = "below (heap s) key ns" and ?A = "above (heap s) key ns"
  let ?ns = "?B @ a # ?A"
  note D = sl_repD [OF rep]
  have lm: "1 \<le> lvl" "lvl \<le> max_level s" using random_level_bounds [OF D(3)] lvl by auto
  have fresh: "a \<notin> set (header s # ns)" using D(2) a by auto
  have nodes: "?h q \<noteq> None" if "q \<in> set (header s # ns)" for q using D(5,6) that by auto
  have split: "set ?B \<union> set ?A = set ns" by (metis below_above set_append)
  have fwd0: "fwd ?g q j = fwd ?h q j" if "q \<noteq> a" for q j using that by (simp add: fwd_def)
  obtain h' where h': "link ?g a update [0..<lvl + 1] = Some h'" "same_nodes ?g h'"
    and fwd': "\<And>q j. fwd h' q j = (if j \<le> lvl \<and> q = a then fwd ?h (pred s key ns j) j
         else if j \<le> lvl \<and> q = pred s key ns j then Some (Some a) else fwd ?g q j)"
    using link_insert [OF rep fresh lm(2) upd refl] by blast
  let ?s = "s\<lparr>skip_list_level := max lvl (skip_list_level s), heap := h', next_free := next_free s + 1,
      element_count := element_count s + 1\<rparr>"
  have old: "\<exists>n'. h' q = Some n' \<and> node_key n' = node_key (the (?h q)) \<and> node_value n' = node_value (the (?h q))
      \<and> node_level n' = node_level (the (?h q)) \<and> length (forward n') = length (forward (the (?h q)))"
    if "q \<in> set (header s # ns)" for q
  proof -
    have "q \<noteq> a" using that fresh by metis
    then have "?g q = Some (the (?h q))" using nodes [OF that] by simp
    then show ?thesis by (rule same_nodesD [OF h'(2)])
  qed
  have newn: "\<exists>n'. h' a = Some n' \<and> node_key n' = key \<and> node_value n' = value \<and> node_level n' = lvl
      \<and> length (forward n') = lvl + 1"
    using same_nodesD [OF h'(2), of a "new_node key value lvl"] by (simp add: new_node_def)
  have keys: "key_of h' q = key_of ?h q" "node_value (the (h' q)) = node_value (the (?h q))"
    "node_level (the (h' q)) = node_level (the (?h q))" if "q \<in> set ns" for q
    using old [of q] that by (auto simp: key_of_def)
  have key_a: "key_of h' a = key" "node_value (the (h' a)) = value" "node_level (the (h' a)) = lvl"
    using newn by (auto simp: key_of_def)
  have ns': "set ?ns = insert a (set ns)" using split by auto
  have "distinct (header s # ?B @ ?A)" unfolding below_above by (rule D(1))
  moreover have "a \<notin> set ?B \<union> set ?A" "a \<noteq> header s" using fresh unfolding split by auto
  ultimately have dist: "distinct (header s # ?ns)" by auto
  have sorted: "sorted_wrt (\<lambda>x y. key_of h' x < key_of h' y) ?ns"
  proof -
    have "sorted_wrt (\<lambda>x y. key_of h' x < key_of h' y) ns"
      using D(7) by (rule sorted_wrt_mono_rel [rotated]) (simp add: keys)
    then have parts: "sorted_wrt (\<lambda>x y. key_of h' x < key_of h' y) ?B"
      "sorted_wrt (\<lambda>x y. key_of h' x < key_of h' y) ?A"
      by (metis below_above sorted_wrt_append)+
    have lo: "key_of h' x < key" if "x \<in> set ?B" for x
      using that below_less keys(1) split by fastforce
    have hi: "key < key_of h' x" if "x \<in> set ?A" for x
    proof -
      have "x \<in> set ns" using that split by auto
      then have "key_of ?h x \<noteq> key" using new by auto
      moreover have "\<not> key_of ?h x < key" by (rule above_not_less [OF D(7) that])
      ultimately show ?thesis using keys(1) [OF \<open>x \<in> set ns\<close>] by simp
    qed
    show ?thesis
      using parts lo hi by (auto simp: sorted_wrt_append key_a intro: less_trans)
  qed
  have levels: "at_level h' i ?ns = at_level ?h i ?B @ (if i \<le> lvl then [a] else []) @ at_level ?h i ?A" for i
  proof -
    have "\<forall>q \<in> set ?B. node_level (the (h' q)) = node_level (the (?h q))"
      "\<forall>q \<in> set ?A. node_level (the (h' q)) = node_level (the (?h q))" using keys(3) split by blast+
    note at_level_cong [OF this(1)] at_level_cong [OF this(2)]
    then show ?thesis by (simp add: key_a)
  qed
  have chains: "chain h' i (header s) (at_level h' i ?ns) None" if i: "i \<le> max_level s" for i
    by (rule insert_chains [OF rep fresh i fwd' fwd0 levels])
  have "sl_rep ?s ?ns"
    unfolding sl_rep_def
  proof (intro conjI ballI allI impI)
    show "distinct (header ?s # ?ns)" using dist by simp
    show "x < next_free ?s" if "x \<in> set (header ?s # ?ns)" for x
    proof -
      have "x = a \<or> x \<in> set (header s # ns)" using that ns' by auto
      then show ?thesis using D(2) a by fastforce
    qed
    show "1 \<le> max_level ?s" "skip_list_level ?s \<le> max_level ?s" using D(3,4) lm by auto
    show "\<exists>n. heap ?s (header ?s) = Some n \<and> length (forward n) = max_level ?s + 1"
      using old [of "header s"] D(5) by auto
    show "\<exists>n. heap ?s x = Some n \<and> length (forward n) = node_level n + 1
        \<and> node_level n \<le> skip_list_level ?s" if "x \<in> set ?ns" for x
    proof (cases "x = a")
      case True
      then show ?thesis using newn by auto
    next
      case False
      then have "x \<in> set ns" using that ns' by auto
      then show ?thesis using old [of x] D(6) [of x] by fastforce
    qed
    show "element_count ?s = int (length ?ns)"
    proof -
      have "length (?B @ ?A) = length ns" by (simp only: below_above)
      then show ?thesis using D(9) by simp
    qed
    show "sorted_wrt (\<lambda>a b. key_of (heap ?s) a < key_of (heap ?s) b) ?ns" using sorted by simp
    show "chain (heap ?s) i (header ?s) (at_level (heap ?s) i ?ns) None" if "i \<le> max_level ?s" for i
      using chains [of i] that by simp
    have "dom h' = dom ?g" by (rule same_nodes_dom [OF h'(2)])
    then show "dom (heap ?s) = set (header ?s # ?ns)" unfolding list.set ns' using D(10) by auto
  qed
  moreover have "pairs h' ?ns = pairs ?h ?B @ (key, value) # pairs ?h ?A"
  proof -
    have "\<forall>q \<in> set ?B. key_of h' q = key_of ?h q \<and> node_value (the (h' q)) = node_value (the (?h q))"
      "\<forall>q \<in> set ?A. key_of h' q = key_of ?h q \<and> node_value (the (h' q)) = node_value (the (?h q))"
      using keys(1,2) split by blast+
    note pairs_cong [OF this(1)] pairs_cong [OF this(2)]
    then show ?thesis by (simp add: key_a)
  qed
  ultimately show ?thesis using h'(1) by blast
qed

section \<open>Deleting a node\<close>

lemma chain_delete:
  assumes "chain h i p (xs @ r # ys) None" "distinct (p # xs @ r # ys)"
    and "fwd h' (last (p # xs)) i = fwd h r i"
    and "\<forall>q \<in> set (p # xs @ ys). q \<noteq> last (p # xs) \<longrightarrow> fwd h' q i = fwd h q i"
  shows "chain h' i p (xs @ ys) None"
proof -
  have r: "chain h i r ys None" using assms(1) by (simp add: chain_append)
  have first: "chain h' i p xs e" if "fwd h r i = Some e" for e
    using assms that by (intro chain_redirect [OF assms(1)]) auto
  show ?thesis
  proof (cases ys)
    case Nil
    then show ?thesis using r first by simp
  next
    case (Cons y zs)
    have "last (p # xs) \<in> set (p # xs)" by (rule last_in_set) simp
    then have notin: "last (p # xs) \<notin> set ys" using assms(2) by auto
    have "\<forall>q \<in> set (y # zs). fwd h' q i = fwd h q i"
    proof
      fix q assume "q \<in> set (y # zs)"
      then have q: "q \<in> set ys" using Cons by simp
      then have "q \<noteq> last (p # xs)" using notin by metis
      with q assms(4) show "fwd h' q i = fwd h q i" by simp
    qed
    then have "chain h' i y zs None" using r Cons chain_cong [of y zs h' i h] by simp
    then show ?thesis using r first Cons by (simp add: chain_append)
  qed
qed

text \<open>The pointers to \<open>r\<close> are redirected up to its own level \<open>lr\<close>, where the loop stops.\<close>

lemma unlink_spec:
  assumes "\<forall>i. k \<le> i \<and> i < k + m \<longrightarrow> update i = Some (u i) \<and> u i \<noteq> r
      \<and> (\<exists>nx. fwd h (u i) i = Some nx \<and> (nx = Some r \<longleftrightarrow> i \<le> lr)) \<and> (i \<le> lr \<longrightarrow> fwd h r i \<noteq> None)"
  shows "\<exists>h'. unlink h r update [k..<k + m] = Some h' \<and> same_nodes h h'
    \<and> (\<forall>q j. fwd h' q j = (if k \<le> j \<and> j < k + m \<and> j \<le> lr \<and> q = u j then fwd h r j else fwd h q j))"
  using assms
proof (induction m arbitrary: k h)
  case (Suc m)
  have up: "[k..<k + Suc m] = k # [Suc k..<Suc k + m]" by (simp add: upt_rec)
  have k: "update k = Some (u k)" "u k \<noteq> r" using Suc.prems by simp_all
  obtain nx where nx: "fwd h (u k) k = Some nx" "nx = Some r \<longleftrightarrow> k \<le> lr" using Suc.prems by auto
  show ?case
  proof (cases "k \<le> lr")
    case False
    then have "\<forall>q j. fwd h q j = (if k \<le> j \<and> j < k + Suc m \<and> j \<le> lr \<and> q = u j then fwd h r j else fwd h q j)"
      by auto
    moreover have "unlink h r update [k..<k + Suc m] = Some h" using k nx False unfolding up by simp
    ultimately show ?thesis by (intro exI [of _ h] conjI same_nodes_refl)
  next
    case True
    then obtain nr where nr: "fwd h r k = Some nr" using Suc.prems by auto
    obtain h1 where h1: "set_fwd h (u k) k nr = Some h1" "same_nodes h h1"
      "\<forall>q j. fwd h1 q j = (if q = u k \<and> j = k then Some nr else fwd h q j)"
      using set_fwd_spec [of h "u k" k nr] nx(1) by auto
    have "\<forall>i. Suc k \<le> i \<and> i < Suc k + m \<longrightarrow> update i = Some (u i) \<and> u i \<noteq> r
      \<and> (\<exists>nx. fwd h1 (u i) i = Some nx \<and> (nx = Some r \<longleftrightarrow> i \<le> lr)) \<and> (i \<le> lr \<longrightarrow> fwd h1 r i \<noteq> None)"
      using Suc.prems h1(3) by auto
    from Suc.IH [OF this] obtain h' where h': "unlink h1 r update [Suc k..<Suc k + m] = Some h'" "same_nodes h1 h'"
      "\<forall>q j. fwd h' q j = (if Suc k \<le> j \<and> j < Suc k + m \<and> j \<le> lr \<and> q = u j then fwd h1 r j else fwd h1 q j)"
      by blast
    have "unlink h r update [k..<k + Suc m] = Some h'" using k nx True nr h1(1) h'(1) unfolding up by simp
    moreover have "fwd h' q j = (if k \<le> j \<and> j < k + Suc m \<and> j \<le> lr \<and> q = u j then fwd h r j else fwd h q j)" for q j
      using True k nr h'(3) h1(3) by (cases "j = k") auto
    ultimately show ?thesis using same_nodes_trans [OF h1(2) h'(2)] by blast
  qed
qed auto

text \<open>The empty levels at the top go.\<close>

lemma shrink_spec:
  assumes "\<forall>i \<le> l0. fwd h hdr i \<noteq> None"
  shows "\<exists>l \<le> l0. shrink h hdr l0 = Some l \<and> (\<forall>i. l < i \<and> i \<le> l0 \<longrightarrow> fwd h hdr i = Some None)"
  using assms
proof (induction l0)
  case (Suc l0)
  obtain nx where nx: "fwd h hdr (Suc l0) = Some nx" using Suc.prems by auto
  show ?case
  proof (cases nx)
    case None
    obtain l where "l \<le> l0" "shrink h hdr l0 = Some l" "\<forall>i. l < i \<and> i \<le> l0 \<longrightarrow> fwd h hdr i = Some None"
      using Suc by auto
    then show ?thesis using nx None by (intro exI [of _ l]) (auto simp: le_Suc_eq)
  qed (use nx in auto)
qed auto

text \<open>Removing \<open>r\<close>, the first of the nodes not below the key, once its pointers are redirected.\<close>

lemma delete_chains:
  assumes rep: "sl_rep s ns" and above: "above (heap s) key ns = r # rs"
    and lr: "lr = node_level (the (heap s r))" and same: "same_nodes (heap s) h"
    and fwd: "\<forall>q j. fwd h q j = (if j \<le> skip_list_level s \<and> j \<le> lr \<and> q = pred s key ns j
        then fwd (heap s) r j else fwd (heap s) q j)"
    and i: "i \<le> max_level s"
  shows "chain (h(r := None)) i (header s)
    (at_level (h(r := None)) i (below (heap s) key ns @ rs)) None"
proof -
  let ?h = "heap s" and ?B = "below (heap s) key ns" and ?f = "h(r := None)"
  note D = sl_repD [OF rep]
  have ns: "ns = ?B @ r # rs" using below_above [of ?h key ns] above by simp
  have dist: "distinct (header s # ?B @ r # rs)" using D(1) ns by simp
  have "r \<in> set ns" by (subst ns) simp
  then have lr_le: "lr \<le> skip_list_level s" using D(6) [of r] lr by auto
  have old: "chain ?h i (header s) (at_level ?h i ?B @ at_level ?h i (r # rs)) None"
    using D(8) [OF i] ns by (metis at_level_append)
  have lev: "at_level ?f i (?B @ rs) = at_level ?h i ?B @ at_level ?h i rs"
  proof -
    have "\<forall>a \<in> set (?B @ rs). node_level (the (?f a)) = node_level (the (?h a))"
    proof
      fix a assume a: "a \<in> set (?B @ rs)"
      then have "a \<noteq> r" using dist by auto
      moreover have "a \<in> set ns" using a unfolding set_append by (subst ns) auto
      then have "?h a \<noteq> None" using D(6) by blast
      ultimately show "node_level (the (?f a)) = node_level (the (?h a))" using level_of_same [OF same] by simp
    qed
    from at_level_cong [OF this, of i] show ?thesis unfolding at_level_append .
  qed
  have f: "fwd ?f q j = fwd h q j" if "q \<noteq> r" for q j using that by (simp add: fwd_def)
  have pr: "pred s key ns i \<noteq> r"
  proof -
    have "pred s key ns i \<in> set (header s # at_level ?h i ?B)" unfolding pred_def by (rule last_in_set) simp
    then show ?thesis using dist by auto
  qed
  have last_eq: "last (header s # at_level ?h i ?B) = pred s key ns i" by (simp add: pred_def)
  have other: "fwd ?f q i = fwd ?h q i"
    if q: "q \<in> set (header s # at_level ?h i ?B @ at_level ?h i rs)" "i \<le> lr \<longrightarrow> q \<noteq> pred s key ns i" for q
  proof -
    have "q \<noteq> r" using q(1) dist by auto
    then have "fwd ?f q i = fwd h q i" by (rule f)
    also have "\<dots> = fwd ?h q i" using fwd [rule_format, of q i] q(2) by (cases "i \<le> lr") simp_all
    finally show ?thesis .
  qed
  show ?thesis
  proof (cases "i \<le> lr")
    case True
    have lv: "at_level ?h i (r # rs) = r # at_level ?h i rs" using True lr by simp
    have "chain ?f i (header s) (at_level ?h i ?B @ at_level ?h i rs) None"
    proof (rule chain_delete [OF old [unfolded lv]])
      show "distinct (header s # at_level ?h i ?B @ r # at_level ?h i rs)"
        using dist by (auto simp: at_level_def)
      show "fwd ?f (last (header s # at_level ?h i ?B)) i = fwd ?h r i"
        unfolding last_eq using f [OF pr] fwd True lr_le by auto
      show "\<forall>q \<in> set (header s # at_level ?h i ?B @ at_level ?h i rs).
          q \<noteq> last (header s # at_level ?h i ?B) \<longrightarrow> fwd ?f q i = fwd ?h q i"
        unfolding last_eq using other by blast
    qed
    then show ?thesis unfolding lev .
  next
    case False
    have "\<forall>q \<in> set (header s # at_level ?h i ?B @ at_level ?h i rs). fwd ?f q i = fwd ?h q i"
      using other False by blast
    note same_chain = chain_cong [OF this]
    have "at_level ?h i (r # rs) = at_level ?h i rs" using False lr by simp
    then show ?thesis using old unfolding lev same_chain by simp
  qed
qed

lemma pred_target:
  assumes rep: "sl_rep s ns" and above: "above (heap s) key ns = r # rs" and i: "i \<le> max_level s"
  shows "pred s key ns i \<noteq> r
    \<and> (\<exists>nx. fwd (heap s) (pred s key ns i) i = Some nx \<and> (nx = Some r \<longleftrightarrow> i \<le> node_level (the (heap s r))))
    \<and> (i \<le> node_level (the (heap s r)) \<longrightarrow> fwd (heap s) r i \<noteq> None)"
proof -
  let ?h = "heap s" and ?B = "below (heap s) key ns"
  note D = sl_repD [OF rep]
  have ns: "ns = ?B @ r # rs" using below_above [of ?h key ns] above by simp
  have dist: "distinct (header s # ?B @ r # rs)" using D(1) ns by simp
  have "pred s key ns i \<in> set (header s # at_level ?h i ?B)" unfolding pred_def by (rule last_in_set) simp
  then have "pred s key ns i \<noteq> r" using dist by auto
  moreover have "fwd ?h (pred s key ns i) i =
      Some (case at_level ?h i (r # rs) of [] \<Rightarrow> None | q # _ \<Rightarrow> Some q)"
    using fwd_pred [OF rep i, of key] above by simp
  moreover have "(case at_level ?h i rs of [] \<Rightarrow> None | q # _ \<Rightarrow> Some q) \<noteq> Some r"
  proof -
    have "r \<notin> set (at_level ?h i rs)" using dist by simp
    then show ?thesis by (cases "at_level ?h i rs") (metis list.set_intros(1) list.simps(4,5) option.inject option.distinct(1))+
  qed
  moreover have "fwd ?h r i \<noteq> None" if "i \<le> node_level (the (?h r))"
  proof -
    have "r \<in> set ns" by (subst ns) simp
    then obtain n where "?h r = Some n" "length (forward n) = node_level n + 1" using D(6) by blast
    then show ?thesis using that by (simp add: fwd_def)
  qed
  ultimately show ?thesis by (simp split: if_splits)
qed

lemma delete_rep:
  assumes rep: "sl_rep s ns" and ns: "ns = bs @ r # rs"
    and old: "\<And>q. q \<in> set (header s # bs @ rs) \<Longrightarrow> \<exists>n. h q = Some n \<and> node_key n = node_key (the (heap s q))
      \<and> node_value n = node_value (the (heap s q)) \<and> node_level n = node_level (the (heap s q))
      \<and> length (forward n) = length (forward (the (heap s q)))"
    and chains: "\<And>i. i \<le> max_level s \<Longrightarrow> chain h i (header s) (at_level h i (bs @ rs)) None"
    and l: "l \<le> skip_list_level s" "\<forall>i. l < i \<and> i \<le> skip_list_level s \<longrightarrow> fwd h (header s) i = Some None"
    and freed: "dom h = dom (heap s) - {r}"
  shows "sl_rep (s\<lparr>skip_list_level := l, heap := h, element_count := element_count s - 1\<rparr>) (bs @ rs)"
  unfolding sl_rep_def
proof (intro conjI ballI allI impI)
  let ?s = "s\<lparr>skip_list_level := l, heap := h, element_count := element_count s - 1\<rparr>" and ?n = "bs @ rs"
  note D = sl_repD [OF rep]
  have sub: "set (header s # ?n) \<subseteq> set (header s # ns)" by (subst ns) auto
  show "distinct (header ?s # ?n)" using D(1) ns by simp
  show "x < next_free ?s" if "x \<in> set (header ?s # ?n)" for x using that sub D(2) [of x] by auto
  show "1 \<le> max_level ?s" "skip_list_level ?s \<le> max_level ?s" using D(3,4) l by auto
  show "\<exists>n. heap ?s (header ?s) = Some n \<and> length (forward n) = max_level ?s + 1"
    using old [of "header s"] D(5) by auto
  show "\<exists>n. heap ?s x = Some n \<and> length (forward n) = node_level n + 1 \<and> node_level n \<le> skip_list_level ?s"
    if x: "x \<in> set ?n" for x
  proof -
    have "x \<in> set ns" using x by (subst ns) auto
    then obtain n where n: "heap s x = Some n" "length (forward n) = node_level n + 1"
      "node_level n \<le> skip_list_level s" using D(6) by blast
    obtain n' where n': "h x = Some n'" "node_level n' = node_level n" "length (forward n') = length (forward n)"
      using old [of x] x n(1) by auto
    have "x \<in> set (at_level h (node_level n) ?n)" using x n' by auto
    then have "\<exists>y ys. at_level h (node_level n) ?n = y # ys" by (rule list.set_cases) blast+
    then have "\<exists>y. fwd h (header s) (node_level n) = Some (Some y)"
      using chains [of "node_level n"] n(3) D(4) by fastforce
    then have "node_level n \<le> l" using l(2) n(3) by (metis not_le option.distinct(1) option.inject)
    then show ?thesis using n n' by simp
  qed
  have "sorted_wrt (\<lambda>a b. key_of (heap s) a < key_of (heap s) b) ?n" using D(7) ns by (auto simp: sorted_wrt_append)
  then show "sorted_wrt (\<lambda>a b. key_of (heap ?s) a < key_of (heap ?s) b) ?n"
  proof (rule sorted_wrt_mono_rel [rotated])
    fix x y assume "x \<in> set ?n" "y \<in> set ?n" "key_of (heap s) x < key_of (heap s) y"
    then show "key_of (heap ?s) x < key_of (heap ?s) y"
      using old [of x] old [of y] by (auto simp: key_of_def)
  qed
  show "chain (heap ?s) i (header ?s) (at_level (heap ?s) i ?n) None" if "i \<le> max_level ?s" for i
    using chains [of i] that by simp
  show "element_count ?s = int (length ?n)" using D(9) ns by simp
  have "dom h = set (header s # ns) - {r}" using freed unfolding D(10) .
  also have "\<dots> = set (header s # ?n)" using D(1) unfolding ns by auto
  finally show "dom (heap ?s) = set (header ?s # ?n)" by simp
qed

lemma delete_node_spec:
  assumes rep: "sl_rep s ns" and above: "above (heap s) key ns = r # rs"
  shows "\<exists>h l. unlink (heap s) r
        (\<lambda>j. if j \<le> skip_list_level s then Some (pred s key ns j) else None) [0..<skip_list_level s + 1] = Some h
    \<and> shrink h (header s) (skip_list_level s) = Some l
    \<and> sl_rep (s\<lparr>skip_list_level := l, heap := h(r := None), element_count := element_count s - 1\<rparr>)
        (below (heap s) key ns @ rs)
    \<and> pairs (h(r := None)) (below (heap s) key ns @ rs) = pairs (heap s) (below (heap s) key ns @ rs)"
proof -
  let ?h = "heap s" and ?B = "below (heap s) key ns" and ?u = "pred s key ns" and ?L = "skip_list_level s"
  define lr where "lr = node_level (the (?h r))"
  note D = sl_repD [OF rep]
  have ns: "ns = ?B @ r # rs" using below_above [of ?h key ns] above by simp
  have dist: "distinct (header s # ?B @ r # rs)" using D(1) ns by simp
  have r: "r \<in> set ns" by (subst ns) simp
  have "\<forall>i. 0 \<le> i \<and> i < 0 + (?L + 1) \<longrightarrow> (if i \<le> ?L then Some (?u i) else None) = Some (?u i) \<and> ?u i \<noteq> r
      \<and> (\<exists>nx. fwd ?h (?u i) i = Some nx \<and> (nx = Some r \<longleftrightarrow> i \<le> lr)) \<and> (i \<le> lr \<longrightarrow> fwd ?h r i \<noteq> None)"
  proof (intro allI impI)
    fix i assume "0 \<le> i \<and> i < 0 + (?L + 1)"
    then have i: "i \<le> ?L" "i \<le> max_level s" using D(4) by auto
    show "(if i \<le> ?L then Some (?u i) else None) = Some (?u i) \<and> ?u i \<noteq> r
      \<and> (\<exists>nx. fwd ?h (?u i) i = Some nx \<and> (nx = Some r \<longleftrightarrow> i \<le> lr)) \<and> (i \<le> lr \<longrightarrow> fwd ?h r i \<noteq> None)"
      using i(1) pred_target [OF rep above i(2)] by (simp add: lr_def)
  qed
  from unlink_spec [OF this] obtain h where h: "unlink ?h r (\<lambda>j. if j \<le> ?L then Some (?u j) else None) [0..<?L + 1] = Some h"
    "same_nodes ?h h" "\<forall>q j. fwd h q j = (if j \<le> ?L \<and> j \<le> lr \<and> q = ?u j then fwd ?h r j else fwd ?h q j)"
    by (auto simp: less_Suc_eq_le)
  have chains: "chain (h(r := None)) i (header s) (at_level (h(r := None)) i (?B @ rs)) None"
    if "i \<le> max_level s" for i by (rule delete_chains [OF rep above lr_def h(2,3) that])
  have hdr: "fwd (h(r := None)) (header s) i = fwd h (header s) i" for i using dist by (simp add: fwd_def)
  have "fwd h (header s) i \<noteq> None" if "i \<le> ?L" for i
    using chains [of i] that D(4) hdr [of i] by (cases "at_level (h(r := None)) i (?B @ rs)") auto
  then obtain l where l: "l \<le> ?L" "shrink h (header s) ?L = Some l"
    "\<forall>i. l < i \<and> i \<le> ?L \<longrightarrow> fwd h (header s) i = Some None"
    using shrink_spec [of ?L h "header s"] by blast
  have old: "\<exists>n. (h(r := None)) q = Some n \<and> node_key n = node_key (the (?h q)) \<and> node_value n = node_value (the (?h q))
      \<and> node_level n = node_level (the (?h q)) \<and> length (forward n) = length (forward (the (?h q)))"
    if "q \<in> set (header s # ?B @ rs)" for q
  proof -
    have "q \<noteq> r" using that dist by auto
    moreover have "q \<in> set (header s # ns)" using that by (subst ns) auto
    then have "?h q = Some (the (?h q))" using D(5,6) by fastforce
    ultimately show ?thesis using same_nodesD [OF h(2), of q] by simp
  qed
  have "sl_rep (s\<lparr>skip_list_level := l, heap := h(r := None), element_count := element_count s - 1\<rparr>) (?B @ rs)"
    by (rule delete_rep [OF rep ns old chains l(1)]) (use l(3) hdr same_nodes_dom [OF h(2)] in auto)
  moreover have "pairs (h(r := None)) (?B @ rs) = pairs ?h (?B @ rs)"
    using old by (intro pairs_cong) (fastforce simp: key_of_def)
  ultimately show ?thesis using h(1) l(2) by blast
qed

section \<open>The list as a map\<close>

text \<open>\<open>sl_ok s m\<close>: \<open>s\<close> is a well-formed list that represents \<open>m\<close>.\<close>

definition sl_ok :: "('k::linorder, 'v) skip_list \<Rightarrow> ('k \<Rightarrow> 'v option) \<Rightarrow> bool" where
  "sl_ok s m \<longleftrightarrow> (\<exists>ns. sl_rep s ns \<and> m = map_of (pairs (heap s) ns))"

lemma sl_okI: "sl_rep s ns \<Longrightarrow> m = map_of (pairs (heap s) ns) \<Longrightarrow> sl_ok s m"
  by (auto simp: sl_ok_def)

text \<open>The node the descent stops before.\<close>

lemma above_cases [consumes 1, case_names none other found]:
  assumes rep: "sl_rep s ns"
  obtains (none) "above (heap s) key ns = []" "fwd (heap s) (pred s key ns 0) 0 = Some None"
      "map_of (pairs (heap s) ns) key = None"
    | (other) r rs n where "above (heap s) key ns = r # rs" "heap s r = Some n" "node_key n \<noteq> key"
      "fwd (heap s) (pred s key ns 0) 0 = Some (Some r)" "map_of (pairs (heap s) ns) key = None"
    | (found) r rs n where "above (heap s) key ns = r # rs" "heap s r = Some n" "node_key n = key"
      "fwd (heap s) (pred s key ns 0) 0 = Some (Some r)" "map_of (pairs (heap s) ns) key = Some (node_value n)"
proof (cases "above (heap s) key ns")
  case Nil
  then show thesis
    using none fwd_pred [OF rep, of 0 key] map_of_pairs_split [OF sl_repD(7) [OF rep], of key] by simp
next
  case (Cons r rs)
  then have "r \<in> set ns" using below_above [of "heap s" key ns] by (metis in_set_conv_decomp)
  then obtain n where n: "heap s r = Some n" using sl_repD(6) [OF rep] by blast
  note facts = fwd_pred [OF rep, of 0 key] map_of_pairs_split [OF sl_repD(7) [OF rep], of key]
  show thesis
    using other [OF Cons n] found [OF Cons n] facts Cons n
    by (cases "node_key n = key") (simp_all add: key_of_def)
qed

lemma key_not_in:
  assumes "map_of (pairs h ns) key = None"
  shows "key \<notin> key_of h ` set ns"
  using assms by (force simp: pairs_def map_of_eq_None_iff image_image)

lemma map_of_insert:
  assumes "map_of (xs @ ys) k = None"
  shows "map_of (xs @ (k, v) # ys) = (map_of (xs @ ys))(k \<mapsto> v)"
  using assms by (induction xs) (auto simp: fun_eq_iff split: if_splits)

lemma insert_absent:
  assumes rep: "sl_rep s ns" and new: "map_of (pairs (heap s) ns) key = None"
  shows "\<exists>s'. insert_element flips key value s = Some (s', 0)
    \<and> sl_ok s' ((map_of (pairs (heap s) ns))(key \<mapsto> value))"
proof -
  let ?L = "skip_list_level s" and ?u = "pred s key ns"
  define lvl where "lvl = get_random_level flips (max_level s)"
  let ?up = "\<lambda>i. if ?L < i \<and> i < lvl + 1 then Some (header s)
      else (if i \<le> ?L then Some (?u i) else None)"
  have "\<forall>i \<le> lvl. ?up i = Some (?u i)" using pred_high [OF rep] by auto
  from insert_node_spec [OF rep key_not_in [OF new] lvl_def refl this, of "value"]
  obtain h' where h': "link ((heap s)(next_free s \<mapsto> new_node key value lvl)) (next_free s) ?up [0..<lvl + 1] = Some h'"
    "sl_rep (s\<lparr>skip_list_level := max lvl ?L, heap := h', next_free := next_free s + 1,
           element_count := element_count s + 1\<rparr>) (below (heap s) key ns @ next_free s # above (heap s) key ns)"
    "pairs h' (below (heap s) key ns @ next_free s # above (heap s) key ns) =
        pairs (heap s) (below (heap s) key ns) @ (key, value) # pairs (heap s) (above (heap s) key ns)" by blast
  let ?s = "s\<lparr>skip_list_level := max lvl ?L, heap := h', next_free := next_free s + 1,
           element_count := element_count s + 1\<rparr>"
  have level: "(if lvl > ?L then lvl else ?L) = max lvl ?L" by (simp add: max_def)
  have ins: "insert_element flips key value s = Some (?s, 0)"
    using h'(1) by (cases rule: above_cases [OF rep, of key])
      (use new in \<open>simp_all add: insert_element_def descend_start [OF rep] lvl_def Let_def level [unfolded lvl_def] del: upt_Suc\<close>)
  have "pairs (heap s) (below (heap s) key ns) @ pairs (heap s) (above (heap s) key ns) = pairs (heap s) ns"
    by (simp only: below_above flip: pairs_simps(3))
  then have "(map_of (pairs (heap s) ns))(key \<mapsto> value) =
      map_of (pairs (heap s) (below (heap s) key ns) @ (key, value) # pairs (heap s) (above (heap s) key ns))"
    using map_of_insert new by metis
  then have "sl_ok ?s ((map_of (pairs (heap s) ns))(key \<mapsto> value))"
    using h'(3) by (intro sl_okI [OF h'(2)]) simp
  then show ?thesis using ins by blast
qed

lemma insert_present:
  assumes rep: "sl_rep s ns" and old: "map_of (pairs (heap s) ns) key \<noteq> None"
  shows "insert_element flips key value s = Some (s, 1)"
  by (cases rule: above_cases [OF rep, of key])
    (use old in \<open>simp_all add: insert_element_def descend_start [OF rep]\<close>)

lemma insert_ok:
  assumes "sl_ok s m"
  shows "\<exists>s' r. insert_element flips key value s = Some (s', r)
    \<and> r = (if m key = None then 0 else 1)
    \<and> sl_ok s' (if m key = None then m(key \<mapsto> value) else m)"
proof -
  obtain ns where ns: "sl_rep s ns" "m = map_of (pairs (heap s) ns)" using assms by (auto simp: sl_ok_def)
  show ?thesis
  proof (cases "m key")
    case None
    then show ?thesis using insert_absent [OF ns(1), of key flips "value"] ns(2) by auto
  next
    case (Some v)
    then show ?thesis using insert_present [OF ns(1), of key flips "value"] assms ns(2) by auto
  qed
qed

lemma search_ok: "sl_ok s m \<Longrightarrow> search_element key s = Some (m key)"
  by (auto simp: sl_ok_def search_spec)

lemma map_of_delete:
  assumes "sorted_wrt (\<lambda>a b. fst a < fst b) (xs @ (k :: 'k::order, v) # ys)"
  shows "map_of (xs @ ys) = (map_of (xs @ (k, v) # ys))(k := None)"
  using assms
proof (induction xs)
  case Nil
  then have "map_of ys k = None" by (auto simp: map_of_eq_None_iff)
  then show ?case by (auto simp: fun_eq_iff)
qed (auto simp: fun_eq_iff)

lemma pairs_sorted:
  "sorted_wrt (\<lambda>a b. key_of h a < key_of h b) ns \<Longrightarrow> sorted_wrt (\<lambda>a b. fst a < fst b) (pairs h ns)"
  by (simp add: pairs_def sorted_wrt_map)

lemma delete_ok:
  assumes "sl_ok s m"
  shows "\<exists>s'. delete_element key s = Some s' \<and> sl_ok s' (m(key := None))"
proof -
  obtain ns where rep: "sl_rep s ns" and m: "m = map_of (pairs (heap s) ns)"
    using assms by (auto simp: sl_ok_def)
  have same: "m(key := None) = m" if "m key = None" using that by (auto simp: fun_eq_iff)
  from rep show ?thesis
  proof (cases rule: above_cases [where key = key])
    case none
    then show ?thesis using same m assms by (simp add: delete_element_def descend_start [OF rep])
  next
    case (other r rs n)
    then show ?thesis using same m assms by (simp add: delete_element_def descend_start [OF rep])
  next
    case (found r rs n)
    obtain h l where h: "unlink (heap s) r
        (\<lambda>j. if j \<le> skip_list_level s then Some (pred s key ns j) else None) [0..<skip_list_level s + 1] = Some h"
      "shrink h (header s) (skip_list_level s) = Some l"
      "sl_rep (s\<lparr>skip_list_level := l, heap := h(r := None), element_count := element_count s - 1\<rparr>)
        (below (heap s) key ns @ rs)"
      "pairs (h(r := None)) (below (heap s) key ns @ rs) = pairs (heap s) (below (heap s) key ns @ rs)"
      using delete_node_spec [OF rep found(1)] by blast
    let ?s = "s\<lparr>skip_list_level := l, heap := h(r := None), element_count := element_count s - 1\<rparr>"
    have "delete_element key s = Some ?s"
      using found h(1,2) by (simp add: delete_element_def descend_start [OF rep] del: upt_Suc)
    moreover have "m(key := None) = map_of (pairs (heap s) (below (heap s) key ns @ rs))"
    proof -
      have ns: "below (heap s) key ns @ r # rs = ns" using below_above [of "heap s" key ns] found(1) by simp
      have "pairs (heap s) (below (heap s) key ns @ r # rs) =
          pairs (heap s) (below (heap s) key ns) @ (key, node_value n) # pairs (heap s) rs"
        using found(2,3) by (simp add: key_of_def)
      then have split: "pairs (heap s) ns =
          pairs (heap s) (below (heap s) key ns) @ (key, node_value n) # pairs (heap s) rs" unfolding ns .
      show ?thesis
        using map_of_delete [of "pairs (heap s) (below (heap s) key ns)" key "node_value n" "pairs (heap s) rs"]
          pairs_sorted [OF sl_repD(7) [OF rep]] unfolding m split by simp
    qed
    then have "sl_ok ?s (m(key := None))" using h(4) by (intro sl_okI [OF h(3)]) simp
    ultimately show ?thesis by blast
  qed
qed

lemma insert_set_ok:
  assumes "sl_ok s m"
  shows "\<exists>s'. insert_set_element flips key value s = Some s' \<and> sl_ok s' (m(key \<mapsto> value))"
proof (cases "m key")
  case None
  then show ?thesis
    using insert_ok [OF assms, of flips key "value"] by (auto simp: insert_set_element_def search_ok [OF assms])
next
  case (Some v)
  obtain s1 where s1: "delete_element key s = Some s1" "sl_ok s1 (m(key := None))"
    using delete_ok [OF assms] by blast
  then show ?thesis
    using insert_ok [OF s1(2), of flips key "value"] Some
    by (auto simp: insert_set_element_def search_ok [OF assms])
qed

lemma SkipList_ok:
  assumes "1 \<le> m"
  shows "sl_ok (SkipList k v m) Map.empty"
proof (rule sl_okI [of _ "[]"])
  show "sl_rep (SkipList k v m) []"
    using assms by (auto simp: sl_rep_def SkipList_def new_node_def fwd_def simp del: replicate_Suc)
qed simp

section \<open>Destruction\<close>

text \<open>\<open>clear\<close> frees exactly the nodes of the chain, each once.\<close>

lemma clear_chain:
  assumes "chain h 0 p ns None" "distinct (p # ns)" "set (p # ns) \<subseteq> dom h"
  shows "clear h p = Some (h |` (- set (p # ns)))"
  using assms
proof (induction ns arbitrary: p)
  case Nil
  have "h(p := None) = h |` (- {p})" by (auto simp: restrict_map_def fun_eq_iff)
  then show ?case using Nil by (subst clear.simps) (auto simp: delete_node_def)
next
  case (Cons x ns)
  have "clear h x = Some (h |` (- set (x # ns)))" using Cons.prems by (intro Cons.IH) auto
  moreover have "(h |` (- set (x # ns))) p = h p" using Cons.prems(2) by (simp add: restrict_map_def)
  moreover have "(h |` (- set (x # ns)))(p := None) = h |` (- set (p # x # ns))"
    by (auto simp: restrict_map_def fun_eq_iff)
  moreover have "h p \<noteq> None" "fwd h p 0 = Some (Some x)" using Cons.prems(1,3) by auto
  ultimately show ?case by (subst clear.simps) (simp add: delete_node_def)
qed

lemma delete_SkipList_ok:
  assumes "sl_ok s m"
  shows "delete_SkipList s = Some Map.empty"
proof -
  obtain ns where rep: "sl_rep s ns" using assms by (auto simp: sl_ok_def)
  note D = sl_repD [OF rep]
  have all: "at_level (heap s) 0 ns = ns" by (simp add: at_level_def)
  have chain: "chain (heap s) 0 (header s) ns None" using D(8) [of 0] all by simp
  have dom: "dom (heap s) = set (header s # ns)" by (rule D(10))
  have "clear (heap s) (header s) = Some (heap s |` (- set (header s # ns)))"
    using clear_chain [OF chain D(1)] dom by simp
  moreover have "heap s |` (- set (header s # ns)) = Map.empty"
    unfolding dom [symmetric] by (auto simp: restrict_map_def fun_eq_iff)
  moreover have "delete_SkipList s = clear (heap s) (header s)"
    unfolding delete_SkipList_def by (subst clear.simps) (rule refl)
  ultimately show ?thesis by simp
qed

lemma size_ok: "sl_ok s m \<Longrightarrow> finite (dom m) \<and> size_of s = int (card (dom m))"
proof -
  assume "sl_ok s m"
  then obtain ns where rep: "sl_rep s ns" and m: "m = map_of (pairs (heap s) ns)" by (auto simp: sl_ok_def)
  have "sorted_wrt (<) (map fst (pairs (heap s) ns))"
    using sl_repD(7) [OF rep] by (simp add: pairs_def sorted_wrt_map comp_def)
  then have "distinct (map fst (pairs (heap s) ns))" by (simp add: strict_sorted_iff)
  then have "card (dom m) = length (pairs (heap s) ns)"
    unfolding m dom_map_of_conv_image_fst by (metis distinct_card length_map list.set_map)
  then show ?thesis using sl_repD(9) [OF rep] by (simp add: m size_of_def finite_dom_map_of)
qed

section \<open>Dumps\<close>

lemma dump_loop_chain:
  assumes "chain h 0 p ns None" "\<forall>a \<in> set ns. h a \<noteq> None"
  shows "\<exists>q. fwd h p 0 = Some q \<and> dump_loop h q = Some (pairs h ns)"
  using assms
proof (induction ns arbitrary: p)
  case Nil
  then show ?case by (subst dump_loop.simps) simp
next
  case (Cons a ns)
  then obtain n where n: "h a = Some n" by auto
  obtain q where "fwd h a 0 = Some q" "dump_loop h q = Some (pairs h ns)"
    using Cons.IH [of a] Cons.prems by auto
  then have "dump_loop h (Some a) = Some (pairs h (a # ns))"
    using n by (subst dump_loop.simps) (simp add: key_of_def)
  then show ?case using Cons.prems(1) by auto
qed

lemma dump_ok:
  assumes "sl_ok s m"
  shows "\<exists>d. dump_file s = Some d \<and> sorted_wrt (<) (keyDumpVt d)
    \<and> length (valDumpVt d) = length (keyDumpVt d) \<and> map_of (zip (keyDumpVt d) (valDumpVt d)) = m
    \<and> size_of s = int (length (keyDumpVt d))"
proof -
  obtain ns where rep: "sl_rep s ns" and m: "m = map_of (pairs (heap s) ns)"
    using assms by (auto simp: sl_ok_def)
  have "chain (heap s) 0 (header s) ns None" using sl_repD(8) [OF rep, of 0] by simp
  moreover have "\<forall>a \<in> set ns. heap s a \<noteq> None" using sl_repD(6) [OF rep] by auto
  ultimately obtain q where "fwd (heap s) (header s) 0 = Some q" "dump_loop (heap s) q = Some (pairs (heap s) ns)"
    using dump_loop_chain by blast
  then have "dump_file s = Some \<lparr>keyDumpVt = map fst (pairs (heap s) ns), valDumpVt = map snd (pairs (heap s) ns)\<rparr>"
    by (simp add: dump_file_def)
  moreover have "sorted_wrt (<) (map fst (pairs (heap s) ns))"
    using pairs_sorted [OF sl_repD(7) [OF rep]] by (simp add: sorted_wrt_map)
  ultimately show ?thesis using sl_repD(9) [OF rep] by (simp add: m zip_map_fst_snd size_of_def)
qed

lemma load_ok:
  assumes "sl_ok s m"
  shows "\<exists>s'. load_loop flipss ks s = Some s'
    \<and> sl_ok s' (\<lambda>k. if m k = None \<and> k \<in> set ks then Some k else m k)"
  using assms
proof (induction ks arbitrary: flipss s m)
  case Nil
  then show ?case by simp
next
  case (Cons k ks)
  let ?f = "case flipss of [] \<Rightarrow> [] | f # _ \<Rightarrow> f" and ?m = "if m k = None then m(k \<mapsto> k) else m"
  obtain s1 r where s1: "insert_element ?f k k s = Some (s1, r)" "sl_ok s1 ?m"
    using insert_ok [OF Cons.prems, of ?f k k] by blast
  have "(\<lambda>j. if ?m j = None \<and> j \<in> set ks then Some j else ?m j) =
      (\<lambda>j. if m j = None \<and> j \<in> set (k # ks) then Some j else m j)" by (auto simp: fun_eq_iff)
  then show ?case using Cons.IH [OF s1(2), of "tl flipss"] s1(1) by simp
qed

section \<open>The interface the server uses\<close>

text \<open>
  A store: \<open>rep\<close> relates it to the map it holds, reading returns the map's value, and overwriting
  updates one key; both always return.
\<close>

locale kv_store =
  fixes rep :: "'s \<Rightarrow> ('k \<Rightarrow> 'v option) \<Rightarrow> bool"
    and lookup :: "'k \<Rightarrow> 's \<Rightarrow> 'v option option"
    and overwrite :: "bool list \<Rightarrow> 'k \<Rightarrow> 'v \<Rightarrow> 's \<Rightarrow> 's option"
  assumes lookup_rep: "rep s m \<Longrightarrow> lookup k s = Some (m k)"
    and overwrite_rep: "rep s m \<Longrightarrow> \<exists>s'. overwrite f k v s = Some s' \<and> rep s' (m(k \<mapsto> v))"
begin

lemma overwrite_keeps: "rep s m \<Longrightarrow> overwrite f k v s = Some s' \<Longrightarrow> rep s' (m(k \<mapsto> v))"
  using overwrite_rep [of s m f k v] by auto

lemma rep_unique: "rep s m \<Longrightarrow> rep s m' \<Longrightarrow> m = m'"
  using lookup_rep [of s m] lookup_rep [of s m'] by (auto simp: fun_eq_iff)

lemma lookup_overwrite:
  "rep s m \<Longrightarrow> overwrite f k v s = Some s' \<Longrightarrow> lookup j s' = (if j = k then Some (Some v) else lookup j s)"
  using lookup_rep [OF overwrite_keeps, of s m f k v s' j] lookup_rep [of s m j] by simp

end

interpretation sl: kv_store sl_ok search_element insert_set_element
  by unfold_locales (auto simp: search_ok insert_set_ok)

section \<open>Properties\<close>

text \<open>C23: The skip list refines a finite map: on a well-formed list every operation returns, without
  following an invalid pointer or indexing outside a forward array; \<open>search_element\<close> returns the
  map's value, \<open>insert_element\<close> changes only an absent key and reports 1 for a present one,
  \<open>insert_set_element\<close> updates the key, \<open>delete_element\<close> removes it, for any coin flips; \<open>size\<close> is the number of
  keys. Nothing leaks: whatever was done to the list, the destructor frees every node that is allocated, each once.\<close>

theorem skip_list_refines_map:
  assumes "sl_ok s m"
  shows "search_element key s = Some (m key)
    \<and> (\<exists>s' r. insert_element flips key v s = Some (s', r) \<and> r = (if m key = None then 0 else 1)
         \<and> sl_ok s' (if m key = None then m(key \<mapsto> v) else m))
    \<and> (\<exists>s'. insert_set_element flips key v s = Some s' \<and> sl_ok s' (m(key \<mapsto> v)))
    \<and> (\<exists>s'. delete_element key s = Some s' \<and> sl_ok s' (m(key := None)))
    \<and> size_of s = int (card (dom m)) \<and> delete_SkipList s = Some Map.empty"
  using search_ok [OF assms] insert_ok [OF assms] insert_set_ok [OF assms] delete_ok [OF assms]
    size_ok [OF assms] delete_SkipList_ok [OF assms]
  by (intro conjI) blast+

lemma sample_list:
  "\<exists>s. insert_set_element [True, False] 3 (5 :: nat) (SkipList (0 :: nat) 0 6) = Some s \<and> sl_ok s [3 \<mapsto> 5]"
  using insert_set_ok [OF SkipList_ok [of 6 0 "0 :: nat"]] by simp

theorem skip_list_refines_map_witness:
  "\<exists>s. insert_set_element [True, False] 3 (5 :: nat) (SkipList (0 :: nat) 0 6) = Some s
    \<and> search_element 3 s = Some (Some 5) \<and> search_element 4 s = Some None
    \<and> (\<exists>s'. delete_element 3 s = Some s' \<and> sl_ok s' Map.empty)"
proof -
  obtain s where s: "insert_set_element [True, False] 3 (5 :: nat) (SkipList (0 :: nat) 0 6) = Some s"
    "sl_ok s [3 \<mapsto> 5]" using sample_list by blast
  then show ?thesis
    using skip_list_refines_map [OF s(2), of 3 "[]" 0] skip_list_refines_map [OF s(2), of 4 "[]" 0] by auto
qed

text \<open>\<open>dump_file\<close> on a well-formed list returns; its keys are strictly sorted, there is one value
  per key, the two vectors zipped are the map the list represents, and \<open>size\<close> is their length.\<close>

lemma dump_file_spec:
  assumes "sl_ok s m"
  shows "\<exists>d. dump_file s = Some d \<and> sorted_wrt (<) (keyDumpVt d)
    \<and> length (valDumpVt d) = length (keyDumpVt d) \<and> map_of (zip (keyDumpVt d) (valDumpVt d)) = m
    \<and> size_of s = int (length (keyDumpVt d))"
  by (rule dump_ok [OF assms])

theorem dump_file_spec_witness:
  "\<exists>s d. sl_ok s [3 \<mapsto> (5 :: nat)] \<and> dump_file s = Some d \<and> map_of (zip (keyDumpVt d) (valDumpVt d)) (3 :: nat) = Some 5"
proof -
  obtain s :: "(nat, nat) skip_list" where s: "sl_ok s [3 \<mapsto> 5]" using sample_list by blast
  then show ?thesis using dump_file_spec [OF s] by fastforce
qed

text \<open>A dump does not survive loading: \<open>load_file\<close> passes each key for its value too, so a fresh
  list that loads the dump of \<open>s\<close> has the keys of \<open>s\<close>, and every one of them is mapped to itself.\<close>

lemma load_file_loses_values:
  assumes "sl_ok s m" "1 \<le> levels"
  shows "\<exists>d s'. dump_file s = Some d \<and> load_file flipss d (SkipList k v levels) = Some s'
    \<and> sl_ok s' (\<lambda>key. if m key = None then None else Some key)"
proof -
  obtain d where d: "dump_file s = Some d" "map_of (zip (keyDumpVt d) (valDumpVt d)) = m"
    "length (valDumpVt d) = length (keyDumpVt d)" using dump_ok [OF assms(1)] by blast
  have "key \<in> set (keyDumpVt d) \<longleftrightarrow> m key \<noteq> None" for key
    using d(2,3) map_of_zip_is_None [of "keyDumpVt d" "valDumpVt d" key] by auto
  then have keys: "(\<lambda>key. if key \<in> set (keyDumpVt d) then Some key else None) =
      (\<lambda>key. if m key = None then None else Some key)" by (auto simp: fun_eq_iff)
  obtain s' where "load_loop flipss (keyDumpVt d) (SkipList k v levels) = Some s'"
    "sl_ok s' (\<lambda>key. if key \<in> set (keyDumpVt d) then Some key else None)"
    using load_ok [OF SkipList_ok [OF assms(2), of k v], of flipss "keyDumpVt d"] by auto
  then show ?thesis using d(1) unfolding keys by (auto simp: load_file_def)
qed

theorem load_file_loses_values_witness:
  "\<exists>s d s'. search_element 3 s = Some (Some (5 :: nat)) \<and> dump_file s = Some d
    \<and> load_file [] d (SkipList (0 :: nat) 0 6) = Some s' \<and> search_element 3 s' = Some (Some 3)"
proof -
  obtain s :: "(nat, nat) skip_list" where s: "sl_ok s [3 \<mapsto> 5]" using sample_list by blast
  obtain d s' where "dump_file s = Some d" "load_file [] d (SkipList (0 :: nat) 0 6) = Some s'"
    "sl_ok s' (\<lambda>key. if [3 \<mapsto> (5 :: nat)] key = None then None else Some key)"
    using load_file_loses_values [OF s, of 6 "[]" 0 0] by auto
  then show ?thesis using search_ok [OF s, of 3] search_ok [of s' _ 3] by (intro exI conjI) auto
qed

end
