(* ===== verification/Kv_Server.thy ===== *)
theory Kv_Server
  imports Raft_Apply Skip_List "HOL-Library.AList" "HOL-Library.List_Lexorder" "HOL-Library.Char_ord"
    "HOL-Library.Signed_Division"
begin

text \<open>
  The key-value server of src/kvserver/KvServer.cc: the store and the table of executed requests, the
  apply loop, the request handlers with their wait channels, and snapshots. A server is paired with
  its raft node. The wait channels are objects on a heap, since two handlers can hold a pointer to the
  same one. Each section under the mutex is one step; a handler that waits is split there. The text
  archives of the serialization library are a parameter, \<open>archives\<close>; parsing a text that is not an
  archive throws. \<open>std::string\<close> compares by unsigned bytes, as the order on \<open>string\<close> here does.
\<close>

section \<open>State\<close>

record Op =
  Operation :: string
  Key :: string
  Value :: string
  ClientId :: string
  RequestId :: int

record archives =
  op_text :: "Op \<Rightarrow> string"
  op_parse :: "string \<Rightarrow> Op option"
  dump_text :: "(string, string) skip_list_dump \<Rightarrow> string"
  dump_parse :: "string \<Rightarrow> (string, string) skip_list_dump option"
  server_text :: "string \<times> (string \<times> int) list \<Rightarrow> string"
  server_parse :: "string \<Rightarrow> (string \<times> (string \<times> int) list) option"

record kv_server =
  m_skipList :: "(string, string) skip_list"
  waitApplyCh :: "int \<Rightarrow> nat option"
  chan_heap :: "nat \<Rightarrow> Op lock_queue option"
  next_chan :: nat
  m_last_RequestId :: "(string \<times> int) list"
  m_lastSnapShotRaftLogIndex :: int
  m_maxRaftState :: int

definition OK :: string where "OK = ''OK''"
definition ErrNoKey :: string where "ErrNoKey = ''ErrNoKey''"
definition ErrWrongLeader :: string where "ErrWrongLeader = ''ErrWrongLeader''"

section \<open>Executing an operation\<close>

definition ExecutePutOpOnKVDB :: "bool list \<Rightarrow> Op \<Rightarrow> kv_server \<Rightarrow> kv_server result" where
  "ExecutePutOpOnKVDB flips op s =
     rbind (or_fault (Bad_pointer 75) (insert_set_element flips (Key op) (Value op) (m_skipList s))) (\<lambda>l.
     Inr (s\<lparr>m_skipList := l,
            m_last_RequestId := AList.update (ClientId op) (RequestId op) (m_last_RequestId s)\<rparr>))"

definition ExecuteAppendOpOnKVDB :: "bool list \<Rightarrow> Op \<Rightarrow> kv_server \<Rightarrow> kv_server result" where
  "ExecuteAppendOpOnKVDB flips op s =
     rbind (or_fault (Bad_pointer 40) (insert_set_element flips (Key op) (Value op) (m_skipList s))) (\<lambda>l.
     Inr (s\<lparr>m_skipList := l,
            m_last_RequestId := AList.update (ClientId op) (RequestId op) (m_last_RequestId s)\<rparr>))"

text \<open>The value and whether the key exists.\<close>

definition ExecuteGetOpOnKVDB :: "Op \<Rightarrow> kv_server \<Rightarrow> (string \<times> bool \<times> kv_server) result" where
  "ExecuteGetOpOnKVDB op s =
     rbind (or_fault (Bad_pointer 54) (search_element (Key op) (m_skipList s))) (\<lambda>found.
     Inr (case found of None \<Rightarrow> [] | Some v \<Rightarrow> v, found \<noteq> None,
       s\<lparr>m_last_RequestId := AList.update (ClientId op) (RequestId op) (m_last_RequestId s)\<rparr>))"

definition ifRequestDuplicate :: "string \<Rightarrow> int \<Rightarrow> kv_server \<Rightarrow> bool" where
  "ifRequestDuplicate client request s =
     (case map_of (m_last_RequestId s) client of None \<Rightarrow> False | Some k \<Rightarrow> request \<le> k)"

section \<open>Snapshots\<close>

definition MakeSnapShot :: "archives \<Rightarrow> kv_server \<Rightarrow> string result" where
  "MakeSnapShot A s =
     rbind (or_fault (Bad_pointer 271) (dump_file (m_skipList s))) (\<lambda>d.
     Inr (server_text A (dump_text A d, m_last_RequestId s)))"

text \<open>\<open>parseFromString\<close>; an empty dump is not parsed. One list of coin flips per key.\<close>

definition server_parseFromString :: "archives \<Rightarrow> bool list list \<Rightarrow> string \<Rightarrow> kv_server \<Rightarrow> kv_server result" where
  "server_parseFromString A flipss str s =
     rbind (or_fault (Uncaught 120) (server_parse A str)) (\<lambda>(date, table).
     if date = [] then Inr (s\<lparr>m_last_RequestId := table\<rparr>)
     else rbind (or_fault (Uncaught 317) (dump_parse A date)) (\<lambda>d.
          rbind (or_fault (Bad_pointer 320) (load_file flipss d (m_skipList s))) (\<lambda>l.
          Inr (s\<lparr>m_skipList := l, m_last_RequestId := table\<rparr>))))"

definition ReadSnapShotToInstall :: "archives \<Rightarrow> bool list list \<Rightarrow> string \<Rightarrow> kv_server \<Rightarrow> kv_server result" where
  "ReadSnapShotToInstall A flipss snapshot s =
     (if snapshot = [] then Inr s else server_parseFromString A flipss snapshot s)"

definition GetSnapShotFromRaft :: "archives \<Rightarrow> bool list list \<Rightarrow> ApplyMsg \<Rightarrow> kv_server \<Rightarrow> kv_server result" where
  "GetSnapShotFromRaft A flipss message s =
     rbind (ReadSnapShotToInstall A flipss (Snapshot_data message) s) (\<lambda>s'.
     Inr (s'\<lparr>m_lastSnapShotRaftLogIndex := SnapshotIndex message\<rparr>))"

text \<open>\<open>state_size\<close> is what \<open>GetRaftStateSize\<close> returns.\<close>

definition IfNeedToSendSnapShotCommand ::
  "archives \<Rightarrow> int \<Rightarrow> int \<Rightarrow> int \<Rightarrow> kv_server \<times> raft \<Rightarrow> (kv_server \<times> raft) result" where
  "IfNeedToSendSnapShotCommand A state_size raftIndex proportion n =
     (if state_size > m_maxRaftState (fst n) sdiv proportion then
        rbind (MakeSnapShot A (fst n)) (\<lambda>snapshot.
        rbind (Snapshot raftIndex snapshot (snd n)) (\<lambda>r. Inr (fst n, r)))
      else Inr n)"

text \<open>The constructor: a new list of six levels, and the snapshot file if there is one.\<close>

definition KvServer :: "archives \<Rightarrow> bool list list \<Rightarrow> int \<Rightarrow> string \<Rightarrow> kv_server result" where
  "KvServer A flipss maxraftstate snapshot =
     (let s = \<lparr>m_skipList = SkipList [] [] 6, waitApplyCh = (\<lambda>_. None), chan_heap = (\<lambda>_. None),
               next_chan = 0, m_last_RequestId = [], m_lastSnapShotRaftLogIndex = 0,
               m_maxRaftState = maxraftstate\<rparr> in
      if snapshot \<noteq> [] then ReadSnapShotToInstall A flipss snapshot s else Inr s)"

section \<open>The apply loop\<close>

definition SendMessageToWaitChan :: "Op \<Rightarrow> int \<Rightarrow> kv_server \<Rightarrow> (bool \<times> kv_server) result" where
  "SendMessageToWaitChan op raftIndex s =
     (case waitApplyCh s raftIndex of
        None \<Rightarrow> Inr (False, s)
      | Some a \<Rightarrow> rbind (or_fault (Bad_pointer 428) (chan_heap s a)) (\<lambda>q.
          Inr (True, s\<lparr>chan_heap := (chan_heap s)(a \<mapsto> Push op q)\<rparr>)))"

definition execute_command :: "bool list \<Rightarrow> Op \<Rightarrow> kv_server \<Rightarrow> kv_server result" where
  "execute_command flips op s =
     (if ifRequestDuplicate (ClientId op) (RequestId op) s then Inr s
      else rbind (if Operation op = ''Put'' then ExecutePutOpOnKVDB flips op s else Inr s) (\<lambda>s1.
           if Operation op = ''Append'' then ExecuteAppendOpOnKVDB flips op s1 else Inr s1))"

definition GetCommandFromRaft ::
  "archives \<Rightarrow> int \<Rightarrow> bool list \<Rightarrow> ApplyMsg \<Rightarrow> kv_server \<times> raft \<Rightarrow> (kv_server \<times> raft) result" where
  "GetCommandFromRaft A state_size flips message n =
     rbind (or_fault (Uncaught 70) (op_parse A (Command message))) (\<lambda>op.
     if CommandIndex message \<le> m_lastSnapShotRaftLogIndex (fst n) then Inr n
     else rbind (execute_command flips op (fst n)) (\<lambda>s.
          rbind (if m_maxRaftState s \<noteq> -1
                 then IfNeedToSendSnapShotCommand A state_size (CommandIndex message) 9 (s, snd n)
                 else Inr (s, snd n)) (\<lambda>n1.
          rbind (SendMessageToWaitChan op (CommandIndex message) (fst n1)) (\<lambda>(_, s2).
          Inr (s2, snd n1)))))"

text \<open>
  One round of \<open>ReadRaftApplyCommandLoop\<close>; \<open>None\<close> is a round that waits for a message. The
  environment of a round is the size of the raft state, the coin flips of a command and those of a snapshot.
\<close>

type_synonym round_env = "int \<times> bool list \<times> bool list list"

definition apply_round ::
  "archives \<Rightarrow> round_env \<Rightarrow> kv_server \<times> raft \<Rightarrow> (kv_server \<times> raft) option result" where
  "apply_round A env n =
     (case Pop (applyChan (snd n)) of
        None \<Rightarrow> Inr None
      | Some (message, q) \<Rightarrow>
          (case env of (state_size, flips, flipss) \<Rightarrow>
             rbind (if CommandValid message
                    then GetCommandFromRaft A state_size flips message (fst n, (snd n)\<lparr>applyChan := q\<rparr>)
                    else Inr (fst n, (snd n)\<lparr>applyChan := q\<rparr>)) (\<lambda>n1.
             rbind (if SnapshotValid message then GetSnapShotFromRaft A flipss message (fst n1)
                    else Inr (fst n1)) (\<lambda>s2.
             Inr (Some (s2, snd n1))))))"

fun apply_rounds ::
  "archives \<Rightarrow> round_env list \<Rightarrow> kv_server \<times> raft \<Rightarrow> (kv_server \<times> raft) result" where
  "apply_rounds A [] n = Inr n"
| "apply_rounds A (env # envs) n =
     rbind (apply_round A env n) (\<lambda>m. case m of None \<Rightarrow> Inr n | Some n' \<Rightarrow> apply_rounds A envs n')"

section \<open>Request handlers\<close>

text \<open>The operations the two handlers make of their arguments.\<close>

definition get_op :: "string \<Rightarrow> string \<Rightarrow> int \<Rightarrow> Op" where
  "get_op key client request = \<lparr>Operation = ''Get'', Key = key, Value = [], ClientId = client, RequestId = request\<rparr>"

definition put_append_op :: "string \<Rightarrow> string \<Rightarrow> string \<Rightarrow> string \<Rightarrow> int \<Rightarrow> Op" where
  "put_append_op opr key v client request =
     \<lparr>Operation = opr, Key = key, Value = v, ClientId = client, RequestId = request\<rparr>"

text \<open>What a handler is after its first section: answered, or waiting on a channel.\<close>

datatype pending = Answered string | Waiting (wait_index: int) (wait_chan: nat)

definition open_channel :: "int \<Rightarrow> kv_server \<Rightarrow> nat \<times> kv_server" where
  "open_channel raftIndex s =
     (case waitApplyCh s raftIndex of
        Some a \<Rightarrow> (a, s)
      | None \<Rightarrow> (next_chan s, s\<lparr>waitApplyCh := (waitApplyCh s)(raftIndex \<mapsto> next_chan s),
                  chan_heap := (chan_heap s)(next_chan s \<mapsto> empty_queue),
                  next_chan := next_chan s + 1\<rparr>))"

text \<open>\<open>waitApplyCh[raftIndex]\<close> is null when the entry is gone, and deleting null does nothing.\<close>

definition close_channel :: "int \<Rightarrow> kv_server \<Rightarrow> kv_server" where
  "close_channel raftIndex s =
     (case waitApplyCh s raftIndex of
        None \<Rightarrow> s
      | Some a \<Rightarrow> s\<lparr>waitApplyCh := (waitApplyCh s)(raftIndex := None),
                    chan_heap := (chan_heap s)(a := None)\<rparr>)"

definition begin_request :: "archives \<Rightarrow> Op \<Rightarrow> kv_server \<times> raft \<Rightarrow> pending \<times> kv_server \<times> raft" where
  "begin_request A op n =
     (case Start (op_text A op) (snd n) of
        (r, rep) \<Rightarrow>
          if \<not> st_isLeader rep then (Answered ErrWrongLeader, fst n, r)
          else (case open_channel (st_index rep) (fst n) of
                  (a, s) \<Rightarrow> (Waiting (st_index rep) a, s, r)))"

text \<open>The end of the wait: the pushes that arrived before it are already in the channel.\<close>

definition wait_channel :: "nat \<Rightarrow> kv_server \<Rightarrow> (Op option \<times> kv_server) result" where
  "wait_channel a s =
     rbind (or_fault (Bad_pointer 308) (chan_heap s a)) (\<lambda>q.
     case timeOutPop [] \<lparr>Operation = [], Key = [], Value = [], ClientId = [], RequestId = 0\<rparr> q of
       (ok, op, q') \<Rightarrow> Inr (if ok then Some op else None, s\<lparr>chan_heap := (chan_heap s)(a \<mapsto> q')\<rparr>))"

definition PutAppend_end :: "Op \<Rightarrow> int \<Rightarrow> nat \<Rightarrow> kv_server \<Rightarrow> (string \<times> kv_server) result" where
  "PutAppend_end op raftIndex a s =
     rbind (wait_channel a s) (\<lambda>(raftCommitOp, s').
     Inr (case raftCommitOp of
            None \<Rightarrow> if ifRequestDuplicate (ClientId op) (RequestId op) s' then OK else ErrWrongLeader
          | Some c \<Rightarrow> if ClientId c = ClientId op \<and> RequestId op = RequestId c then OK else ErrWrongLeader,
          close_channel raftIndex s'))"

definition answer_get :: "Op \<Rightarrow> kv_server \<Rightarrow> ((string \<times> string) \<times> kv_server) result" where
  "answer_get op s =
     rbind (ExecuteGetOpOnKVDB op s) (\<lambda>(v, exist, s').
     Inr (if exist then (OK, v) else (ErrNoKey, []), s'))"

text \<open>\<open>isLeader\<close> is what \<open>GetState\<close> returns after a timeout.\<close>

definition Get_end :: "bool \<Rightarrow> Op \<Rightarrow> int \<Rightarrow> nat \<Rightarrow> kv_server \<Rightarrow> ((string \<times> string) \<times> kv_server) result" where
  "Get_end isLeader op raftIndex a s =
     rbind (wait_channel a s) (\<lambda>(raftCommitOp, s1).
     rbind (case raftCommitOp of
              None \<Rightarrow> if ifRequestDuplicate (ClientId op) (RequestId op) s1 \<and> isLeader
                      then answer_get op s1 else Inr ((ErrWrongLeader, []), s1)
            | Some c \<Rightarrow> if ClientId c = ClientId op \<and> RequestId c = RequestId op
                      then answer_get op s1 else Inr ((ErrWrongLeader, []), s1)) (\<lambda>(rep, s2).
     Inr (rep, close_channel raftIndex s2)))"

section \<open>What the server represents\<close>

text \<open>The abstract server: the map and the table of the highest request executed for each client.\<close>

type_synonym kv_state = "(string \<Rightarrow> string option) \<times> (string \<Rightarrow> int option)"

definition executed :: "Op \<Rightarrow> kv_state \<Rightarrow> bool" where
  "executed op st \<longleftrightarrow> (\<exists>k. snd st (ClientId op) = Some k \<and> RequestId op \<le> k)"

definition exec_op :: "Op \<Rightarrow> kv_state \<Rightarrow> kv_state" where
  "exec_op op st =
     (if \<not> executed op st \<and> Operation op \<in> {''Put'', ''Append''}
      then ((fst st)(Key op \<mapsto> Value op), (snd st)(ClientId op \<mapsto> RequestId op)) else st)"

text \<open>Every entry of \<open>waitApplyCh\<close> points to a live channel, and no two to the same.\<close>

definition chans_ok :: "kv_server \<Rightarrow> bool" where
  "chans_ok s \<longleftrightarrow> (\<forall>i a. waitApplyCh s i = Some a \<longrightarrow> chan_heap s a \<noteq> None)
     \<and> (\<forall>i j a. waitApplyCh s i = Some a \<and> waitApplyCh s j = Some a \<longrightarrow> i = j)
     \<and> (\<forall>a. next_chan s \<le> a \<longrightarrow> chan_heap s a = None)"

definition kv_rep :: "kv_server \<Rightarrow> kv_state \<Rightarrow> bool" where
  "kv_rep s st \<longleftrightarrow> sl_ok (m_skipList s) (fst st) \<and> map_of (m_last_RequestId s) = snd st \<and> chans_ok s"

lemma kv_repD:
  "kv_rep s st \<Longrightarrow> sl_ok (m_skipList s) (fst st)" "kv_rep s st \<Longrightarrow> map_of (m_last_RequestId s) = snd st"
  "kv_rep s st \<Longrightarrow> chans_ok s"
  by (simp_all add: kv_rep_def)

lemma chans_okD: "chans_ok s \<Longrightarrow> waitApplyCh s i = Some a \<Longrightarrow> \<exists>q. chan_heap s a = Some q"
  unfolding chans_ok_def by blast

lemma chans_ok_cong:
  "waitApplyCh s' = waitApplyCh s \<Longrightarrow> chan_heap s' = chan_heap s \<Longrightarrow> next_chan s' = next_chan s \<Longrightarrow>
   chans_ok s' = chans_ok s"
  by (simp add: chans_ok_def)

lemma kv_rep_unique: "kv_rep s st \<Longrightarrow> kv_rep s st' \<Longrightarrow> st = st'"
  using sl.rep_unique by (auto simp: kv_rep_def prod_eq_iff)

lemma duplicate_iff: "kv_rep s st \<Longrightarrow> ifRequestDuplicate (ClientId op) (RequestId op) s = executed op st"
  by (auto simp: ifRequestDuplicate_def executed_def kv_rep_def split: option.split)

text \<open>What an execution leaves alone.\<close>

definition same_frame :: "kv_server \<Rightarrow> kv_server \<Rightarrow> bool" where
  "same_frame s s' \<longleftrightarrow> waitApplyCh s' = waitApplyCh s \<and> chan_heap s' = chan_heap s
     \<and> next_chan s' = next_chan s \<and> m_lastSnapShotRaftLogIndex s' = m_lastSnapShotRaftLogIndex s
     \<and> m_maxRaftState s' = m_maxRaftState s"

lemma Execute_ok:
  assumes "kv_rep s st"
  shows "\<exists>s'. ExecutePutOpOnKVDB flips op s = Inr s' \<and> ExecuteAppendOpOnKVDB flips op s = Inr s'
    \<and> same_frame s s' \<and> kv_rep s' ((fst st)(Key op \<mapsto> Value op), (snd st)(ClientId op \<mapsto> RequestId op))"
proof -
  obtain l where l: "insert_set_element flips (Key op) (Value op) (m_skipList s) = Some l"
    "sl_ok l ((fst st)(Key op \<mapsto> Value op))"
    using sl.overwrite_rep [OF kv_repD(1) [OF assms]] by blast
  then show ?thesis
    using assms by (simp add: ExecutePutOpOnKVDB_def ExecuteAppendOpOnKVDB_def same_frame_def kv_rep_def
        chans_ok_def update_conv')
qed

lemma ExecuteGet_ok:
  assumes "kv_rep s st"
  shows "\<exists>s'. ExecuteGetOpOnKVDB op s =
      Inr (case fst st (Key op) of None \<Rightarrow> [] | Some v \<Rightarrow> v, fst st (Key op) \<noteq> None, s')
    \<and> same_frame s s' \<and> kv_rep s' (fst st, (snd st)(ClientId op \<mapsto> RequestId op))"
  using assms sl.lookup_rep [OF kv_repD(1) [OF assms], of "Key op"]
  by (simp add: ExecuteGetOpOnKVDB_def same_frame_def kv_rep_def chans_ok_def update_conv')

lemma execute_command_ok:
  assumes "kv_rep s st"
  shows "\<exists>s'. execute_command flips op s = Inr s' \<and> same_frame s s' \<and> kv_rep s' (exec_op op st)"
proof (cases "executed op st \<or> Operation op \<notin> {''Put'', ''Append''}")
  case True
  then show ?thesis
    using assms by (auto simp: execute_command_def duplicate_iff [OF assms] exec_op_def same_frame_def)
next
  case False
  then show ?thesis
    using Execute_ok [OF assms, of flips op]
    by (auto simp: execute_command_def duplicate_iff [OF assms] exec_op_def)
qed

lemma MakeSnapShot_ok:
  assumes "kv_rep s st"
  shows "\<exists>d. dump_file (m_skipList s) = Some d \<and> map_of (zip (keyDumpVt d) (valDumpVt d)) = fst st
    \<and> MakeSnapShot A s = Inr (server_text A (dump_text A d, m_last_RequestId s))"
  using dump_ok [OF kv_repD(1) [OF assms]] by (auto simp: MakeSnapShot_def)

lemma IfNeed_ok:
  assumes "kv_rep s st" "raft_ok r"
  shows "\<exists>r'. IfNeedToSendSnapShotCommand A z i k (s, r) = Inr (s, r') \<and> raft_ok r' \<and> applyChan r' = applyChan r"
proof -
  obtain snap where snap: "MakeSnapShot A s = Inr snap" using MakeSnapShot_ok [OF assms(1)] by blast
  have "\<exists>r'. Snapshot i snap r = Inr r' \<and> raft_ok r' \<and> applyChan r' = applyChan r"
  proof (cases "m_lastSnapshotIndex r < i \<and> i \<le> m_commitIndex r")
    case True
    then show ?thesis using Snapshot_cut [OF assms(2)] by metis
  next
    case False
    then show ?thesis using Snapshot_refused [of i r snap] assms(2) by auto
  qed
  then show ?thesis using snap assms(2) by (auto simp: IfNeedToSendSnapShotCommand_def)
qed

text \<open>The channels after the operation is sent to the handler waiting for an index.\<close>

definition notified :: "Op \<Rightarrow> int \<Rightarrow> kv_server \<Rightarrow> nat \<Rightarrow> Op lock_queue option" where
  "notified op i s = (case waitApplyCh s i of None \<Rightarrow> chan_heap s
     | Some a \<Rightarrow> (chan_heap s)(a \<mapsto> Push op (the (chan_heap s a))))"

lemma notified_frame: "same_frame s s' \<Longrightarrow> notified op i s' = notified op i s"
  by (cases "waitApplyCh s i") (simp_all add: notified_def same_frame_def)

lemma Send_ok:
  assumes "kv_rep s st"
  shows "\<exists>b s'. SendMessageToWaitChan op i s = Inr (b, s') \<and> kv_rep s' st
    \<and> m_lastSnapShotRaftLogIndex s' = m_lastSnapShotRaftLogIndex s \<and> m_maxRaftState s' = m_maxRaftState s
    \<and> waitApplyCh s' = waitApplyCh s
    \<and> chan_heap s' = notified op i s"
proof (cases "waitApplyCh s i")
  case None
  then show ?thesis using assms by (auto simp: SendMessageToWaitChan_def notified_def)
next
  case (Some a)
  then obtain q where "chan_heap s a = Some q" using chans_okD [OF kv_repD(3) [OF assms]] by blast
  then show ?thesis using assms Some by (auto simp: SendMessageToWaitChan_def kv_rep_def chans_ok_def notified_def)
qed

lemma GetCommand_ok:
  assumes "kv_rep s st" "raft_ok r" "op_parse A (Command m) = Some op"
  shows "\<exists>s' r'. GetCommandFromRaft A z flips m (s, r) = Inr (s', r') \<and> raft_ok r' \<and> applyChan r' = applyChan r
    \<and> kv_rep s' (if CommandIndex m \<le> m_lastSnapShotRaftLogIndex s then st else exec_op op st)
    \<and> m_lastSnapShotRaftLogIndex s' = m_lastSnapShotRaftLogIndex s \<and> waitApplyCh s' = waitApplyCh s
    \<and> (m_lastSnapShotRaftLogIndex s < CommandIndex m \<longrightarrow> chan_heap s' = notified op (CommandIndex m) s)"
proof (cases "CommandIndex m \<le> m_lastSnapShotRaftLogIndex s")
  case True
  then show ?thesis using assms by (simp add: GetCommandFromRaft_def)
next
  case False
  obtain s1 where s1: "execute_command flips op s = Inr s1" "same_frame s s1" "kv_rep s1 (exec_op op st)"
    using execute_command_ok [OF assms(1)] by blast
  obtain r' where r': "IfNeedToSendSnapShotCommand A z (CommandIndex m) 9 (s1, r) = Inr (s1, r')"
    "raft_ok r'" "applyChan r' = applyChan r" using IfNeed_ok [OF s1(3) assms(2)] by blast
  let ?r = "if m_maxRaftState s1 \<noteq> -1 then r' else r"
  obtain b s2 where s2: "SendMessageToWaitChan op (CommandIndex m) s1 = Inr (b, s2)" "kv_rep s2 (exec_op op st)"
    "m_lastSnapShotRaftLogIndex s2 = m_lastSnapShotRaftLogIndex s1" "waitApplyCh s2 = waitApplyCh s1"
    "chan_heap s2 = notified op (CommandIndex m) s1"
    using Send_ok [OF s1(3)] by blast
  have "GetCommandFromRaft A z flips m (s, r) = Inr (s2, ?r)"
    using False assms(3) s1(1) r'(1) s2(1) by (simp add: GetCommandFromRaft_def)
  then show ?thesis using False r' assms(2) s1(2) s2 notified_frame [OF s1(2)] by (auto simp: same_frame_def)
qed

lemma Pop_Cons: "m_queue q = x # xs \<Longrightarrow> Pop q = Some (x, q\<lparr>m_queue := xs\<rparr>)"
  by (simp add: Pop_def)

lemma raft_ok_chan: "raft_ok r \<Longrightarrow> raft_ok (r\<lparr>applyChan := q\<rparr>)"
  by (rule raft_ok_cong(1) [of _ r]) simp_all

lemma command_message_simps [simp]:
  "CommandValid (command_message c i)" "\<not> SnapshotValid (command_message c i)"
  "Command (command_message c i) = c" "CommandIndex (command_message c i) = i"
  by (simp_all add: command_message_def new_ApplyMsg_def)

lemma apply_round_command:
  assumes "kv_rep s st" "raft_ok r" "m_queue (applyChan r) = command_message (op_text A op) i # ms"
    "op_parse A (op_text A op) = Some op" "m_lastSnapShotRaftLogIndex s < i"
  shows "\<exists>s' r'. apply_round A env (s, r) = Inr (Some (s', r')) \<and> raft_ok r'
    \<and> m_queue (applyChan r') = ms \<and> kv_rep s' (exec_op op st)
    \<and> m_lastSnapShotRaftLogIndex s' = m_lastSnapShotRaftLogIndex s \<and> waitApplyCh s' = waitApplyCh s
    \<and> chan_heap s' = notified op i s"
proof -
  obtain z flips flipss where env: "env = (z, flips, flipss)" by (cases env) auto
  let ?r = "r\<lparr>applyChan := (applyChan r)\<lparr>m_queue := ms\<rparr>\<rparr>" and ?m = "command_message (op_text A op) i"
  obtain s' r' where run: "GetCommandFromRaft A z flips ?m (s, ?r) = Inr (s', r')" "raft_ok r'"
    "applyChan r' = applyChan ?r" "kv_rep s' (exec_op op st)" "chan_heap s' = notified op i s"
    "m_lastSnapShotRaftLogIndex s' = m_lastSnapShotRaftLogIndex s" "waitApplyCh s' = waitApplyCh s"
    using GetCommand_ok [OF assms(1) raft_ok_chan [OF assms(2)], of A ?m op z flips "(applyChan r)\<lparr>m_queue := ms\<rparr>"]
      assms(4,5) by auto
  have "apply_round A env (s, r) = Inr (Some (s', r'))"
    using Pop_Cons [OF assms(3)] run(1) by (simp add: apply_round_def env)
  then show ?thesis using run by simp
qed

lemma apply_rounds_commands:
  assumes "kv_rep s st" "raft_ok r"
    "m_queue (applyChan r) = map (\<lambda>(op, i). command_message (op_text A op) i) cs"
    "\<forall>(op, i) \<in> set cs. op_parse A (op_text A op) = Some op \<and> m_lastSnapShotRaftLogIndex s < i"
    "length envs = length cs"
  shows "\<exists>s' r'. apply_rounds A envs (s, r) = Inr (s', r') \<and> raft_ok r' \<and> m_queue (applyChan r') = []
    \<and> kv_rep s' (fold exec_op (map fst cs) st)"
  using assms
proof (induction cs arbitrary: s r st envs)
  case Nil
  then show ?case by simp
next
  case (Cons c cs)
  obtain op i where c: "c = (op, i)" by (cases c)
  obtain env es where envs: "envs = env # es" "length es = length cs" using Cons.prems(5) by (cases envs) auto
  obtain s1 r1 where one: "apply_round A env (s, r) = Inr (Some (s1, r1))" "raft_ok r1"
    "m_queue (applyChan r1) = map (\<lambda>(op, i). command_message (op_text A op) i) cs" "kv_rep s1 (exec_op op st)"
    "m_lastSnapShotRaftLogIndex s1 = m_lastSnapShotRaftLogIndex s"
    using apply_round_command [OF Cons.prems(1,2), of A op i _ env] Cons.prems(3,4) c by auto
  have "\<forall>(op, i) \<in> set cs. op_parse A (op_text A op) = Some op \<and> m_lastSnapShotRaftLogIndex s1 < i"
    using Cons.prems(4) one(5) by auto
  from Cons.IH [OF one(4,2,3) this envs(2)] show ?case using one(1) by (auto simp: envs(1) c)
qed

section \<open>Channels\<close>

lemma open_channel_ok:
  assumes "kv_rep s st" "open_channel i s = (a, s')"
  shows "kv_rep s' st \<and> waitApplyCh s' i = Some a \<and> chan_heap s' a \<noteq> None
    \<and> (waitApplyCh s i = None \<longrightarrow> chan_heap s' a = Some empty_queue)
    \<and> m_lastSnapShotRaftLogIndex s' = m_lastSnapShotRaftLogIndex s"
proof (cases "waitApplyCh s i")
  case None
  have "waitApplyCh s j \<noteq> Some (next_chan s)" for j
    using assms(1) by (force simp: kv_rep_def chans_ok_def)
  then have "chans_ok s'"
    using assms None by (auto simp: kv_rep_def chans_ok_def open_channel_def split: if_splits)
  then show ?thesis using assms None by (auto simp: kv_rep_def open_channel_def)
next
  case (Some b)
  then show ?thesis
    using assms chans_okD [OF kv_repD(3) [OF assms(1)] Some] by (auto simp: open_channel_def)
qed

lemma close_channel_ok:
  assumes "kv_rep s st"
  shows "kv_rep (close_channel i s) st \<and> waitApplyCh (close_channel i s) i = None
    \<and> (waitApplyCh s i = Some a \<longrightarrow> chan_heap (close_channel i s) a = None)"
proof (cases "waitApplyCh s i")
  case None
  then show ?thesis using assms by (simp add: close_channel_def)
next
  case (Some b)
  have "chans_ok (close_channel i s)"
    using assms Some by (simp add: close_channel_def kv_rep_def chans_ok_def) metis
  then show ?thesis using assms Some by (simp add: close_channel_def kv_rep_def)
qed

text \<open>Waiting takes the oldest operation out of the channel, if there is one.\<close>

lemma wait_channel_ok:
  assumes "kv_rep s st" "chan_heap s a = Some q"
  shows "\<exists>s'. wait_channel a s = Inr (case m_queue q of [] \<Rightarrow> None | c # _ \<Rightarrow> Some c, s')
    \<and> kv_rep s' st \<and> waitApplyCh s' = waitApplyCh s \<and> m_last_RequestId s' = m_last_RequestId s"
proof -
  have keep: "kv_rep (s\<lparr>chan_heap := (chan_heap s)(a \<mapsto> q')\<rparr>) st" for q'
  proof -
    have "\<not> next_chan s \<le> a" using assms by (auto simp: kv_rep_def chans_ok_def)
    then show ?thesis using assms by (auto simp: kv_rep_def chans_ok_def)
  qed
  show ?thesis
    using assms keep by (cases "m_queue q") (auto simp: wait_channel_def timeOutPop_def TryPop_def)
qed

lemma begin_request_leader:
  assumes "raft_ok r" "m_state r = leader" "kv_rep s st"
  obtains a s' r' where "begin_request A op (s, r) = (Waiting (getLastLogIndex r + 1) a, s', r')"
    "open_channel (getLastLogIndex r + 1) s = (a, s')" "r' = fst (Start (op_text A op) r)"
    "kv_rep s' st" "waitApplyCh s' (getLastLogIndex r + 1) = Some a" "chan_heap s' a \<noteq> None"
    "waitApplyCh s (getLastLogIndex r + 1) = None \<longrightarrow> chan_heap s' a = Some empty_queue"
    "m_lastSnapShotRaftLogIndex s' = m_lastSnapShotRaftLogIndex s"
proof -
  obtain a s' where c: "open_channel (getLastLogIndex r + 1) s = (a, s')"
    by (cases "open_channel (getLastLogIndex r + 1) s")
  then have "begin_request A op (s, r) =
      (Waiting (getLastLogIndex r + 1) a, s', fst (Start (op_text A op) r))"
    using assms(2) by (simp add: begin_request_def Start_leader Let_def)
  from that [OF this c] open_channel_ok [OF assms(3) c] show thesis by blast
qed

lemma failed_Start:
  assumes "raft_ok r" "m_state r = leader"
  shows "onLogStable False (getLastLogIndex r + 1) (fst (Start cmd r)) =
      (fst (Start cmd r))\<lparr>m_logs := m_logs r\<rparr>"
proof -
  have "getLastLogIndex r + 1 - m_lastSnapshotIndex r - 1 = int (length (m_logs r))"
    using assms(1) by (simp add: raft_ok_def last_index_contiguous)
  then show ?thesis
    using assms by (simp add: onLogStable_def Start_leader Let_def raft_ok_defs)
qed

section \<open>Snapshots lose the values\<close>

text \<open>What is asked of the archives: the snapshot the server makes now can be parsed back.\<close>

definition archives_ok :: "archives \<Rightarrow> kv_server \<Rightarrow> bool" where
  "archives_ok A s \<longleftrightarrow> (\<forall>d. dump_file (m_skipList s) = Some d \<longrightarrow>
     dump_text A d \<noteq> [] \<and> dump_parse A (dump_text A d) = Some d
     \<and> server_text A (dump_text A d, m_last_RequestId s) \<noteq> []
     \<and> server_parse A (server_text A (dump_text A d, m_last_RequestId s)) =
         Some (dump_text A d, m_last_RequestId s))"

lemma install_ok:
  assumes "kv_rep s st" "archives_ok A s" "MakeSnapShot A s = Inr snap" "kv_rep t (m, tbl)"
  shows "snap \<noteq> [] \<and> (\<exists>t'. ReadSnapShotToInstall A flipss snap t = Inr t'
    \<and> kv_rep t' (\<lambda>k. if m k = None \<and> fst st k \<noteq> None then Some k else m k, snd st))"
proof -
  obtain d where d: "dump_file (m_skipList s) = Some d" "map_of (zip (keyDumpVt d) (valDumpVt d)) = fst st"
    "length (valDumpVt d) = length (keyDumpVt d)"
    using dump_ok [OF kv_repD(1) [OF assms(1)]] by blast
  have keys: "k \<in> set (keyDumpVt d) \<longleftrightarrow> fst st k \<noteq> None" for k
    using d(2,3) map_of_zip_is_None [of "keyDumpVt d" "valDumpVt d" k] by auto
  obtain l where l: "load_file flipss d (m_skipList t) = Some l"
    "sl_ok l (\<lambda>k. if m k = None \<and> fst st k \<noteq> None then Some k else m k)"
    using load_ok [OF kv_repD(1) [OF assms(4), unfolded fst_conv], of flipss "keyDumpVt d"] by (auto simp: load_file_def keys)
  have snap: "snap = server_text A (dump_text A d, m_last_RequestId s)"
    using assms(3) d(1) by (simp add: MakeSnapShot_def)
  have A: "dump_text A d \<noteq> []" "dump_parse A (dump_text A d) = Some d" "snap \<noteq> []"
    "server_parse A snap = Some (dump_text A d, m_last_RequestId s)"
    using assms(2) d(1) unfolding snap archives_ok_def by blast+
  have "ReadSnapShotToInstall A flipss snap t = Inr (t\<lparr>m_skipList := l, m_last_RequestId := m_last_RequestId s\<rparr>)"
    using A l(1) by (simp add: ReadSnapShotToInstall_def server_parseFromString_def)
  then show ?thesis using A(3) l(2) assms(1,4) by (simp add: kv_rep_def chans_ok_def)
qed

section \<open>Properties\<close>

text \<open>A sample archive: a put of the command's text for the key k, numbered by its length.\<close>

definition sample_put :: "string \<Rightarrow> Op" where
  "sample_put v = put_append_op ''Put'' ''k'' v ''c'' (int (length v))"

definition sample_archives :: archives where
  "sample_archives = \<lparr>op_text = Value, op_parse = (\<lambda>t. Some (sample_put t)),
     dump_text = (\<lambda>_. ''d''), dump_parse = (\<lambda>_. Some \<lparr>keyDumpVt = [''k''], valDumpVt = [''v'']\<rparr>),
     server_text = (\<lambda>_. ''s''), server_parse = (\<lambda>_. Some (''d'', [(''c'', 1)]))\<rparr>"

definition empty_server :: kv_server where
  "empty_server = \<lparr>m_skipList = SkipList [] [] 6, waitApplyCh = (\<lambda>_. None), chan_heap = (\<lambda>_. None),
     next_chan = 0, m_last_RequestId = [], m_lastSnapShotRaftLogIndex = 0, m_maxRaftState = -1\<rparr>"

lemma empty_server_rep: "kv_rep empty_server (Map.empty, Map.empty)"
  by (simp add: kv_rep_def empty_server_def SkipList_ok chans_ok_def)

lemma sample_put_simps [simp]:
  "Operation (sample_put v) = ''Put''" "Key (sample_put v) = ''k''" "Value (sample_put v) = v"
  "ClientId (sample_put v) = ''c''" "RequestId (sample_put v) = int (length v)"
  by (simp_all add: sample_put_def put_append_op_def)

lemma sample_archives_simps [simp]:
  "op_text sample_archives op = Value op" "op_parse sample_archives t = Some (sample_put t)"
  by (simp_all add: sample_archives_def)

text \<open>C18: The apply loop refines the replicated map: for any queue of committed commands behind the
  installed snapshot it ends with an empty queue, and the store and the request table are what
  executing the commands in order gives, where a command whose client has already executed that
  request number or a higher one, or that is not a put or an append, changes nothing; so two
  servers that are given the same commands hold the same map. An append stores its value as a put does.\<close>

theorem apply_loop_refines_map:
  assumes "kv_rep s st" "raft_ok r"
    "m_queue (applyChan r) = map (\<lambda>(op, i). command_message (op_text A op) i) cs"
    "\<forall>(op, i) \<in> set cs. op_parse A (op_text A op) = Some op \<and> m_lastSnapShotRaftLogIndex s < i"
    "length envs = length cs"
  shows "\<exists>s' r'. apply_rounds A envs (s, r) = Inr (s', r') \<and> raft_ok r' \<and> m_queue (applyChan r') = []
    \<and> kv_rep s' (fold exec_op (map fst cs) st)"
  by (rule apply_rounds_commands [OF assms])

text \<open>Two puts and a repetition of the first one.\<close>

theorem apply_loop_refines_map_witness:
  "\<exists>s' r'. apply_rounds sample_archives [(0, [True], []), (0, [], []), (0, [], [])]
      (empty_server, sample_follower\<lparr>applyChan := \<lparr>m_queue = [command_message ''a'' 1,
         command_message ''bb'' 2, command_message ''a'' 3]\<rparr>\<rparr>) = Inr (s', r')
    \<and> search_element ''k'' (m_skipList s') = Some (Some ''bb'') \<and> m_queue (applyChan r') = []"
proof -
  let ?r = "sample_follower\<lparr>applyChan := \<lparr>m_queue = [command_message ''a'' 1,
         command_message ''bb'' 2, command_message ''a'' 3]\<rparr>\<rparr>"
  let ?cs = "[(sample_put ''a'', 1), (sample_put ''bb'', 2), (sample_put ''a'', 3)]"
  obtain s' r' where run: "apply_rounds sample_archives [(0, [True], []), (0, [], []), (0, [], [])]
      (empty_server, ?r) = Inr (s', r')" "m_queue (applyChan r') = []"
    "kv_rep s' (fold exec_op (map fst ?cs) (Map.empty, Map.empty))"
    using apply_loop_refines_map [OF empty_server_rep, of ?r sample_archives ?cs
        "[(0, [True], []), (0, [], []), (0, [], [])]"] raft_ok_chan [OF sample_follower_ok]
    by (auto simp: empty_server_def)
  have "fst (fold exec_op (map fst ?cs) (Map.empty, Map.empty)) ''k'' = Some ''bb''"
    by (simp add: exec_op_def executed_def)
  then show ?thesis using run search_ok [OF kv_repD(1) [OF run(3)], of "''k''"] by auto
qed

text \<open>C21: A request that was executed can be executed a second time. When the handler of an older read
  of the same client answers, it writes its own, smaller number into the request table; a put
  that was recorded as executed no longer is, and when its retry is applied it overwrites
  the key again, whatever was stored there in between.\<close>

theorem read_reopens_requests:
  assumes "kv_rep s st" "executed p st" "Operation p = ''Put''"
    "ClientId g = ClientId p" "RequestId g < RequestId p"
    "chan_heap s a = Some q" "m_queue q = g # ops"
  shows "\<exists>rep s' s''. Get_end ld g i a s = Inr (rep, s') \<and> execute_command flips p s' = Inr s''
    \<and> search_element (Key p) (m_skipList s'') = Some (Some (Value p))"
proof -
  obtain s1 where s1: "wait_channel a s = Inr (Some g, s1)" "kv_rep s1 st"
    using wait_channel_ok [OF assms(1,6)] assms(7) by auto
  obtain v b s2 where s2: "ExecuteGetOpOnKVDB g s1 = Inr (v, b, s2)"
    "kv_rep s2 (fst st, (snd st)(ClientId g \<mapsto> RequestId g))" using ExecuteGet_ok [OF s1(2), of g] by blast
  let ?s = "close_channel i s2" and ?st = "(fst st, (snd st)(ClientId g \<mapsto> RequestId g))"
  have end': "\<exists>rep. Get_end ld g i a s = Inr (rep, ?s)" using s1(1) s2(1) by (simp add: Get_end_def answer_get_def)
  have rep: "kv_rep ?s ?st" using close_channel_ok [OF s2(2)] by blast
  obtain s'' where s'': "execute_command flips p ?s = Inr s''" "kv_rep s'' (exec_op p ?st)"
    using execute_command_ok [OF rep] by blast
  have "fst (exec_op p ?st) (Key p) = Some (Value p)" using assms(3,4,5) by (simp add: exec_op_def executed_def)
  then show ?thesis using end' s'' search_ok [OF kv_repD(1) [OF s''(2)], of "Key p"] by auto
qed

text \<open>The client c has executed requests 1 and 2; the read with number 1 answers late.\<close>

theorem read_reopens_requests_witness:
  "\<exists>rep s' s''. Get_end True (get_op ''k'' ''c'' 1) 1 0 (empty_server\<lparr>waitApplyCh := [1 \<mapsto> 0],
        chan_heap := [0 \<mapsto> \<lparr>m_queue = [get_op ''k'' ''c'' 1]\<rparr>], next_chan := 1,
        m_last_RequestId := [(''c'', 2)]\<rparr>) = Inr (rep, s')
    \<and> execute_command [] (sample_put ''vv'') s' = Inr s''
    \<and> search_element ''k'' (m_skipList s'') = Some (Some ''vv'')"
proof -
  let ?s = "empty_server\<lparr>waitApplyCh := [1 \<mapsto> 0], chan_heap := [0 \<mapsto> \<lparr>m_queue = [get_op ''k'' ''c'' 1]\<rparr>],
      next_chan := 1, m_last_RequestId := [(''c'', 2)]\<rparr>"
  have rep: "kv_rep ?s (Map.empty, [''c'' \<mapsto> 2])"
    using empty_server_rep by (auto simp: kv_rep_def empty_server_def chans_ok_def split: if_splits)
  show ?thesis
    using read_reopens_requests [OF rep, of "sample_put ''vv''" "get_op ''k'' ''c'' 1" 0] by (simp add: executed_def get_op_def)
qed

text \<open>C20: A snapshot loses every value. The server's snapshot can be made at any time; a server that
  restarts from it maps every key of the old store to the key itself, and a running server that installs
  it keeps its own values, old ones included, and adds the missing keys mapped to
  themselves. Only the request table is restored, also when it is older than the server's own.\<close>

theorem snapshot_loses_values:
  assumes "kv_rep s st" "archives_ok A s" "kv_rep t (m, tbl)" "Snapshot_data msg = snap" "MakeSnapShot A s = Inr snap"
  shows "(\<exists>s'. KvServer A flipss maxraftstate snap = Inr s'
        \<and> kv_rep s' (\<lambda>k. if fst st k = None then None else Some k, snd st))
    \<and> (\<exists>t'. GetSnapShotFromRaft A flipss msg t = Inr t' \<and> m_lastSnapShotRaftLogIndex t' = SnapshotIndex msg
        \<and> kv_rep t' (\<lambda>k. if m k = None \<and> fst st k \<noteq> None then Some k else m k, snd st))"
proof
  let ?e = "empty_server\<lparr>m_maxRaftState := maxraftstate\<rparr>"
  have "kv_rep ?e (Map.empty, Map.empty)" using empty_server_rep by (simp add: kv_rep_def chans_ok_def)
  from install_ok [OF assms(1,2,5) this, of flipss]
  obtain s' where s': "snap \<noteq> []" "ReadSnapShotToInstall A flipss snap ?e = Inr s'"
    "kv_rep s' (\<lambda>k. if fst st k \<noteq> None then Some k else None, snd st)" by auto
  have "(\<lambda>k. if fst st k \<noteq> None then Some k else None) = (\<lambda>k. if fst st k = None then None else Some k)"
    by (simp add: fun_eq_iff)
  then show "\<exists>s'. KvServer A flipss maxraftstate snap = Inr s'
        \<and> kv_rep s' (\<lambda>k. if fst st k = None then None else Some k, snd st)"
    using s' by (simp add: KvServer_def empty_server_def)
  obtain t' where "ReadSnapShotToInstall A flipss snap t = Inr t'"
    "kv_rep t' (\<lambda>k. if m k = None \<and> fst st k \<noteq> None then Some k else m k, snd st)"
    using install_ok [OF assms(1,2,5,3), of flipss] by auto
  then show "\<exists>t'. GetSnapShotFromRaft A flipss msg t = Inr t' \<and> m_lastSnapShotRaftLogIndex t' = SnapshotIndex msg
        \<and> kv_rep t' (\<lambda>k. if m k = None \<and> fst st k \<noteq> None then Some k else m k, snd st)"
    by (simp add: GetSnapShotFromRaft_def assms(4) kv_rep_def chans_ok_def)
qed

theorem snapshot_loses_values_witness:
  "\<exists>s A s'. kv_rep s ([''k'' \<mapsto> ''v''], [''c'' \<mapsto> 1]) \<and> MakeSnapShot A s = Inr ''s''
    \<and> KvServer A [] (-1) ''s'' = Inr s' \<and> search_element ''k'' (m_skipList s') = Some (Some ''k'')"
proof -
  obtain l where l: "sl_ok l [''k'' \<mapsto> ''v'']"
    using sl.overwrite_rep [OF kv_repD(1) [OF empty_server_rep], of "[]" "''k''" "''v''"] by auto
  let ?s = "empty_server\<lparr>m_skipList := l, m_last_RequestId := [(''c'', 1)]\<rparr>"
  let ?A = "sample_archives\<lparr>dump_parse := (\<lambda>_. dump_file l)\<rparr>"
  have rep: "kv_rep ?s ([''k'' \<mapsto> ''v''], [''c'' \<mapsto> 1])"
    using l empty_server_rep by (simp add: kv_rep_def chans_ok_def)
  have ok: "archives_ok ?A ?s" by (simp add: archives_ok_def sample_archives_def)
  have make: "MakeSnapShot ?A ?s = Inr ''s''"
    using MakeSnapShot_ok [OF rep, of ?A] by (auto simp: sample_archives_def)
  obtain s' where s': "KvServer ?A [] (-1) ''s'' = Inr s'"
    "kv_rep s' (\<lambda>k. if [''k'' \<mapsto> ''v''] k = None then None else Some k, [''c'' \<mapsto> 1])"
    using snapshot_loses_values [OF rep ok empty_server_rep, of "new_ApplyMsg\<lparr>Snapshot_data := ''s''\<rparr>" "''s''" "[]" "-1"]
      make by auto
  then show ?thesis using rep make search_ok [OF kv_repD(1) [OF s'(2)], of "''k''"]
    by (intro exI [of _ ?s] exI [of _ ?A] exI [of _ s']) simp
qed

text \<open>C19: A put or append that a leader accepts is answered OK once its command comes back: the handler
  waits on a channel for the index the log gave it, the round of the apply loop that delivers this
  command executes it and wakes the handler, the answer is OK, the store holds the value,
  and the wait channel is gone.\<close>

theorem PutAppend_completes:
  assumes "raft_ok r" "m_state r = leader" "kv_rep s st" "waitApplyCh s (getLastLogIndex r + 1) = None"
    and "Operation op \<in> {''Put'', ''Append''}" "\<not> executed op st" "op_parse A (op_text A op) = Some op"
    and "m_lastSnapShotRaftLogIndex s \<le> getLastLogIndex r"
    and "raft_ok r2" "m_queue (applyChan r2) = command_message (op_text A op) (getLastLogIndex r + 1) # ms"
  shows "\<exists>i a s1 r1 s2 r2' s3. begin_request A op (s, r) = (Waiting i a, s1, r1)
    \<and> apply_round A env (s1, r2) = Inr (Some (s2, r2')) \<and> PutAppend_end op i a s2 = Inr (OK, s3)
    \<and> search_element (Key op) (m_skipList s3) = Some (Some (Value op)) \<and> waitApplyCh s3 i = None"
proof -
  let ?i = "getLastLogIndex r + 1"
  obtain a s1 r1 where b: "begin_request A op (s, r) = (Waiting ?i a, s1, r1)" "kv_rep s1 st"
    "waitApplyCh s1 ?i = Some a" "chan_heap s1 a = Some empty_queue"
    "m_lastSnapShotRaftLogIndex s1 = m_lastSnapShotRaftLogIndex s"
    using begin_request_leader [OF assms(1,2,3)] assms(4) by metis
  have lt: "m_lastSnapShotRaftLogIndex s1 < ?i" using b(5) assms(8) by simp
  obtain s2 r2' where m: "apply_round A env (s1, r2) = Inr (Some (s2, r2'))" "kv_rep s2 (exec_op op st)"
    "chan_heap s2 = notified op ?i s1" "waitApplyCh s2 = waitApplyCh s1"
    using apply_round_command [OF b(2) assms(9,10,7) lt] by blast
  have "chan_heap s2 a = Some \<lparr>m_queue = [op]\<rparr>" using b(3,4) m(3) by (simp add: notified_def Push_def empty_queue_def)
  then obtain s2' where w: "wait_channel a s2 = Inr (Some op, s2')" "kv_rep s2' (exec_op op st)"
    using wait_channel_ok [OF m(2)] by fastforce
  let ?s3 = "close_channel ?i s2'"
  have e: "PutAppend_end op ?i a s2 = Inr (OK, ?s3)" using w(1) by (simp add: PutAppend_end_def)
  have "kv_rep ?s3 (exec_op op st)" "waitApplyCh ?s3 ?i = None" using close_channel_ok [OF w(2)] by blast+
  moreover have "fst (exec_op op st) (Key op) = Some (Value op)" using assms(5,6) by (simp add: exec_op_def)
  ultimately show ?thesis using b(1) m(1) e search_ok [OF kv_repD(1), of ?s3 "exec_op op st" "Key op"] by metis
qed

theorem PutAppend_completes_witness:
  "\<exists>i a s1 r1 s2 r2 s3. begin_request sample_archives (sample_put ''z'') (empty_server, sample_leader) = (Waiting i a, s1, r1)
    \<and> apply_round sample_archives (0, [], []) (s1, sample_leader\<lparr>applyChan := \<lparr>m_queue = [command_message ''z'' 3]\<rparr>\<rparr>) = Inr (Some (s2, r2))
    \<and> PutAppend_end (sample_put ''z'') i a s2 = Inr (OK, s3)
    \<and> search_element ''k'' (m_skipList s3) = Some (Some ''z'')"
proof -
  have lead: "m_state sample_leader = leader" "getLastLogIndex sample_leader = 2"
    by (simp_all add: sample_leader_def fresh_node_eq getLastLogIndex_def getLastLogIndexandTerm_def)
  show ?thesis
    using PutAppend_completes [OF sample_leader_ok lead(1) empty_server_rep, of "sample_put ''z''" sample_archives
        "sample_leader\<lparr>applyChan := \<lparr>m_queue = [command_message ''z'' 3]\<rparr>\<rparr>" "[]" "(0, [], [])"]
      raft_ok_chan [OF sample_leader_ok] lead(2)
    by (auto simp: empty_server_def executed_def)
qed

text \<open>C22: Two handlers can wait on one channel, and the second then uses it after it was freed. When
  the log write of an accepted request fails, its entry is taken back, and the next request is
  given the same index while the first handler still waits; both hold the same channel. The
  first handler to finish deletes it, and the other reads freed memory.\<close>

theorem failed_write_shares_channel:
  assumes "raft_ok r" "m_state r = leader" "kv_rep s st"
  shows "\<exists>i a s1 r1 s2 r2 err s3. begin_request A op1 (s, r) = (Waiting i a, s1, r1)
    \<and> begin_request A op2 (s1, onLogStable False i r1) = (Waiting i a, s2, r2)
    \<and> PutAppend_end op1 i a s2 = Inr (err, s3) \<and> PutAppend_end op2 i a s3 = Inl (Bad_pointer 308)"
proof -
  let ?i = "getLastLogIndex r + 1"
  obtain a s1 r1 where b1: "begin_request A op1 (s, r) = (Waiting ?i a, s1, r1)" "kv_rep s1 st"
    "waitApplyCh s1 ?i = Some a" "r1 = fst (Start (op_text A op1) r)"
    using begin_request_leader [OF assms] by metis
  define r' where "r' = onLogStable False ?i r1"
  have r': "r' = r1\<lparr>m_logs := m_logs r\<rparr>" unfolding r'_def b1(4) by (rule failed_Start [OF assms(1,2)])
  have cong: "raft_ok r'" "getLastLogIndex r' = getLastLogIndex r"
    by (rule raft_ok_cong [OF _ _ _ _ _ _ _ assms(1)]; simp add: r' b1(4) Start_leader [OF assms(2)] Let_def)+
  have lead: "m_state r' = leader" by (simp add: r' b1(4) Start_leader [OF assms(2)] Let_def assms(2))
  obtain b s2 r2 where b2: "begin_request A op2 (s1, r') = (Waiting ?i b, s2, r2)" "open_channel ?i s1 = (b, s2)"
    "kv_rep s2 st" "waitApplyCh s2 ?i = Some b" "chan_heap s2 b \<noteq> None"
    using begin_request_leader [OF cong(1) lead b1(2)] cong(2) by metis
  have b: "b = a" using b2(2) b1(3) by (simp add: open_channel_def)
  obtain q where "chan_heap s2 a = Some q" using b2(5) b by auto
  then obtain c s3 where w: "wait_channel a s2 = Inr (c, s3)" "kv_rep s3 st" "waitApplyCh s3 = waitApplyCh s2"
    using wait_channel_ok [OF b2(3)] by blast
  let ?s3 = "close_channel ?i s3"
  have e: "\<exists>err. PutAppend_end op1 ?i a s2 = Inr (err, ?s3)" using w(1) by (simp add: PutAppend_end_def)
  have "chan_heap ?s3 a = None" using close_channel_ok [OF w(2), of ?i a] w(3) b2(4) b by simp
  then have "PutAppend_end op2 ?i a ?s3 = Inl (Bad_pointer 308)" by (simp add: PutAppend_end_def wait_channel_def)
  then show ?thesis using b1(1) b2(1) b e unfolding r'_def by blast
qed

theorem failed_write_shares_channel_witness:
  "\<exists>i a s1 r1 s2 r2 err s3. begin_request sample_archives (sample_put ''y'') (empty_server, sample_leader) = (Waiting i a, s1, r1)
    \<and> begin_request sample_archives (sample_put ''z'') (s1, onLogStable False i r1) = (Waiting i a, s2, r2)
    \<and> PutAppend_end (sample_put ''y'') i a s2 = Inr (err, s3) \<and> PutAppend_end (sample_put ''z'') i a s3 = Inl (Bad_pointer 308)"
proof -
  have "m_state sample_leader = leader" by (simp add: sample_leader_def)
  from failed_write_shares_channel [OF sample_leader_ok this empty_server_rep] show ?thesis .
qed

end
