(* ===== verification/Replica.thy ===== *)
theory Replica
  imports Kv_Server
begin

text \<open>
  A replica: a key-value server with its raft node, under every handler of both. As long as the
  entries a node has committed are those of one common log, and no snapshot is installed from
  another node, the server's store and request table are a function of how many commands it has
  taken from the channel, so replicas at the same point hold the same map. The first condition is
  what raft is to provide; the second one excludes the values a snapshot loses.
\<close>

section \<open>The common log\<close>

text \<open>The operations of the common log by index, and the state after the first \<open>n\<close> of them.\<close>

definition state_after :: "(int \<Rightarrow> Op) \<Rightarrow> int \<Rightarrow> kv_state" where
  "state_after ops n = fold exec_op (map ops [1..n]) (Map.empty, Map.empty)"

definition committed_agree :: "archives \<Rightarrow> (int \<Rightarrow> Op) \<Rightarrow> raft \<Rightarrow> bool" where
  "committed_agree A ops r \<longleftrightarrow> (\<forall>j. m_lastSnapshotIndex r < j \<and> j \<le> m_commitIndex r \<longrightarrow>
     command (entry_at r j) = op_text A (ops j))"

definition no_snapshots :: "raft \<Rightarrow> bool" where
  "no_snapshots r \<longleftrightarrow> (\<forall>m \<in> set (m_queue (applyChan r)). \<not> SnapshotValid m)"

text \<open>The election handlers leave the log, its marks and the channel alone.\<close>

definition same_marks :: "raft \<Rightarrow> raft \<Rightarrow> bool" where
  "same_marks r r' \<longleftrightarrow> m_logs r' = m_logs r \<and> m_lastSnapshotIndex r' = m_lastSnapshotIndex r
     \<and> m_commitIndex r' = m_commitIndex r \<and> m_lastApplied r' = m_lastApplied r
     \<and> m_peers_size r' = m_peers_size r \<and> length (m_nextIndex r') = length (m_nextIndex r)
     \<and> length (m_matchIndex r') = length (m_matchIndex r) \<and> applyChan r' = applyChan r"

lemma same_marks_election:
  "doElection now r = (r', es) \<Longrightarrow> same_marks r r'"
  "RequestVote now req r = Inr (r', rep) \<Longrightarrow> same_marks r r'"
  "handleRequestVoteResponse args vrep v ok r = Inr (r', v') \<Longrightarrow> same_marks r r'"
proof -
  show "doElection now r = (r', es) \<Longrightarrow> same_marks r r'"
    by (auto simp: doElection_def doElection_locked_def Let_def same_marks_def split: if_splits)
  show "RequestVote now req r = Inr (r', rep) \<Longrightarrow> same_marks r r'"
    by (auto simp: RequestVote_def Let_def same_marks_def result_simps split: if_splits)
  assume "handleRequestVoteResponse args vrep v ok r = Inr (r', v')"
  then show "same_marks r r'"
    by (cases rule: handleRequestVoteResponse_cases) (auto simp: same_marks_def)
qed

inductive replica_step :: "archives \<Rightarrow> (int \<Rightarrow> Op) \<Rightarrow> kv_server \<times> raft \<Rightarrow> kv_server \<times> raft \<Rightarrow> bool"
  for A ops where
  raft_handler: "node_step r r' \<Longrightarrow> committed_agree A ops r' \<Longrightarrow> no_snapshots r' \<Longrightarrow>
    replica_step A ops (s, r) (s, r')"
| election: "doElection now r = (r', es) \<Longrightarrow> replica_step A ops (s, r) (s, r')"
| vote: "RequestVote now req r = Inr (r', rep) \<Longrightarrow> replica_step A ops (s, r) (s, r')"
| vote_answer: "handleRequestVoteResponse args vrep v ok r = Inr (r', v') \<Longrightarrow>
    replica_step A ops (s, r) (s, r')"
| serve: "apply_round A env (s, r) = Inr (Some (s', r')) \<Longrightarrow> replica_step A ops (s, r) (s', r')"
| request: "begin_request A op (s, r) = (p, s', r') \<Longrightarrow> replica_step A ops (s, r) (s', r')"
| put_answer: "PutAppend_end op i a s = Inr (x, s') \<Longrightarrow> replica_step A ops (s, r) (s', r)"

text \<open>A server without a snapshot file and a node without a log.\<close>

definition new_replica :: "archives \<Rightarrow> int \<Rightarrow> nat \<Rightarrow> int \<Rightarrow> kv_server \<times> raft \<Rightarrow> bool" where
  "new_replica A me n maxraftstate sr \<longleftrightarrow>
     KvServer A [] maxraftstate [] = Inr (fst sr) \<and> snd sr = fresh_node me n"

definition replica :: "archives \<Rightarrow> (int \<Rightarrow> Op) \<Rightarrow> kv_server \<times> raft \<Rightarrow> bool" where
  "replica A ops sr \<longleftrightarrow> (\<exists>me n k sr0. new_replica A me n k sr0 \<and> (replica_step A ops)\<^sup>*\<^sup>* sr0 sr)"

section \<open>The invariant\<close>

text \<open>How many commands the server has taken from the channel.\<close>

definition consumed :: "raft \<Rightarrow> int" where
  "consumed r = m_lastApplied r - int (length (m_queue (applyChan r)))"

definition log_messages :: "archives \<Rightarrow> (int \<Rightarrow> Op) \<Rightarrow> int \<Rightarrow> int \<Rightarrow> ApplyMsg list" where
  "log_messages A ops a b = map (\<lambda>i. command_message (op_text A (ops i)) i) [a + 1..b]"

text \<open>The replica with a server that represents \<open>st\<close>.\<close>

definition replica_at :: "archives \<Rightarrow> (int \<Rightarrow> Op) \<Rightarrow> kv_state \<Rightarrow> kv_server \<times> raft \<Rightarrow> bool" where
  "replica_at A ops st sr \<longleftrightarrow> (case sr of (s, r) \<Rightarrow>
     kv_rep s st \<and> raft_ok r \<and> m_lastSnapShotRaftLogIndex s = 0
     \<and> committed_agree A ops r \<and> 0 \<le> consumed r
     \<and> m_queue (applyChan r) = log_messages A ops (consumed r) (m_lastApplied r))"

definition replica_ok :: "archives \<Rightarrow> (int \<Rightarrow> Op) \<Rightarrow> kv_server \<times> raft \<Rightarrow> bool" where
  "replica_ok A ops sr \<longleftrightarrow> replica_at A ops (state_after ops (consumed (snd sr))) sr"

lemma log_messages_length [simp]: "length (log_messages A ops a b) = nat (b - a)"
  by (simp add: log_messages_def)

lemma log_messages_append:
  "a \<le> b \<Longrightarrow> b \<le> c \<Longrightarrow> log_messages A ops a b @ log_messages A ops b c = log_messages A ops a c"
  using upto_split2 [of "a + 1" b c] by (cases "a = b") (auto simp: log_messages_def)

lemma log_messages_Cons:
  "log_messages A ops a b = m # ms \<Longrightarrow>
   a < b \<and> m = command_message (op_text A (ops (a + 1))) (a + 1) \<and> ms = log_messages A ops (a + 1) b"
  using upto_rec1 [of "a + 1" b] by (cases "a < b") (auto simp: log_messages_def)

lemma committed_messages:
  assumes "committed_agree A ops r" "m_lastSnapshotIndex r \<le> a" "b \<le> m_commitIndex r"
  shows "commands_between r a b = log_messages A ops a b"
  using assms by (auto simp: commands_between_def log_messages_def committed_agree_def)

lemma state_after_next: "0 \<le> n \<Longrightarrow> state_after ops (n + 1) = exec_op (ops (n + 1)) (state_after ops n)"
  using upto_split2 [of 1 n "n + 1"] by (cases "n = 0") (auto simp: state_after_def)

lemma same_marks_ok:
  assumes "same_marks r r'" "replica_at A ops st (s, r)"
  shows "replica_at A ops st (s, r') \<and> consumed r' = consumed r"
proof -
  have "raft_ok r'" using raft_ok_cong(1) [of r' r] assms by (simp add: same_marks_def replica_at_def)
  then show ?thesis
    using assms by (simp add: replica_at_def same_marks_def consumed_def committed_agree_def entry_at_def)
qed

text \<open>What a step of a node puts into the channel, when no snapshot arrives.\<close>

lemma node_step_queue:
  assumes "node_step r r'" "raft_ok r" "no_snapshots r'"
  shows "m_lastApplied r \<le> m_lastApplied r' \<and> m_lastApplied r' \<le> max (m_lastApplied r) (m_commitIndex r)
    \<and> m_queue (applyChan r') = m_queue (applyChan r) @ commands_between r (m_lastApplied r) (m_lastApplied r')"
  using assms(1)
proof (cases rule: node_step.cases)
  case apply_turn
  then show ?thesis using applierTicker_ok [OF assms(2)] assms(2) by (auto simp: raft_ok_defs)
next
  case (install now args rep)
  from assms(2) install show ?thesis
  proof (cases rule: InstallSnapshot_cases)
    case installed
    then show ?thesis using assms(3) by (simp add: no_snapshots_def)
  qed (simp_all add: commands_between_def)
next
  case (compact index data)
  show ?thesis
  proof (cases "index \<le> m_lastSnapshotIndex r \<or> m_commitIndex r < index")
    case True
    then show ?thesis using compact Snapshot_refused [of index r data] by (simp add: commands_between_def)
  next
    case False
    then have lt: "m_lastSnapshotIndex r < index" "index \<le> m_commitIndex r" by simp_all
    show ?thesis
      by (rule Snapshot_cut [OF assms(2) lt, of data])
        (use compact in \<open>auto simp: commands_between_def max_absorb1\<close>)
  qed
next
  case start
  then show ?thesis using Start_frame [OF assms(2)] by (auto simp: commands_between_def)
next
  case stable_mark
  then show ?thesis using onLogStable_frame [OF assms(2)] by (auto simp: commands_between_def)
next
  case append_begin
  then show ?thesis using ae_begin_frame [OF assms(2)] by (auto simp: commands_between_def)
next
  case append_finish
  then show ?thesis using ae_finish_frame [OF assms(2)] by (auto simp: commands_between_def)
next
  case append_answer
  then show ?thesis using handleAppendEntries_frame [OF assms(2)] by (auto simp: commands_between_def)
qed

lemma replica_ok_raft:
  assumes "node_step r r'" "committed_agree A ops r'" "no_snapshots r'" "replica_at A ops st (s, r)"
  shows "replica_at A ops st (s, r') \<and> consumed r' = consumed r"
proof -
  have ok: "raft_ok r" and agree: "committed_agree A ops r"
    and q: "m_queue (applyChan r) = log_messages A ops (consumed r) (m_lastApplied r)"
    using assms(4) by (auto simp: replica_at_def)
  note step = node_step_queue [OF assms(1) ok assms(3)]
  have marks: "m_lastSnapshotIndex r \<le> m_lastApplied r" "m_lastApplied r \<le> m_commitIndex r"
    using ok by (auto simp: raft_ok_defs)
  have new: "commands_between r (m_lastApplied r) (m_lastApplied r')
      = log_messages A ops (m_lastApplied r) (m_lastApplied r')"
    using step marks by (intro committed_messages [OF agree]) auto
  have "consumed r \<le> m_lastApplied r" by (simp add: consumed_def)
  with q step new have q': "m_queue (applyChan r') = log_messages A ops (consumed r) (m_lastApplied r')"
    by (simp add: log_messages_append)
  moreover have "consumed r' = consumed r"
    using q' step \<open>consumed r \<le> m_lastApplied r\<close> unfolding consumed_def [of r'] by simp
  moreover have "raft_ok r'" using node_step_ok [OF assms(1) ok] by blast
  ultimately show ?thesis using assms(2,4) by (simp add: replica_at_def)
qed

text \<open>A round of the apply loop only takes the message off the channel and perhaps compacts the log.\<close>

lemma apply_round_raft:
  assumes "apply_round A env (s, r) = Inr (Some (s', r'))"
  obtains msg q where "Pop (applyChan r) = Some (msg, q)"
    "r' = r\<lparr>applyChan := q\<rparr> \<or> (\<exists>i snap. Snapshot i snap (r\<lparr>applyChan := q\<rparr>) = Inr r')"
proof -
  obtain z flips flipss where env: "env = (z, flips, flipss)" by (cases env) auto
  obtain msg q where pop: "Pop (applyChan r) = Some (msg, q)"
    using assms by (cases "Pop (applyChan r)") (auto simp: apply_round_def)
  have "r' = r\<lparr>applyChan := q\<rparr> \<or> (\<exists>i snap. Snapshot i snap (r\<lparr>applyChan := q\<rparr>) = Inr r')"
    using assms pop
    by (auto simp: apply_round_def env GetCommandFromRaft_def IfNeedToSendSnapShotCommand_def rbind_eq_Inr
        split: if_splits)
  with pop that show thesis by blast
qed

lemma committed_agree_cong:
  "m_logs r' = m_logs r \<Longrightarrow> m_lastSnapshotIndex r' = m_lastSnapshotIndex r \<Longrightarrow>
   m_commitIndex r' = m_commitIndex r \<Longrightarrow> committed_agree A ops r' = committed_agree A ops r"
  by (simp add: committed_agree_def entry_at_def)

lemma Snapshot_keeps:
  assumes "raft_ok r" "committed_agree A ops r" "Snapshot i snap r = Inr r'"
    "i \<le> m_lastApplied r"
  shows "committed_agree A ops r' \<and> m_lastApplied r' = m_lastApplied r \<and> applyChan r' = applyChan r"
proof (cases "i \<le> m_lastSnapshotIndex r \<or> m_commitIndex r < i")
  case True
  then show ?thesis using assms Snapshot_refused [of i r snap] by simp
next
  case False
  then have lt: "m_lastSnapshotIndex r < i" "i \<le> m_commitIndex r" by simp_all
  obtain r2 where r2: "Snapshot i snap r = Inr r2" "m_logs r2 = log_above r i"
    "m_lastSnapshotIndex r2 = i" "m_commitIndex r2 = m_commitIndex r"
    "m_lastApplied r2 = max (m_lastApplied r) i" "applyChan r2 = applyChan r"
    by (rule Snapshot_cut [OF assms(1) lt, of snap]) (rule that)
  have "entry_at r2 j = entry_at r j" if "i < j" "j \<le> m_commitIndex r" for j
  proof -
    have "nat (i - m_lastSnapshotIndex r) + nat (j - i - 1) = nat (j - m_lastSnapshotIndex r - 1)"
      using that lt by simp
    moreover have "nat (i - m_lastSnapshotIndex r) \<le> length (m_logs r)"
      using lt assms(1) by (auto simp: raft_ok_defs last_index_contiguous nat_le_iff)
    ultimately show ?thesis by (simp add: entry_at_def r2 log_above_def)
  qed
  then have "committed_agree A ops r2" using assms(2) lt by (auto simp: committed_agree_def r2)
  then show ?thesis using r2 assms(3,4) by simp
qed

text \<open>The snapshot of a round is asked for at the index of the command it executed.\<close>

lemma apply_round_index:
  assumes "apply_round A env (s, r) = Inr (Some (s', r'))"
    "Pop (applyChan r) = Some (command_message c i, q)"
  shows "r' = r\<lparr>applyChan := q\<rparr> \<or> (\<exists>snap. Snapshot i snap (r\<lparr>applyChan := q\<rparr>) = Inr r')"
proof -
  obtain z flips flipss where env: "env = (z, flips, flipss)" by (cases env) auto
  show ?thesis
    using assms
    by (auto simp: apply_round_def env GetCommandFromRaft_def IfNeedToSendSnapShotCommand_def rbind_eq_Inr
        split: if_splits)
qed

lemma replica_ok_serve:
  assumes "apply_round A env (s, r) = Inr (Some (s', r'))" "replica_at A ops st (s, r)"
    "\<forall>j. op_parse A (op_text A (ops j)) = Some (ops j)"
  shows "replica_at A ops (exec_op (ops (consumed r + 1)) st) (s', r') \<and> consumed r' = consumed r + 1"
proof -
  let ?i = "consumed r + 1"
  have rep: "kv_rep s st" and ok: "raft_ok r" and zero: "0 \<le> consumed r"
    and agree: "committed_agree A ops r" and snap: "m_lastSnapShotRaftLogIndex s = 0"
    and q: "m_queue (applyChan r) = log_messages A ops (consumed r) (m_lastApplied r)"
    using assms(2) by (auto simp: replica_at_def)
  have "m_queue (applyChan r) \<noteq> []" using assms(1) by (auto simp: apply_round_def Pop_def)
  then obtain m ms where ms: "m_queue (applyChan r) = m # ms" by (cases "m_queue (applyChan r)") auto
  with q log_messages_Cons have c: "consumed r < m_lastApplied r" "m = command_message (op_text A (ops ?i)) ?i"
    "ms = log_messages A ops ?i (m_lastApplied r)"
    by metis+
  let ?q = "(applyChan r)\<lparr>m_queue := ms\<rparr>"
  have pop: "Pop (applyChan r) = Some (command_message (op_text A (ops ?i)) ?i, ?q)"
    using Pop_Cons [OF ms] c(2) by simp
  obtain s1 r1 where run: "apply_round A env (s, r) = Inr (Some (s1, r1))" "raft_ok r1"
    "m_queue (applyChan r1) = ms" "kv_rep s1 (exec_op (ops ?i) st)"
    "m_lastSnapShotRaftLogIndex s1 = m_lastSnapShotRaftLogIndex s"
    using apply_round_command [OF rep ok, of A "ops ?i" ?i ms env] ms c assms(3) snap zero by auto
  then have eq: "s1 = s'" "r1 = r'" using assms(1) by simp_all
  have "committed_agree A ops r' \<and> m_lastApplied r' = m_lastApplied r"
    using apply_round_index [OF assms(1) pop]
  proof
    assume "\<exists>snap. Snapshot ?i snap (r\<lparr>applyChan := ?q\<rparr>) = Inr r'"
    then obtain snap where "Snapshot ?i snap (r\<lparr>applyChan := ?q\<rparr>) = Inr r'" by blast
    moreover have "committed_agree A ops (r\<lparr>applyChan := ?q\<rparr>)"
      using agree committed_agree_cong [of "r\<lparr>applyChan := ?q\<rparr>" r] by simp
    moreover have "?i \<le> m_lastApplied (r\<lparr>applyChan := ?q\<rparr>)" using c(1) by simp
    ultimately show ?thesis
      using Snapshot_keeps [OF raft_ok_chan [OF ok, of ?q], of A ops ?i snap r'] by simp
  qed (use agree committed_agree_cong [of r' r] in simp)
  moreover from this have "consumed r' = ?i"
    using run(3) c(1,3) unfolding consumed_def [of r'] eq by simp
  ultimately show ?thesis
    using run c(3) snap zero by (simp add: replica_at_def eq)
qed

lemma replica_ok_request:
  assumes "begin_request A op (s, r) = (p, s', r')" "replica_at A ops st (s, r)"
  shows "replica_at A ops st (s', r') \<and> consumed r' = consumed r"
proof -
  have rep: "kv_rep s st" and ok: "raft_ok r"
    and agree: "committed_agree A ops r"
    using assms(2) by (auto simp: replica_at_def)
  obtain r1 srep where st: "Start (op_text A op) r = (r1, srep)" by (cases "Start (op_text A op) r")
  note frame = Start_frame [OF ok st]
  have r': "r' = r1" using assms(1) st by (auto simp: begin_request_def split: if_splits prod.splits)
  have "m_lastSnapshotIndex r1 = m_lastSnapshotIndex r"
    "\<forall>j. m_lastSnapshotIndex r < j \<and> j \<le> m_commitIndex r \<longrightarrow> entry_at r1 j = entry_at r j"
    using st ok
    by (auto simp: Start_def Let_def entry_at_def nth_append raft_ok_defs last_index_contiguous
        split: if_splits)
  then have "committed_agree A ops r1" using agree frame by (simp add: committed_agree_def)
  moreover have "consumed r1 = consumed r" using frame by (simp add: consumed_def)
  moreover have "kv_rep s' st \<and>
      m_lastSnapShotRaftLogIndex s' = m_lastSnapShotRaftLogIndex s"
    using assms(1) st rep open_channel_ok [OF rep]
    by (auto simp: begin_request_def split: if_splits prod.splits)
  ultimately show ?thesis using assms(2) frame by (simp add: replica_at_def r')
qed

lemma replica_ok_answer:
  assumes "PutAppend_end op i a s = Inr (x, s')" "replica_at A ops st (s, r)"
  shows "replica_at A ops st (s', r)"
proof -
  have rep: "kv_rep s st" using assms(2) by (simp add: replica_at_def)
  from assms(1) obtain q where q: "chan_heap s a = Some q"
    by (cases "chan_heap s a") (auto simp: PutAppend_end_def wait_channel_def)
  obtain c s1 where w: "wait_channel a s = Inr (c, s1)" "kv_rep s1 st"
    using wait_channel_ok [OF rep q] by blast
  have "m_lastSnapShotRaftLogIndex s1 = m_lastSnapShotRaftLogIndex s"
    using w(1) q by (auto simp: wait_channel_def split: prod.splits)
  moreover have "m_lastSnapShotRaftLogIndex (close_channel i s1) = m_lastSnapShotRaftLogIndex s1"
    by (simp add: close_channel_def split: option.split)
  moreover have "s' = close_channel i s1" using assms(1) w(1) by (simp add: PutAppend_end_def)
  ultimately show ?thesis using close_channel_ok [OF w(2)] assms(2) by (simp add: replica_at_def)
qed

text \<open>A step executes the next command or leaves what the server represents.\<close>

lemma replica_step_at:
  assumes "replica_step A ops sr sr'" "replica_at A ops st sr"
    "\<forall>j. op_parse A (op_text A (ops j)) = Some (ops j)"
  shows "replica_at A ops st sr' \<and> consumed (snd sr') = consumed (snd sr)
    \<or> replica_at A ops (exec_op (ops (consumed (snd sr) + 1)) st) sr' \<and> consumed (snd sr') = consumed (snd sr) + 1"
  using assms(1)
proof (cases rule: replica_step.cases)
  case raft_handler
  then show ?thesis using replica_ok_raft assms(2) by fastforce
next
  case serve
  then show ?thesis using replica_ok_serve assms(2,3) by fastforce
next
  case request
  then show ?thesis using replica_ok_request assms(2) by fastforce
next
  case put_answer
  then show ?thesis using replica_ok_answer assms(2) by fastforce
next
  case vote_answer
  then show ?thesis using same_marks_ok [OF same_marks_election(3)] assms(2) by fastforce
next
  case vote
  then show ?thesis using same_marks_ok [OF same_marks_election(2)] assms(2) by fastforce
next
  case election
  then show ?thesis using same_marks_ok [OF same_marks_election(1)] assms(2) by fastforce
qed

lemma replica_at_consumed: "replica_at A ops st sr \<Longrightarrow> 0 \<le> consumed (snd sr)"
  by (cases sr) (simp add: replica_at_def)

lemma replica_step_ok:
  assumes "replica_step A ops sr sr'" "replica_ok A ops sr"
    "\<forall>j. op_parse A (op_text A (ops j)) = Some (ops j)"
  shows "replica_ok A ops sr'"
  using replica_step_at [OF assms(1) assms(2) [unfolded replica_ok_def] assms(3)]
    replica_at_consumed [OF assms(2) [unfolded replica_ok_def]]
  by (auto simp: replica_ok_def state_after_next)

lemma new_replica_ok:
  assumes "new_replica A me n k sr"
  shows "replica_ok A ops sr"
proof -
  obtain s r where sr: "sr = (s, r)" by (cases sr)
  have s: "s = empty_server\<lparr>m_maxRaftState := k\<rparr>" and r: "r = fresh_node me n"
    using assms by (auto simp: sr new_replica_def KvServer_def empty_server_def)
  have "kv_rep s (Map.empty, Map.empty)"
    using empty_server_rep by (simp add: s kv_rep_def chans_ok_def)
  moreover have "raft_ok r"
    by (simp add: r raft_ok_defs log_ok_def fresh_node_eq getLastLogIndex_def getLastLogIndexandTerm_def)
  moreover have "consumed r = 0" "m_queue (applyChan r) = []" "m_lastApplied r = 0"
    "committed_agree A ops r"
    by (auto simp: r consumed_def fresh_node_eq committed_agree_def)
  ultimately show ?thesis
    by (simp add: sr replica_ok_def replica_at_def log_messages_def state_after_def s empty_server_def)
qed

lemma replica_invariant:
  assumes "replica A ops sr" "\<forall>j. op_parse A (op_text A (ops j)) = Some (ops j)"
  shows "replica_ok A ops sr"
proof -
  obtain me n k sr0 where "new_replica A me n k sr0" "(replica_step A ops)\<^sup>*\<^sup>* sr0 sr"
    using assms(1) by (auto simp: replica_def)
  from this(2) new_replica_ok [OF this(1)] show ?thesis
    by (induction rule: rtranclp_induct) (auto intro: replica_step_ok [OF _ _ assms(2)])
qed

section \<open>Properties\<close>

text \<open>A follower is sent the first command of a log, applies it and serves it.\<close>
definition sample_append :: "string \<Rightarrow> AppendEntriesArgs" where
  "sample_append cmd = \<lparr>ae_term = 1, ae_leaderid = 1, ae_prevlogindex = 0, ae_prevlogterm = 0,
     ae_entries = [\<lparr>command = cmd, logterm = 1, logindex = 1\<rparr>], ae_leadercommit = 1\<rparr>"

lemma sample_append_steps:
  "\<exists>r. (replica_step A ops)\<^sup>*\<^sup>* (empty_server, fresh_node 0 3) (empty_server, r)
     \<and> m_lastApplied r = 1 \<and> m_queue (applyChan r) = [command_message (op_text A (ops 1)) 1] \<and> raft_ok r"
proof -
  let ?r0 = "fresh_node 0 3" and ?req = "sample_append (op_text A (ops 1))"
  have ok0: "raft_ok ?r0"
    by (simp add: raft_ok_defs log_ok_def fresh_node_eq getLastLogIndex_def getLastLogIndexandTerm_def)
  have "matching ?req ?r0"
    by (simp add: matching_def contradicts_def term_at_def contiguous_def fresh_node_eq sample_append_def
        getLastLogIndex_def getLastLogIndexandTerm_def)
  from append_matching [OF ok0 this, of 5] obtain r2 where
    run: "AppendEntries 5 ?req True ?r0 = Inr (r2, \<lparr>aer_term = 1, aer_success = True,
        aer_updatenextindex = -100\<rparr>)"
    and logs: "m_logs r2 = [\<lparr>command = op_text A (ops 1), logterm = 1, logindex = 1\<rparr>]"
    and com: "m_commitIndex r2 = max 0 (min 1 (getLastLogIndex r2))"
    by (auto simp: req_start_def fresh_node_eq sample_append_def)
  have com2: "m_commitIndex r2 = 1" and snap2: "m_lastSnapshotIndex r2 = 0"
    using com AppendEntries_frame [OF run]
    by (simp_all add: getLastLogIndex_def getLastLogIndexandTerm_def logs) (simp add: fresh_node_eq)
  obtain r1 out where b: "ae_begin 5 ?req ?r0 = Inr (r1, out)"
    and e: "r1 = r2 \<or> (\<exists>ps rep. ae_finish ?req ps True r1 = Inr (r2, rep))"
  proof -
    from run obtain x where x: "ae_begin 5 ?req ?r0 = Inr x"
      "(case x of (r1, out) \<Rightarrow> case out of AE_reply rep \<Rightarrow> Inr (r1, rep)
         | AE_wait ps \<Rightarrow> ae_finish ?req ps True r1)
       = Inr (r2, \<lparr>aer_term = 1, aer_success = True, aer_updatenextindex = -100\<rparr>)"
      unfolding AppendEntries_def rbind_eq_Inr by blast
    then show thesis using that by (cases x; cases "snd x") auto
  qed
  note f1 = ae_begin_frame [OF ok0 b]
  have f2: "m_lastApplied r2 = 0 \<and> applyChan r2 = applyChan ?r0 \<and> raft_ok r2"
    using e ae_finish_frame [of r1] f1 by (force simp: fresh_node_eq)
  have "m_lastSnapshotIndex r1 = 0"
    using b by (auto simp: ae_begin_def Let_def rbind_eq_Inr fresh_node_eq split: if_splits)
  then have agree1: "committed_agree A ops r1"
    using f1 by (auto simp: committed_agree_def fresh_node_eq)
  have one: "0 < j \<Longrightarrow> j \<le> 1 \<Longrightarrow> j = 1" for j :: int by simp
  have agree2: "committed_agree A ops r2"
    using com2 snap2 logs by (auto simp: committed_agree_def entry_at_def dest: one)
  have none: "no_snapshots r1" "no_snapshots r2"
    using f1 f2 by (auto simp: no_snapshots_def fresh_node_eq)
  have "replica_step A ops (empty_server, ?r0) (empty_server, r1)"
    by (rule raft_handler [OF append_begin [OF b] agree1 none(1)])
  moreover have "r1 = r2 \<or> replica_step A ops (empty_server, r1) (empty_server, r2)"
    using e by (auto intro: raft_handler [OF append_finish agree2 none(2)])
  moreover obtain r3 where r3: "applierTicker r2 = Inr r3" "raft_ok r3" "m_lastApplied r3 = 1"
    "m_commitIndex r3 = 1" "m_logs r3 = m_logs r2"
    "m_queue (applyChan r3) = m_queue (applyChan r2) @ commands_between r2 (m_lastApplied r2) 1"
    using applierTicker_ok [of r2] f2 com2 by auto
  have q3: "m_queue (applyChan r3) = [command_message (op_text A (ops 1)) 1]"
    using r3(6) f2 logs snap2 by (simp add: commands_between_def entry_at_def fresh_node_eq)
  have "m_lastSnapshotIndex r3 = 0" using r3(1) snap2
    by (auto simp: applierTicker_def applier_take_def rbind_eq_Inr applier_push_eq Let_def split: if_splits)
  then have "committed_agree A ops r3"
    using agree2 committed_agree_cong [of r3 r2] r3 com2 snap2 by simp
  then have "replica_step A ops (empty_server, r2) (empty_server, r3)"
    using q3 by (intro raft_handler [OF apply_turn [OF r3(1)]]) (simp_all add: no_snapshots_def)
  ultimately show ?thesis
    using r3 q3 by (intro exI [of _ r3]) (auto intro: rtranclp.rtrancl_into_rtrancl)
qed

lemma served_replica:
  assumes parse: "\<forall>j. op_parse A (op_text A (ops j)) = Some (ops j)"
  shows "\<exists>s r. replica A ops (s, r) \<and> consumed r = 1"
proof -
  obtain r where r: "(replica_step A ops)\<^sup>*\<^sup>* (empty_server, fresh_node 0 3) (empty_server, r)"
    "m_lastApplied r = 1" "m_queue (applyChan r) = [command_message (op_text A (ops 1)) 1]" "raft_ok r"
    using sample_append_steps by blast
  have new: "new_replica A 0 3 (-1) (empty_server, fresh_node 0 3)"
    by (simp add: new_replica_def KvServer_def empty_server_def)
  have rep: "replica A ops (empty_server, r)"
    using new r(1) unfolding replica_def by blast
  obtain s' r' where run: "apply_round A (0, [], []) (empty_server, r) = Inr (Some (s', r'))"
    using apply_round_command [OF empty_server_rep r(4), of A "ops 1" 1 "[]" "(0, [], [])"] r(3) parse
    by (auto simp: empty_server_def)
  have "consumed r = 0" using r(2,3) by (simp add: consumed_def)
  moreover have "consumed r' = consumed r + 1"
    using replica_ok_serve [OF run replica_invariant [OF rep parse, unfolded replica_ok_def] parse] by simp
  moreover have "replica A ops (s', r')"
    using rep serve [OF run] unfolding replica_def by (meson rtranclp.rtrancl_into_rtrancl)
  ultimately show ?thesis by auto
qed

text \<open>The command a is the only one of this log.\<close>

definition sample_ops :: "int \<Rightarrow> Op" where
  "sample_ops j = sample_put ''a''"

lemma sample_replica:
  "\<exists>s r. replica sample_archives sample_ops (s, r) \<and> consumed r = 1"
  by (rule served_replica) (simp add: sample_ops_def)



end
