(* ===== verification/Exactly_Once.thy ===== *)
theory Exactly_Once
  imports Replica
begin

text \<open>
  A replica that also answers reads, against a reference that forgets nothing: the log with each
  write once, where it came first. The server remembers only the highest request id of each client
  (\<open>m_last_RequestId\<close>), and a read overwrites it, so this rests on how clerks number and repeat their requests.
\<close>

section \<open>The reference\<close>

definition is_write :: "Op \<Rightarrow> bool" where
  "is_write op \<longleftrightarrow> Operation op \<in> {''Put'', ''Append''}"

definition request_key :: "Op \<Rightarrow> string \<times> int" where
  "request_key op = (ClientId op, RequestId op)"

text \<open>The writes among the first \<open>n\<close> commands of the log, and whether the command at \<open>j\<close> is a write that is new.\<close>

definition written_keys :: "(int \<Rightarrow> Op) \<Rightarrow> int \<Rightarrow> (string \<times> int) set" where
  "written_keys ops n = request_key ` set (filter is_write (map ops [1..n]))"

definition first_write :: "(int \<Rightarrow> Op) \<Rightarrow> int \<Rightarrow> bool" where
  "first_write ops j \<longleftrightarrow> is_write (ops j) \<and> request_key (ops j) \<notin> written_keys ops (j - 1)"

definition store_once :: "(int \<Rightarrow> Op) \<Rightarrow> int \<Rightarrow> string \<Rightarrow> string option" where
  "store_once ops n = fold (\<lambda>j m. m(Key (ops j) \<mapsto> Value (ops j))) (filter (first_write ops) [1..n]) Map.empty"

text \<open>
  A clerk numbers its operations upwards and sends the next one when the last one is done: a new
  write in the log is above all its client's earlier ones, and a read is answered between the
  writes it was sent between.
\<close>

definition numbered :: "(int \<Rightarrow> Op) \<Rightarrow> bool" where
  "numbered ops \<longleftrightarrow> (\<forall>j \<ge> 1. first_write ops j \<longrightarrow>
     (\<forall>k \<in> written_keys ops (j - 1). fst k = ClientId (ops j) \<longrightarrow> snd k < RequestId (ops j)))"

definition in_turn :: "(int \<Rightarrow> Op) \<Rightarrow> int \<Rightarrow> Op \<Rightarrow> bool" where
  "in_turn ops n op \<longleftrightarrow> (\<forall>k \<in> written_keys ops n. fst k = ClientId op \<longrightarrow> snd k < RequestId op)
     \<and> (\<forall>j > n. first_write ops j \<and> ClientId (ops j) = ClientId op \<longrightarrow> RequestId op < RequestId (ops j))"

inductive service_step :: "archives \<Rightarrow> (int \<Rightarrow> Op) \<Rightarrow> kv_server \<times> raft \<Rightarrow> kv_server \<times> raft \<Rightarrow> bool"
  for A ops where
  handle: "replica_step A ops sr sr' \<Longrightarrow> service_step A ops sr sr'"
| get_answer: "Get_end isLeader op i a s = Inr (rep, s') \<Longrightarrow> in_turn ops (consumed r) op \<Longrightarrow>
    service_step A ops (s, r) (s', r)"

definition service :: "archives \<Rightarrow> (int \<Rightarrow> Op) \<Rightarrow> kv_server \<times> raft \<Rightarrow> bool" where
  "service A ops sr \<longleftrightarrow> (\<exists>me n k sr0. new_replica A me n k sr0 \<and> (service_step A ops)\<^sup>*\<^sup>* sr0 sr)"

section \<open>The table\<close>

lemma numberedD:
  "numbered ops \<Longrightarrow> 1 \<le> j \<Longrightarrow> first_write ops j \<Longrightarrow> k \<in> written_keys ops (j - 1) \<Longrightarrow>
   fst k = ClientId (ops j) \<Longrightarrow> snd k < RequestId (ops j)"
  by (auto simp: numbered_def)

lemma written_keys_next: "0 \<le> n \<Longrightarrow> written_keys ops (n + 1) =
    (if is_write (ops (n + 1)) then insert (request_key (ops (n + 1))) (written_keys ops n) else written_keys ops n)"
  using upto_split2 [of 1 n "n + 1"] by (cases "n = 0") (auto simp: written_keys_def)

lemma store_once_next: "0 \<le> n \<Longrightarrow> store_once ops (n + 1) =
    (if first_write ops (n + 1) then (store_once ops n)(Key (ops (n + 1)) \<mapsto> Value (ops (n + 1))) else store_once ops n)"
  using upto_split2 [of 1 n "n + 1"] by (cases "n = 0") (auto simp: store_once_def)

text \<open>
  After \<open>n\<close> commands the table's number for a client is between the ids of its writes so far and
  those of its writes to come.
\<close>

definition table_ok :: "(int \<Rightarrow> Op) \<Rightarrow> int \<Rightarrow> (string \<Rightarrow> int option) \<Rightarrow> bool" where
  "table_ok ops n t \<longleftrightarrow> (\<forall>k \<in> written_keys ops n. \<exists>i. t (fst k) = Some i \<and> snd k \<le> i)
     \<and> (\<forall>c i j. t c = Some i \<and> n < j \<and> first_write ops j \<and> ClientId (ops j) = c \<longrightarrow> i < RequestId (ops j))"

lemma table_ok_read: "table_ok ops n t \<Longrightarrow> in_turn ops n op \<Longrightarrow> table_ok ops n (t(ClientId op \<mapsto> RequestId op))"
  by (fastforce simp: table_ok_def in_turn_def)

lemma table_ok_exec:
  assumes "numbered ops" "0 \<le> n" "table_ok ops n (snd st)" "fst st = store_once ops n"
  shows "table_ok ops (n + 1) (snd (exec_op (ops (n + 1)) st)) \<and> fst (exec_op (ops (n + 1)) st) = store_once ops (n + 1)"
proof -
  let ?op = "ops (n + 1)"
  note next_keys = written_keys_next [OF assms(2), of ops]
  show ?thesis
  proof (cases "first_write ops (n + 1)")
    case True
    then have op: "is_write ?op" "request_key ?op \<notin> written_keys ops n" by (simp_all add: first_write_def)
    have "\<not> executed ?op st" using assms(3) True by (fastforce simp: table_ok_def executed_def)
    then have ex: "exec_op ?op st = ((fst st)(Key ?op \<mapsto> Value ?op), (snd st)(ClientId ?op \<mapsto> RequestId ?op))"
      using op(1) by (simp add: exec_op_def is_write_def)
    have below: "\<forall>k \<in> written_keys ops n. fst k = ClientId ?op \<longrightarrow> snd k < RequestId ?op"
      using numberedD [OF assms(1) _ True] assms(2) by simp
    have above: "RequestId ?op < RequestId (ops j)"
      if "n + 1 < j" "first_write ops j" "ClientId (ops j) = ClientId ?op" for j
    proof -
      have "n + 1 \<in> set [1..j - 1]" using that(1) assms(2) by simp
      then have "request_key ?op \<in> written_keys ops (j - 1)" using op(1) by (auto simp: written_keys_def)
      from numberedD [OF assms(1) _ that(2) this] show ?thesis using assms(2) that by (simp add: request_key_def)
    qed
    have "table_ok ops (n + 1) ((snd st)(ClientId ?op \<mapsto> RequestId ?op))"
      using assms(3) below above op(1) next_keys
      by (fastforce simp: table_ok_def request_key_def)
    then show ?thesis using ex True assms(2,4) by (simp add: store_once_next)
  next
    case False
    then have "exec_op ?op st = st"
      using assms(3) by (fastforce simp: exec_op_def executed_def table_ok_def first_write_def is_write_def request_key_def)
    moreover have "written_keys ops (n + 1) = written_keys ops n"
      using False next_keys by (auto simp: first_write_def)
    ultimately show ?thesis
      using False assms(2-4) by (auto simp: store_once_next table_ok_def)
  qed
qed

section \<open>Reads\<close>

text \<open>What a read answers, when it answers from the store, and what it does to the server.\<close>

lemma Get_end_ok:
  assumes "Get_end isLeader op i a s = Inr ((err, v), s')" "kv_rep s st"
  shows "(kv_rep s' st \<or> kv_rep s' (fst st, (snd st)(ClientId op \<mapsto> RequestId op)))
    \<and> m_lastSnapShotRaftLogIndex s' = m_lastSnapShotRaftLogIndex s
    \<and> (err \<noteq> ErrWrongLeader \<longrightarrow> (err, v) = (case fst st (Key op) of None \<Rightarrow> (ErrNoKey, []) | Some x \<Rightarrow> (OK, x)))"
proof -
  from assms(1) obtain q where q: "chan_heap s a = Some q"
    by (cases "chan_heap s a") (auto simp: Get_end_def wait_channel_def)
  obtain c s1 where w: "wait_channel a s = Inr (c, s1)" "kv_rep s1 st"
    using wait_channel_ok [OF assms(2) q] by blast
  have snap: "m_lastSnapShotRaftLogIndex s1 = m_lastSnapShotRaftLogIndex s"
    using w(1) q by (auto simp: wait_channel_def split: prod.splits)
  obtain s2 where x: "ExecuteGetOpOnKVDB op s1 =
      Inr (case fst st (Key op) of None \<Rightarrow> [] | Some v \<Rightarrow> v, fst st (Key op) \<noteq> None, s2)"
    "same_frame s1 s2" "kv_rep s2 (fst st, (snd st)(ClientId op \<mapsto> RequestId op))"
    using ExecuteGet_ok [OF w(2), of op] by blast
  have "answer_get op s1 = Inr (case fst st (Key op) of None \<Rightarrow> (ErrNoKey, []) | Some x \<Rightarrow> (OK, x), s2)"
    using x(1) by (simp add: answer_get_def split: option.split)
  then consider "s' = close_channel i s1" "err = ErrWrongLeader"
    | "s' = close_channel i s2" "(err, v) = (case fst st (Key op) of None \<Rightarrow> (ErrNoKey, []) | Some x \<Rightarrow> (OK, x))"
    using assms(1) w(1) by (auto simp: Get_end_def split: option.splits if_splits)
  moreover have "m_lastSnapShotRaftLogIndex (close_channel i t) = m_lastSnapShotRaftLogIndex t" for t
    by (simp add: close_channel_def split: option.split)
  ultimately show ?thesis
    using close_channel_ok [OF w(2), of i] close_channel_ok [OF x(3), of i] snap x(2)
    by cases (auto simp: same_frame_def)
qed

section \<open>The service\<close>

definition service_ok :: "archives \<Rightarrow> (int \<Rightarrow> Op) \<Rightarrow> kv_server \<times> raft \<Rightarrow> bool" where
  "service_ok A ops sr \<longleftrightarrow> (\<exists>t. replica_at A ops (store_once ops (consumed (snd sr)), t) sr
     \<and> table_ok ops (consumed (snd sr)) t)"

lemma service_step_ok:
  assumes "service_step A ops sr sr'" "service_ok A ops sr" "numbered ops"
    "\<forall>j. op_parse A (op_text A (ops j)) = Some (ops j)"
  shows "service_ok A ops sr'"
proof -
  obtain t where at: "replica_at A ops (store_once ops (consumed (snd sr)), t) sr" "table_ok ops (consumed (snd sr)) t"
    using assms(2) by (auto simp: service_ok_def)
  show ?thesis
    using assms(1)
  proof (cases rule: service_step.cases)
    case handle
    let ?op = "ops (consumed (snd sr) + 1)" and ?st = "(store_once ops (consumed (snd sr)), t)"
    have next_op: "table_ok ops (consumed (snd sr) + 1) (snd (exec_op ?op ?st))
        \<and> fst (exec_op ?op ?st) = store_once ops (consumed (snd sr) + 1)"
      using at by (intro table_ok_exec [OF assms(3) replica_at_consumed]) simp_all
    then have "exec_op ?op ?st = (store_once ops (consumed (snd sr) + 1), snd (exec_op ?op ?st))"
      by (simp add: prod_eq_iff)
    then show ?thesis
      using replica_step_at [OF handle at(1) assms(4)] at(2) next_op unfolding service_ok_def by metis
  next
    case (get_answer isLeader op i a s rep s' r)
    obtain err v where rep: "rep = (err, v)" by (cases rep)
    have "kv_rep s (store_once ops (consumed r), t)" using at(1) get_answer(1) by (simp add: replica_at_def)
    from Get_end_ok [OF get_answer(3) [unfolded rep] this]
    obtain t' where "kv_rep s' (store_once ops (consumed r), t')" "t' = t \<or> t' = t(ClientId op \<mapsto> RequestId op)"
      "m_lastSnapShotRaftLogIndex s' = m_lastSnapShotRaftLogIndex s" by auto
    then show ?thesis
      using at get_answer(1,2) table_ok_read [OF _ get_answer(4)]
      by (auto simp: service_ok_def replica_at_def)
  qed
qed

lemma service_invariant:
  assumes "service A ops sr" "numbered ops" "\<forall>j. op_parse A (op_text A (ops j)) = Some (ops j)"
  shows "service_ok A ops sr"
proof -
  obtain me n k sr0 where new: "new_replica A me n k sr0" and run: "(service_step A ops)\<^sup>*\<^sup>* sr0 sr"
    using assms(1) by (auto simp: service_def)
  have at: "replica_at A ops (state_after ops (consumed (snd sr0))) sr0"
    using new_replica_ok [OF new] by (simp add: replica_ok_def)
  have "consumed (snd sr0) = 0"
    using new by (simp add: new_replica_def consumed_def fresh_node_eq)
  with at have "service_ok A ops sr0"
    by (intro exI [of _ Map.empty] service_ok_def [THEN iffD2])
       (simp add: state_after_def store_once_def table_ok_def written_keys_def)
  with run show ?thesis
    by (induction rule: rtranclp_induct) (auto intro: service_step_ok [OF _ _ assms(2,3)])
qed

lemma replica_service: "replica A ops sr \<Longrightarrow> service A ops sr"
  unfolding replica_def service_def by (metis (no_types, lifting) handle mono_rtranclp)

section \<open>Properties\<close>



end
