(* ===== verification/Rpc_Wire.thy ===== *)
theory Rpc_Wire
  imports KV_Prelude
begin

unbundle bit_operations_syntax

text \<open>
  The wire format of the remote calls (src/rpc/mrpcchannel.cc, src/rpc/MrpcchannelMultiReq.cc,
  src/rpc/rpcprovider.cc): frames behind a variable-length size, how the clients read them from a
  socket and the server from its buffer. What the protobuf library does is a parameter: the
  encoder of the size, and the serializers and parsers of the frames.
\<close>

section \<open>Variable-length sizes\<close>

text \<open>\<open>appendVarint32\<close>: seven bits per byte, the lowest first, the top bit set on all but the last.\<close>

lemma unat_shift_7: "unat (drop_bit 7 (v :: u32)) = unat v div 128"
  by (simp only: unat_drop_bit_eq) (simp add: drop_bit_eq_div)

function appendVarint32 :: "u32 \<Rightarrow> u8 list" where
  "appendVarint32 v =
     (if v \<ge> 0x80 then (ucast (v AND 0x7f) OR 0x80) # appendVarint32 (drop_bit 7 v) else [ucast v])"
  by pat_completeness auto
termination
proof (relation "measure unat")
  fix v :: u32
  assume "128 \<le> v"
  then have "128 \<le> unat v" by (simp add: word_le_nat_alt)
  then show "(drop_bit 7 v, v) \<in> measure unat" by (simp only: in_measure unat_shift_7)
qed simp

declare appendVarint32.simps [simp del]

text \<open>The body of both readers: the value so far and the number of bytes read.\<close>

definition add_byte :: "nat \<Rightarrow> u32 \<Rightarrow> u8 \<Rightarrow> u32" where
  "add_byte i acc byte = acc OR push_bit (7 * i) (ucast (byte AND 0x7f))"

definition final_byte :: "u8 \<Rightarrow> bool" where
  "final_byte byte \<longleftrightarrow> byte AND 0x80 = 0"

datatype VarintReadResult = Varint_ok u32 nat | NeedMore | BadFormat

fun varint_loop :: "nat \<Rightarrow> u32 \<Rightarrow> u8 list \<Rightarrow> (u32 \<times> nat) option" where
  "varint_loop i acc [] = None"
| "varint_loop i acc (byte # bs) =
     (if i < 5 then
        (if final_byte byte then Some (add_byte i acc byte, i + 1)
         else varint_loop (i + 1) (add_byte i acc byte) bs)
      else None)"

definition TryReadVarint32 :: "u8 list \<Rightarrow> VarintReadResult" where
  "TryReadVarint32 data =
     (case varint_loop 0 0 data of
        Some (v, n) \<Rightarrow> Varint_ok v n
      | None \<Rightarrow> if length data < 5 then NeedMore else BadFormat)"

section \<open>Reading from a socket\<close>

text \<open>
  What the next calls of \<open>recv\<close> return: some bytes, of which a call takes as many as it asked for, an
  interruption, or the end of the connection (closed, timed out or broken). A call on the empty
  list blocks. A handler either retries after an interruption or not.
\<close>

datatype sock_event = Bytes "u8 list" | Interrupted | Broken

datatype 'a received = Received 'a "sock_event list" | Recv_failed "sock_event list" | Blocked

fun recvExact :: "bool \<Rightarrow> nat \<Rightarrow> sock_event list \<Rightarrow> u8 list received" where
  "recvExact retry 0 evs = Received [] evs"
| "recvExact retry (Suc n) [] = Blocked"
| "recvExact retry (Suc n) (Interrupted # evs) =
     (if retry then recvExact retry (Suc n) evs else Recv_failed evs)"
| "recvExact retry (Suc n) (Broken # evs) = Recv_failed evs"
| "recvExact retry (Suc n) (Bytes bs # evs) =
     (if length bs \<le> Suc n
      then (case recvExact retry (Suc n - length bs) evs of
              Received more evs' \<Rightarrow> Received (bs @ more) evs'
            | Recv_failed evs' \<Rightarrow> Recv_failed evs' | Blocked \<Rightarrow> Blocked)
      else Received (take (Suc n) bs) (Bytes (drop (Suc n) bs) # evs))"

fun recv_varint_loop :: "bool \<Rightarrow> nat \<Rightarrow> nat \<Rightarrow> u32 \<Rightarrow> sock_event list \<Rightarrow> u32 received" where
  "recv_varint_loop retry 0 i acc evs = Recv_failed evs"
| "recv_varint_loop retry (Suc left) i acc evs =
     (case recvExact retry 1 evs of
        Received bs evs' \<Rightarrow>
          (case bs of byte # _ \<Rightarrow>
             if final_byte byte then Received (add_byte i acc byte) evs'
             else recv_varint_loop retry left (i + 1) (add_byte i acc byte) evs'
           | [] \<Rightarrow> Recv_failed evs')
      | Recv_failed evs' \<Rightarrow> Recv_failed evs' | Blocked \<Rightarrow> Blocked)"

text \<open>Five rounds: \<open>shift\<close> is 0, 7, 14, 21, 28.\<close>

definition recvVarint32 :: "bool \<Rightarrow> sock_event list \<Rightarrow> u32 received" where
  "recvVarint32 retry evs = recv_varint_loop retry 5 0 0 evs"

definition kMaxFrameSize :: u32 where
  "kMaxFrameSize = 16 * 1024 * 1024"

text \<open>The body of one response frame, as both clients read it.\<close>

definition recv_frame :: "bool \<Rightarrow> sock_event list \<Rightarrow> u8 list received" where
  "recv_frame retry evs =
     (case recvVarint32 retry evs of
        Received frameSize evs' \<Rightarrow>
          if frameSize = 0 \<or> frameSize > kMaxFrameSize then Recv_failed evs'
          else recvExact retry (unat frameSize) evs'
      | Recv_failed evs' \<Rightarrow> Recv_failed evs' | Blocked \<Rightarrow> Blocked)"

section \<open>Writing\<close>

text \<open>\<open>write_varint\<close> stands for \<open>CodedOutputStream::WriteVarint32\<close>.\<close>

definition wire_frame :: "(u32 \<Rightarrow> u8 list) \<Rightarrow> u8 list \<Rightarrow> u8 list" where
  "wire_frame write_varint frame_str = write_varint (word_of_nat (length frame_str)) @ frame_str"

text \<open>Its documentation: base-128 groups, as \<open>appendVarint32\<close> writes them.\<close>

definition varint_encoder :: "(u32 \<Rightarrow> u8 list) \<Rightarrow> bool" where
  "varint_encoder write_varint \<longleftrightarrow> (\<forall>v. write_varint v = appendVarint32 v)"

section \<open>The server\<close>

record RpcRequestFrame =
  rq_request_id :: u64
  rq_service_name :: string
  rq_method_name :: string
  rq_payload :: "u8 list"

record RpcResponseFrame =
  rs_request_id :: u64
  rs_payload :: "u8 list"

text \<open>The registered services with their methods.\<close>

type_synonym service_map = "string \<Rightarrow> string list option"

text \<open>\<open>insert\<close> keeps an entry that is already there.\<close>

definition NotifyService :: "string \<Rightarrow> string list \<Rightarrow> service_map \<Rightarrow> service_map" where
  "NotifyService service_name methods m =
     (if m service_name = None then m(service_name \<mapsto> methods) else m)"

text \<open>What the server does with the buffer: calls of methods, with the id to answer, and shutdowns.\<close>

datatype 'req action = Call u64 string string 'req | Shutdown

text \<open>The parsers: of the request frame, and of the arguments of a method.\<close>

record 'req parsers =
  parse_frame :: "u8 list \<Rightarrow> RpcRequestFrame option"
  parse_request :: "string \<Rightarrow> string \<Rightarrow> u8 list \<Rightarrow> 'req option"

definition dispatch :: "'req parsers \<Rightarrow> service_map \<Rightarrow> RpcRequestFrame \<Rightarrow> 'req action list" where
  "dispatch ps m f =
     (case m (rq_service_name f) of
        None \<Rightarrow> []
      | Some methods \<Rightarrow>
          if rq_method_name f \<notin> set methods then []
          else (case parse_request ps (rq_service_name f) (rq_method_name f) (rq_payload f) of
                  None \<Rightarrow> []
                | Some req \<Rightarrow> [Call (rq_request_id f) (rq_service_name f) (rq_method_name f) req]))"

function OnMessage :: "'req parsers \<Rightarrow> service_map \<Rightarrow> u8 list \<Rightarrow> 'req action list \<times> u8 list" where
  "OnMessage ps m buffer =
     (case TryReadVarint32 buffer of
        NeedMore \<Rightarrow> ([], buffer)
      | BadFormat \<Rightarrow> ([Shutdown], buffer)
      | Varint_ok frameSize varintLen \<Rightarrow>
          if frameSize = 0 \<or> frameSize > kMaxFrameSize then ([Shutdown], buffer)
          else if length buffer < varintLen + unat frameSize then ([], buffer)
          else
            let frame_str = take (unat frameSize) (drop varintLen buffer);
                rest = drop (varintLen + unat frameSize) buffer in
            (case parse_frame ps frame_str of
               None \<Rightarrow> ([Shutdown], rest)
             | Some f \<Rightarrow> (case OnMessage ps m rest of (acts, rest') \<Rightarrow> (dispatch ps m f @ acts, rest'))))"
  by pat_completeness auto
termination
proof (relation "measure (\<lambda>(ps, m, buffer). length buffer)")
  fix ps :: "'req parsers" and m :: service_map and buffer :: "u8 list" and frameSize varintLen frame_str rest f
  assume v: "\<not> (frameSize = (0 :: u32) \<or> frameSize > kMaxFrameSize)"
    and len: "\<not> length buffer < varintLen + unat frameSize"
    and rest: "rest = drop (varintLen + unat frameSize) buffer"
  have "0 < unat frameSize" using v by (simp add: unat_gt_0)
  then have "length rest < length buffer" using len rest by simp
  then show "((ps, m, rest), ps, m, buffer) \<in> measure (\<lambda>(ps, m, buffer). length buffer)" by simp
qed simp

declare OnMessage.simps [simp del]

text \<open>The chunks in which the bytes arrive, one call of \<open>OnMessage\<close> for each.\<close>

fun on_chunks :: "'req parsers \<Rightarrow> service_map \<Rightarrow> u8 list \<Rightarrow> u8 list list \<Rightarrow> 'req action list \<times> u8 list" where
  "on_chunks ps m buffer [] = ([], buffer)"
| "on_chunks ps m buffer (c # cs) =
     (case OnMessage ps m (buffer @ c) of
        (acts, rest) \<Rightarrow> (case on_chunks ps m rest cs of (acts', rest') \<Rightarrow> (acts @ acts', rest')))"

text \<open>\<open>SendRpcResponse\<close>: nothing is sent when a serializer fails.\<close>

definition SendRpcResponse ::
  "(u32 \<Rightarrow> u8 list) \<Rightarrow> ('rsp \<Rightarrow> u8 list option) \<Rightarrow> (RpcResponseFrame \<Rightarrow> u8 list option) \<Rightarrow>
   u64 \<Rightarrow> 'rsp \<Rightarrow> u8 list option" where
  "SendRpcResponse write_varint ser_response ser_frame requestId response =
     (case ser_response response of
        None \<Rightarrow> None
      | Some payload \<Rightarrow>
          (case ser_frame \<lparr>rs_request_id = requestId, rs_payload = payload\<rparr> of
             None \<Rightarrow> None
           | Some body \<Rightarrow> Some (wire_frame write_varint body)))"

section \<open>Sizes: reading back\<close>

lemma final_byte_iff: "final_byte b \<longleftrightarrow> \<not> bit b 7"
proof -
  have "(0x80 :: u8) = 2 ^ 7" by simp
  then show ?thesis unfolding final_byte_def by (simp only: and_exp_eq_0_iff_not_bit)
qed

lemma low_bits: "v AND 0x7f = take_bit 7 (v :: 'a :: len word)"
  by (simp add: take_bit_eq_mask mask_eq_exp_minus_1)

lemma bit_80: "bit (0x80 :: u8) n \<longleftrightarrow> n = 7"
proof -
  have "(0x80 :: u8) = 2 ^ 7" by simp
  then show ?thesis by (simp only: bit_exp_iff) (auto simp: possible_bit_word)
qed

lemma high_zero:
  assumes "\<not> v \<ge> (0x80 :: u32)" "7 \<le> n"
  shows "\<not> bit v n"
proof -
  have "unat v < 128" using assms(1) by (simp add: word_le_nat_alt)
  then have "unat (drop_bit 7 v) = 0" by (simp only: unat_shift_7)
  then have "drop_bit 7 v = 0" by (simp only: unat_eq_zero)
  then have "\<not> bit (drop_bit 7 v) (n - 7)" by simp
  then show ?thesis using assms(2) by (simp add: bit_drop_bit_eq)
qed

lemma varint_last:
  assumes "\<not> v \<ge> (0x80 :: u32)"
  shows "final_byte (ucast v)" "add_byte i acc (ucast v) = acc OR push_bit (7 * i) v"
proof -
  have "ucast ((ucast v :: u8) AND 0x7f) = v"
  proof (rule bit_word_eqI)
    fix n assume "n < LENGTH(32)"
    moreover have "bit v n \<Longrightarrow> n < 7" using high_zero [OF assms, of n] by (cases "n < 7") auto
    ultimately show "bit (ucast ((ucast v :: u8) AND 0x7f) :: u32) n = bit v n"
      by (auto simp: bit_simps low_bits)
  qed
  then show "add_byte i acc (ucast v) = acc OR push_bit (7 * i) v" by (simp add: add_byte_def)
  show "final_byte (ucast v)" using high_zero [OF assms, of 7] by (simp add: final_byte_iff bit_ucast_iff)
qed

lemma varint_more:
  fixes v :: u32
  defines "b \<equiv> ucast (v AND 0x7f) OR (0x80 :: u8)"
  shows "\<not> final_byte b"
    "add_byte i acc b OR push_bit (7 * (i + 1)) (drop_bit 7 v) = acc OR push_bit (7 * i) v"
proof -
  show "\<not> final_byte b" by (simp add: b_def final_byte_iff bit_or_iff bit_80)
  have low: "ucast (b AND 0x7f) = v AND 0x7f"
    by (rule bit_word_eqI) (auto simp: b_def bit_simps low_bits bit_80)
  have "push_bit (7 * i) (v AND 0x7f) OR push_bit (7 * (i + 1)) (drop_bit 7 v) = push_bit (7 * i) v"
  proof (rule bit_word_eqI)
    fix n assume n: "n < LENGTH(32)"
    show "bit (push_bit (7 * i) (v AND 0x7f) OR push_bit (7 * (i + 1)) (drop_bit 7 v)) n = bit (push_bit (7 * i) v) n"
    proof (cases "7 * i + 7 \<le> n")
      case True
      then obtain k where k: "n = 7 * i + 7 + k" using le_Suc_ex by blast
      show ?thesis using n unfolding k by (auto simp: bit_simps low_bits add_ac)
    qed (use n in \<open>auto simp: bit_simps low_bits\<close>)
  qed
  then show "add_byte i acc b OR push_bit (7 * (i + 1)) (drop_bit 7 v) = acc OR push_bit (7 * i) v"
    by (simp add: add_byte_def low or.assoc)
qed

lemma length_varint:
  "unat (v :: u32) < 128 ^ k \<Longrightarrow> 0 < k \<Longrightarrow> length (appendVarint32 v) \<le> k"
proof (induction k arbitrary: v)
  case (Suc k)
  show ?case
  proof (cases "v \<ge> 0x80")
    case True
    then have big: "128 \<le> unat v" by (simp add: word_le_nat_alt)
    then have "0 < k" using Suc.prems(1) by (cases k) auto
    moreover have "unat (drop_bit 7 v) < 128 ^ k"
      using Suc.prems(1) by (simp only: unat_shift_7) (simp add: less_mult_imp_div_less)
    ultimately show ?thesis using Suc.IH True by (simp add: appendVarint32.simps [of v])
  qed (simp add: appendVarint32.simps [of v])
qed simp

lemma varint_bounds: "1 \<le> length (appendVarint32 v)" "length (appendVarint32 v) \<le> 5"
proof -
  show "1 \<le> length (appendVarint32 v)" by (simp add: appendVarint32.simps [of v])
  have "unat v < 2 ^ 32" using unsigned_less [of v] by simp
  then show "length (appendVarint32 v) \<le> 5" by (intro length_varint) simp_all
qed

lemma varint_loop_append:
  "i + length (appendVarint32 v) \<le> 5 \<Longrightarrow>
   varint_loop i acc (appendVarint32 v @ rest) =
    Some (acc OR push_bit (7 * i) v, i + length (appendVarint32 v))"
proof (induction v arbitrary: i acc rule: appendVarint32.induct)
  case (1 v)
  note unfold = appendVarint32.simps [of v]
  show ?case
  proof (cases "v \<ge> 0x80")
    case True
    let ?b = "ucast (v AND 0x7f) OR (0x80 :: u8)"
    have e: "appendVarint32 v = ?b # appendVarint32 (drop_bit 7 v)" using True unfold by simp
    have "varint_loop (i + 1) (add_byte i acc ?b) (appendVarint32 (drop_bit 7 v) @ rest) =
      Some (acc OR push_bit (7 * i) v, i + 1 + length (appendVarint32 (drop_bit 7 v)))"
      using "1.IH" [OF True, of "i + 1" "add_byte i acc ?b"] "1.prems" unfolding varint_more(2) by (simp add: e)
    then show ?thesis using varint_more(1) [of v] "1.prems" by (simp add: e)
  next
    case False
    then show ?thesis using varint_last [OF False] "1.prems" by (simp add: unfold)
  qed
qed

lemma TryRead_append:
  "TryReadVarint32 (appendVarint32 v @ rest) = Varint_ok v (length (appendVarint32 v))"
  using varint_loop_append [of 0 v 0 rest] varint_bounds(2) [of v] by (simp add: TryReadVarint32_def)

section \<open>Frames in the server's buffer\<close>

definition max_frame :: nat where
  "max_frame = 16 * 1024 * 1024"

definition body_ok :: "u8 list \<Rightarrow> bool" where
  "body_ok body \<longleftrightarrow> body \<noteq> [] \<and> length body \<le> max_frame"

abbreviation wire :: "u8 list \<Rightarrow> u8 list" where
  "wire \<equiv> wire_frame appendVarint32"

lemma frame_size:
  assumes "body_ok body"
  shows "unat (word_of_nat (length body) :: u32) = length body" "word_of_nat (length body) \<noteq> (0 :: u32)"
    "\<not> word_of_nat (length body) > kMaxFrameSize"
proof -
  have le: "length body \<le> 16777216" and pos: "0 < length body" using assms by (auto simp: body_ok_def max_frame_def)
  then show u: "unat (word_of_nat (length body) :: u32) = length body"
    by (simp add: unsigned_of_nat take_bit_nat_eq_self_iff)
  show "word_of_nat (length body) \<noteq> (0 :: u32)"
  proof
    assume "word_of_nat (length body) = (0 :: u32)"
    then show False using u pos by (metis unat_0 less_irrefl)
  qed
  show "\<not> word_of_nat (length body) > kMaxFrameSize"
    using le u by (simp add: kMaxFrameSize_def word_less_nat_alt)
qed

lemma length_wire: "length (wire body) = length (appendVarint32 (word_of_nat (length body))) + length body"
  by (simp add: wire_frame_def)

lemma OnMessage_frame:
  assumes "body_ok body" "parse_frame ps body = Some f"
  shows "OnMessage ps m (wire body @ rest) =
    (case OnMessage ps m rest of (acts, rest') \<Rightarrow> (dispatch ps m f @ acts, rest'))"
  using assms frame_size [OF assms(1)]
  by (subst OnMessage.simps) (simp add: wire_frame_def TryRead_append)

lemma OnMessage_bad_frame:
  assumes "body_ok body" "parse_frame ps body = None"
  shows "OnMessage ps m (wire body @ rest) = ([Shutdown], rest)"
  using assms frame_size [OF assms(1)]
  by (subst OnMessage.simps) (simp add: wire_frame_def TryRead_append)

lemma prefix_take: "xs @ ys = zs @ us \<Longrightarrow> length xs \<le> length zs \<Longrightarrow> xs = take (length xs) zs"
  by (metis append_eq_append_conv_if)

lemma prefix_split: "xs @ ys = zs @ us \<Longrightarrow> \<not> length xs < length zs \<Longrightarrow> \<exists>b. xs = zs @ b"
  by (auto simp: append_eq_append_conv2)

lemma varint_loop_prefix:
  "p @ q = appendVarint32 v \<Longrightarrow> q \<noteq> [] \<Longrightarrow> varint_loop i acc p = None"
proof (induction p arbitrary: v i acc)
  case (Cons b p)
  have "v \<ge> 0x80"
  proof (rule ccontr)
    assume "\<not> v \<ge> 0x80"
    then have "appendVarint32 v = [ucast v]" by (simp add: appendVarint32.simps [of v])
    then show False using Cons.prems by simp
  qed
  then have e: "appendVarint32 v = (ucast (v AND 0x7f) OR 0x80) # appendVarint32 (drop_bit 7 v)"
    by (simp add: appendVarint32.simps [of v])
  then have "p @ q = appendVarint32 (drop_bit 7 v)" "\<not> final_byte b"
    using Cons.prems(1) varint_more(1) [of v] by auto
  then show ?case using Cons.IH Cons.prems(2) by auto
qed simp

text \<open>An incomplete frame stays in the buffer.\<close>

lemma OnMessage_incomplete:
  assumes "body_ok body" "p @ q = wire body" "q \<noteq> []"
  shows "OnMessage ps m p = ([], p)"
proof -
  let ?v = "word_of_nat (length body) :: u32"
  have split: "p @ q = appendVarint32 ?v @ body" using assms(2) by (simp add: wire_frame_def)
  show ?thesis
  proof (cases "length p < length (appendVarint32 ?v)")
    case True
    let ?t = "drop (length p) (appendVarint32 ?v)"
    have p: "p = take (length p) (appendVarint32 ?v)"
      using prefix_take [OF split] True by simp
    then have "p @ ?t = appendVarint32 ?v" by (metis append_take_drop_id)
    then have "varint_loop 0 0 p = None" by (rule varint_loop_prefix) (use True in simp)
    then have "TryReadVarint32 p = NeedMore"
      using True varint_bounds(2) [of ?v] by (simp add: TryReadVarint32_def)
    then show ?thesis by (subst OnMessage.simps) simp
  next
    case False
    then obtain b where b: "p = appendVarint32 ?v @ b" using prefix_split [OF split] by auto
    have "b @ q = body" using split unfolding b by simp
    then have "length b < length body" using assms(3) by auto
    then show ?thesis
      using frame_size [OF assms(1)] by (subst OnMessage.simps) (simp add: b TryRead_append)
  qed
qed

text \<open>What a whole stream of frames makes the server do.\<close>

definition calls_of :: "'req parsers \<Rightarrow> service_map \<Rightarrow> u8 list list \<Rightarrow> 'req action list" where
  "calls_of ps m bodies = concat (map (\<lambda>b. dispatch ps m (the (parse_frame ps b))) bodies)"

definition unread :: "u8 list \<Rightarrow> u8 list list \<Rightarrow> bool" where
  "unread p bodies \<longleftrightarrow> (case bodies of [] \<Rightarrow> p = [] | b # _ \<Rightarrow> length p < length (wire b))"

definition stream_ok :: "'req parsers \<Rightarrow> u8 list list \<Rightarrow> bool" where
  "stream_ok ps bodies \<longleftrightarrow> (\<forall>b \<in> set bodies. body_ok b \<and> parse_frame ps b \<noteq> None)"

lemma OnMessage_prefix:
  assumes "x @ y = concat (map wire bodies)" "stream_ok ps bodies"
  shows "\<exists>bs1 bs2 p. bodies = bs1 @ bs2 \<and> p @ y = concat (map wire bs2) \<and> unread p bs2
    \<and> OnMessage ps m x = (calls_of ps m bs1, p)"
  using assms
proof (induction bodies arbitrary: x)
  case Nil
  have "OnMessage ps m [] = ([], [])" by (subst OnMessage.simps) (simp add: TryReadVarint32_def)
  then show ?case using Nil by (auto simp: unread_def calls_of_def)
next
  case (Cons b bs)
  have b: "body_ok b" and bs: "stream_ok ps bs" using Cons.prems(2) by (auto simp: stream_ok_def)
  obtain f where f: "parse_frame ps b = Some f" using Cons.prems(2) by (auto simp: stream_ok_def)
  show ?case
  proof (cases "length x < length (wire b)")
    case True
    then have "x = take (length x) (wire b)"
      using prefix_take [of x y "wire b" "concat (map wire bs)"] Cons.prems(1) by simp
    then have "x @ drop (length x) (wire b) = wire b" by (metis append_take_drop_id)
    then have "OnMessage ps m x = ([], x)" by (rule OnMessage_incomplete [OF b]) (use True in simp)
    then show ?thesis
      using Cons.prems(1) True by (intro exI [of _ "[]"] exI [of _ "b # bs"] exI [of _ x]) (simp add: unread_def calls_of_def)
  next
    case False
    then obtain x' where x: "x = wire b @ x'"
      using prefix_split [of x y "wire b" "concat (map wire bs)"] Cons.prems(1) by auto
    then have "x' @ y = concat (map wire bs)" using Cons.prems(1) by simp
    from Cons.IH [OF this bs] obtain bs1 bs2 p where ih: "bs = bs1 @ bs2" "p @ y = concat (map wire bs2)"
      "unread p bs2" "OnMessage ps m x' = (calls_of ps m bs1, p)" by blast
    have "OnMessage ps m x = (calls_of ps m (b # bs1), p)"
      using OnMessage_frame [OF b f, of m x'] ih(4) f by (simp add: x calls_of_def)
    then show ?thesis using ih by (intro exI [of _ "b # bs1"] exI [of _ bs2] exI [of _ p]) simp
  qed
qed

lemma on_chunks_stream:
  assumes "buffer @ concat cs = concat (map wire bodies)" "stream_ok ps bodies" "unread buffer bodies"
  shows "on_chunks ps m buffer cs = (calls_of ps m bodies, [])"
  using assms
proof (induction cs arbitrary: buffer bodies)
  case Nil
  have "bodies = []"
  proof (cases bodies)
    case (Cons b bs)
    then have "length (wire b) \<le> length buffer" using Nil.prems(1) by simp
    then show ?thesis using Nil.prems(3) Cons by (simp add: unread_def)
  qed simp
  then show ?case using Nil.prems by (simp add: calls_of_def unread_def)
next
  case (Cons c cs)
  have "(buffer @ c) @ concat cs = concat (map wire bodies)" using Cons.prems(1) by simp
  from OnMessage_prefix [OF this Cons.prems(2)] obtain bs1 bs2 p where s: "bodies = bs1 @ bs2"
    "p @ concat cs = concat (map wire bs2)" "unread p bs2" "OnMessage ps m (buffer @ c) = (calls_of ps m bs1, p)" by blast
  have "stream_ok ps bs2" using Cons.prems(2) s(1) by (simp add: stream_ok_def)
  from Cons.IH [OF s(2) this s(3)] show ?case using s(4) by (simp add: s(1) calls_of_def)
qed

section \<open>Frames on the client's socket\<close>

text \<open>The bytes a socket still delivers when nothing goes wrong.\<close>

fun bytes_of :: "sock_event list \<Rightarrow> u8 list" where
  "bytes_of [] = []"
| "bytes_of (Bytes bs # evs) = bs @ bytes_of evs"
| "bytes_of (_ # evs) = bytes_of evs"

definition healthy :: "bool \<Rightarrow> sock_event list \<Rightarrow> bool" where
  "healthy retry evs \<longleftrightarrow> Broken \<notin> set evs \<and> (retry \<or> Interrupted \<notin> set evs)"

lemma recvExact_healthy:
  assumes "healthy retry evs" "n \<le> length (bytes_of evs)"
  shows "\<exists>evs'. recvExact retry n evs = Received (take n (bytes_of evs)) evs'
    \<and> bytes_of evs' = drop n (bytes_of evs) \<and> healthy retry evs'"
  using assms
proof (induction retry n evs rule: recvExact.induct)
  case (5 retry n bs evs)
  show ?case
  proof (cases "length bs \<le> Suc n")
    case True
    have "healthy retry evs" "Suc n - length bs \<le> length (bytes_of evs)"
      using "5.prems" by (auto simp: healthy_def)
    from "5.IH" [OF True this] show ?thesis using True by auto
  next
    case False
    then show ?thesis using "5.prems" by (auto simp: healthy_def)
  qed
qed (auto simp: healthy_def)

lemma recv_varint_healthy:
  "healthy retry evs \<Longrightarrow> bytes_of evs = appendVarint32 v @ rest \<Longrightarrow> length (appendVarint32 v) \<le> left \<Longrightarrow>
   \<exists>evs'. recv_varint_loop retry left i acc evs = Received (acc OR push_bit (7 * i) v) evs'
     \<and> bytes_of evs' = rest \<and> healthy retry evs'"
proof (induction v arbitrary: i acc left evs rule: appendVarint32.induct)
  case (1 v)
  have "0 < left" using "1.prems"(3) varint_bounds(1) [of v] by simp
  then obtain l where l: "left = Suc l" by (cases left) auto
  obtain b bs where b: "appendVarint32 v = b # bs" using varint_bounds(1) [of v] by (cases "appendVarint32 v") auto
  obtain evs' where r: "recvExact retry 1 evs = Received [b] evs'" "bytes_of evs' = bs @ rest" "healthy retry evs'"
    using recvExact_healthy [OF "1.prems"(1), of 1] "1.prems"(2) b by auto
  show ?case
  proof (cases "v \<ge> 0x80")
    case True
    then have e: "b = ucast (v AND 0x7f) OR 0x80" "bs = appendVarint32 (drop_bit 7 v)"
      using b by (simp_all add: appendVarint32.simps [of v])
    obtain evs2 where r2: "recv_varint_loop retry l (i + 1) (add_byte i acc b) evs' = Received (acc OR push_bit (7 * i) v) evs2"
      "bytes_of evs2 = rest" "healthy retry evs2"
      using "1.IH" [OF True r(3), of l "i + 1" "add_byte i acc b"] r(2) "1.prems"(3)
      unfolding e varint_more(2) by (auto simp: b e(2) l)
    then show ?thesis using varint_more(1) [of v] r(1) by (simp add: l e(1))
  next
    case False
    then have e: "b = ucast v" "bs = []" using b by (simp_all add: appendVarint32.simps [of v])
    then show ?thesis using varint_last [OF False] r by (simp add: l)
  qed
qed

lemma recv_frame_healthy:
  assumes "healthy retry evs" "bytes_of evs = wire body @ rest" "body_ok body"
  shows "\<exists>evs'. recv_frame retry evs = Received body evs' \<and> bytes_of evs' = rest \<and> healthy retry evs'"
proof -
  let ?v = "word_of_nat (length body) :: u32"
  have "bytes_of evs = appendVarint32 ?v @ (body @ rest)" using assms(2) by (simp add: wire_frame_def)
  from recv_varint_healthy [OF assms(1) this varint_bounds(2), of 0 0]
  obtain evs1 where r: "recvVarint32 retry evs = Received ?v evs1" "bytes_of evs1 = body @ rest" "healthy retry evs1"
    by (auto simp: recvVarint32_def)
  then show ?thesis
    using recvExact_healthy [OF r(3), of "length body"] frame_size [OF assms(3)] by (simp add: recv_frame_def)
qed

lemma recvExact_length: "recvExact retry n evs = Received bs evs' \<Longrightarrow> length bs = n"
proof (induction retry n evs arbitrary: bs evs' rule: recvExact.induct)
  case (5 retry n cs evs)
  show ?case
  proof (cases "length cs \<le> Suc n")
    case True
    show ?thesis
    proof (cases "recvExact retry (Suc n - length cs) evs")
      case (Received more rest)
      then have "bs = cs @ more" using "5.prems" True by simp
      moreover have "length more = Suc n - length cs" using "5.IH" [OF True Received] .
      ultimately show ?thesis using True by simp
    qed (use "5.prems" True in simp_all)
  qed (use "5.prems" in auto)
qed (auto split: if_splits)

lemma recv_frame_body:
  assumes "recv_frame retry evs = Received body evs'"
  shows "body_ok body"
proof -
  obtain v evs1 where v: "recvVarint32 retry evs = Received v evs1" "v \<noteq> 0" "\<not> v > kMaxFrameSize"
    "recvExact retry (unat v) evs1 = Received body evs'"
    using assms by (auto simp: recv_frame_def split: received.splits if_splits)
  have "length body = unat v" by (rule recvExact_length [OF v(4)])
  moreover have "0 < unat v" using v(2) by (simp add: unat_gt_0)
  moreover have "unat v \<le> 16777216" using v(3) by (simp add: kMaxFrameSize_def word_less_nat_alt not_less)
  ultimately show ?thesis by (auto simp: body_ok_def max_frame_def)
qed

section \<open>Properties\<close>

text \<open>Sample parsers and one registered method.\<close>

definition sample_parsers :: "u8 list parsers" where
  "sample_parsers = \<lparr>parse_frame = (\<lambda>b. Some \<lparr>rq_request_id = 7, rq_service_name = ''raftRpc'',
       rq_method_name = (if length b = 3 then ''RequestVote'' else ''Vote''), rq_payload = b\<rparr>),
     parse_request = (\<lambda>_ _ p. Some p)\<rparr>"

definition sample_services :: service_map where
  "sample_services = NotifyService ''raftRpc'' [''RequestVote''] (\<lambda>_. None)"

lemma wire_encoder: "varint_encoder wv \<Longrightarrow> wire_frame wv = wire"
  by (simp add: varint_encoder_def wire_frame_def fun_eq_iff)

lemma sample_wire: "body_ok [1, 2, 3]" "wire [1, 2, 3] = [3, 1, 2, 3]" "body_ok [9]" "wire [9] = [1, 9]"
  by (simp_all add: body_ok_def max_frame_def wire_frame_def appendVarint32.simps word_le_nat_alt)

lemma sample_parse:
  "parse_frame sample_parsers [1, 2, 3] = Some \<lparr>rq_request_id = 7, rq_service_name = ''raftRpc'',
     rq_method_name = ''RequestVote'', rq_payload = [1, 2, 3]\<rparr>"
  "parse_frame sample_parsers [9] = Some \<lparr>rq_request_id = 7, rq_service_name = ''raftRpc'',
     rq_method_name = ''Vote'', rq_payload = [9]\<rparr>"
  by (simp_all add: sample_parsers_def)

text \<open>C35: The server dispatches the same calls however TCP cuts the stream: when the chunks that arrive
  are together the frames of some requests, each of at most 16 MB, then every request with a
  known service and method and arguments that parse is called exactly once, in the order sent, none
  is called before it is complete, and the buffer is empty at the end.\<close>

theorem server_framing:
  assumes "varint_encoder wv" "concat cs = concat (map (wire_frame wv) bodies)" "stream_ok ps bodies"
  shows "on_chunks ps m [] cs = (calls_of ps m bodies, [])"
proof (rule on_chunks_stream [OF _ assms(3)])
  show "[] @ concat cs = concat (map wire bodies)" using assms(2) by (simp add: wire_encoder [OF assms(1)])
  show "unread [] bodies" using varint_bounds(1) by (cases bodies) (auto simp: unread_def length_wire Suc_le_eq)
qed

theorem server_framing_witness:
  "on_chunks sample_parsers sample_services [] [[3, 1], [2], [3, 1, 9, 3], [1, 2, 3]] =
     ([Call 7 ''raftRpc'' ''RequestVote'' [1, 2, 3], Call 7 ''raftRpc'' ''RequestVote'' [1, 2, 3]], [])"
proof -
  have stream: "concat [[3, 1], [2], [3, 1, 9, 3], [1, 2, 3]] = concat (map wire [[1, 2, 3], [9], [1, 2, 3]])"
    by (simp add: sample_wire)
  have "varint_encoder appendVarint32" "stream_ok sample_parsers [[1, 2, 3], [9], [1, 2, 3]]"
    by (simp_all add: varint_encoder_def stream_ok_def sample_wire sample_parsers_def)
  from server_framing [OF this(1) stream this(2)] show ?thesis
    by (simp add: calls_of_def dispatch_def sample_parsers_def sample_services_def NotifyService_def)
qed

text \<open>A client reads back exactly the frame that was written, with the bytes behind it left on the
  socket, for any split into pieces and, in the client that retries them, any interruptions; whatever
  arrives, a frame it returns has at least one and at most 16 MB of bytes.\<close>

lemma recv_frame_spec:
  assumes "varint_encoder wv"
  shows "(healthy retry evs \<and> bytes_of evs = wire_frame wv body @ rest \<and> body_ok body \<longrightarrow>
      (\<exists>evs'. recv_frame retry evs = Received body evs' \<and> bytes_of evs' = rest \<and> healthy retry evs'))
    \<and> (recv_frame retry evs = Received body' evs'' \<longrightarrow> 0 < length body' \<and> length body' \<le> max_frame)"
proof (intro conjI impI)
  assume "healthy retry evs \<and> bytes_of evs = wire_frame wv body @ rest \<and> body_ok body"
  then show "\<exists>evs'. recv_frame retry evs = Received body evs' \<and> bytes_of evs' = rest \<and> healthy retry evs'"
    using recv_frame_healthy by (simp add: wire_encoder [OF assms])
next
  assume "recv_frame retry evs = Received body' evs''"
  from recv_frame_body [OF this] show "0 < length body'" "length body' \<le> max_frame"
    by (simp_all add: body_ok_def)
qed

text \<open>A frame in two pieces, with an interruption between them and the next frame behind it.\<close>

theorem recv_frame_spec_witness:
  "\<exists>evs'. recv_frame True [Bytes [3, 1], Interrupted, Bytes [2, 3, 1, 9]] = Received [1, 2, 3] evs' \<and> bytes_of evs' = [1, 9]"
proof -
  have "varint_encoder appendVarint32" by (simp add: varint_encoder_def)
  from recv_frame_spec [OF this, of True "[Bytes [3, 1], Interrupted, Bytes [2, 3, 1, 9]]" "[1, 2, 3]" "[1, 9]"]
  show ?thesis by (auto simp: healthy_def sample_wire)
qed

text \<open>C40: \<open>TryReadVarint32\<close> undoes the encoding, which takes one to five bytes, and never reads past the
  buffer: a size it reports took between one and five of the bytes that are there, it asks for
  more only when fewer than five are there, and it rejects the size only when five are there
  and none of them ends it.\<close>

theorem TryReadVarint32_spec:
  "(case TryReadVarint32 data of
      Varint_ok v n \<Rightarrow> 1 \<le> n \<and> n \<le> 5 \<and> n \<le> length data
    | NeedMore \<Rightarrow> length data < 5 \<and> (\<forall>b \<in> set data. \<not> final_byte b)
    | BadFormat \<Rightarrow> 5 \<le> length data \<and> (\<forall>b \<in> set (take 5 data). \<not> final_byte b))
   \<and> TryReadVarint32 (appendVarint32 v @ rest) = Varint_ok v (length (appendVarint32 v))
   \<and> length (appendVarint32 v) \<in> {1..5}"
proof -
  have some: "i < n \<and> n \<le> 5 \<and> n \<le> i + length bs" if "varint_loop i acc bs = Some (w, n)" for i acc bs w n
    using that by (induction bs arbitrary: i acc) (fastforce split: if_splits)+
  have none: "\<forall>b \<in> set (take (5 - i) bs). \<not> final_byte b" if "varint_loop i acc bs = None" for i acc bs
    using that by (induction bs arbitrary: i acc) (auto simp: take_Cons' split: if_splits)
  show ?thesis
  proof (cases "varint_loop 0 0 data")
    case None
    then show ?thesis using none [OF None] TryRead_append varint_bounds by (auto simp: TryReadVarint32_def)
  next
    case (Some r)
    obtain w n where "r = (w, n)" by (cases r)
    then show ?thesis using some [of 0 0 data w n] Some TryRead_append varint_bounds by (simp add: TryReadVarint32_def)
  qed
qed

text \<open>A size of two bytes with another byte behind it, and the same size torn after its first byte.\<close>

theorem TryReadVarint32_spec_witness:
  "TryReadVarint32 [0xAC, 2, 9] = Varint_ok 300 2 \<and> \<not> final_byte 0xAC"
proof -
  have e: "appendVarint32 300 = [0xAC, 2]"
    by (subst appendVarint32.simps, subst appendVarint32.simps) (simp add: word_le_nat_alt)
  have torn: "TryReadVarint32 [0xAC] = NeedMore"
    by (simp add: TryReadVarint32_def final_byte_def)
  show ?thesis
    using TryReadVarint32_spec [of "[0xAC]" 300 "[9]"] by (simp add: e torn)
qed

text \<open>A request nobody can answer is dropped without a word: a complete frame with an unknown
  service, an unknown method or arguments that do not parse is taken out of the buffer, nothing
  is called and nothing is sent, the connection stays up, and reading goes on behind it.\<close>

lemma bad_request_dropped:
  assumes "varint_encoder wv" "body_ok body" "parse_frame ps body = Some f"
    and "m (rq_service_name f) = None
      \<or> (\<exists>ms. m (rq_service_name f) = Some ms \<and> rq_method_name f \<notin> set ms)
      \<or> parse_request ps (rq_service_name f) (rq_method_name f) (rq_payload f) = None"
  shows "OnMessage ps m (wire_frame wv body @ rest) = OnMessage ps m rest"
proof -
  have "dispatch ps m f = []" using assms(4) by (auto simp: dispatch_def split: option.split)
  then show ?thesis
    using OnMessage_frame [OF assms(2,3), of m rest] by (simp add: wire_encoder [OF assms(1)] case_prod_beta)
qed

theorem bad_request_dropped_witness:
  "OnMessage sample_parsers sample_services ([1, 9] @ [3, 1, 2, 3]) = ([Call 7 ''raftRpc'' ''RequestVote'' [1, 2, 3]], [])"
proof -
  have e: "varint_encoder appendVarint32" by (simp add: varint_encoder_def)
  have "OnMessage sample_parsers sample_services (wire [9] @ wire [1, 2, 3] @ []) =
      OnMessage sample_parsers sample_services (wire [1, 2, 3] @ [])"
    by (rule bad_request_dropped [OF e sample_wire(3) sample_parse(2)])
       (simp add: sample_services_def NotifyService_def)
  also have "\<dots> = ([Call 7 ''raftRpc'' ''RequestVote'' [1, 2, 3]], [])"
  proof -
    have "OnMessage sample_parsers sample_services [] = ([], [])"
      by (subst OnMessage.simps) (simp add: TryReadVarint32_def)
    then show ?thesis
      by (subst OnMessage_frame [OF sample_wire(1) sample_parse(1)])
        (simp_all add: dispatch_def sample_parsers_def sample_services_def NotifyService_def)
  qed
  finally show ?thesis by (simp add: sample_wire)
qed

end
