(* ===== verification/Rpc_Channel.thy ===== *)
theory Rpc_Channel
  imports Rpc_Wire "HOL-Library.AList"
begin

text \<open>
  The two client channels. \<open>MrpcchannelMultiReq\<close> (src/rpc/MrpcchannelMultiReq.cc) has many calls in
  flight on one connection: a call is registered, then pending under its request id, then its answer
  is handed to a worker that runs the callback. \<open>Mrpcchannel\<close> (src/rpc/mrpcchannel.cc) waits for
  each answer. A controller is an address; \<open>controllers\<close> is their content and \<open>completions\<close> logs each
  run of a callback with what \<open>!Failed()\<close> is then. The tasks of the three schedulers are queues, and
  a section under a mutex is one step. Serializers and parsers are parameters.
\<close>

section \<open>Controllers\<close>

record controller =
  m_failed :: bool
  m_errText :: string

definition MrpcController :: controller where
  "MrpcController = \<lparr>m_failed = False, m_errText = []\<rparr>"

definition controller_SetFailed :: "string \<Rightarrow> controller \<Rightarrow> controller" where
  "controller_SetFailed reason c = c\<lparr>m_failed := True, m_errText := reason\<rparr>"

section \<open>The channel with many calls in flight\<close>

type_synonym ctl = nat

record 'req multi_channel =
  connected :: bool
  m_rpc_calllifetime :: "(ctl \<times> 'req) list"
  m_pendings :: "(u64 \<times> ctl) list"
  m_nextRequset_id :: u64
  send_tasks :: "(u64 \<times> u8 list) list"
  worker_tasks :: "(ctl \<times> u8 list) list"
  controllers :: "ctl \<Rightarrow> controller"
  completions :: "(ctl \<times> bool) list"

definition SetFailed :: "string \<Rightarrow> ctl \<Rightarrow> 'req multi_channel \<Rightarrow> 'req multi_channel" where
  "SetFailed reason c s = s\<lparr>controllers := (controllers s)(c := controller_SetFailed reason (controllers s c))\<rparr>"

definition run_done :: "ctl \<Rightarrow> 'req multi_channel \<Rightarrow> 'req multi_channel" where
  "run_done c s = s\<lparr>completions := completions s @ [(c, \<not> m_failed (controllers s c))]\<rparr>"

definition registerCall :: "ctl \<Rightarrow> 'req \<Rightarrow> 'req multi_channel \<Rightarrow> 'req multi_channel result" where
  "registerCall c req s =
     (if c \<notin> fst ` set (m_rpc_calllifetime s)
      then Inr (s\<lparr>m_rpc_calllifetime := (c, req) # m_rpc_calllifetime s\<rparr>)
      else Inl (Exit_called (-11)))"

text \<open>The serializers of a call: its arguments, and the request frame around them.\<close>

record 'req serializers =
  ser_request :: "'req \<Rightarrow> u8 list option"
  ser_frame :: "RpcRequestFrame \<Rightarrow> u8 list option"
  ser_size :: "u32 \<Rightarrow> u8 list"

text \<open>\<open>insert\<close> on the map of the pending calls keeps an entry with the same id.\<close>

definition CallMethod ::
  "'req serializers \<Rightarrow> string \<Rightarrow> string \<Rightarrow> ctl \<Rightarrow> 'req multi_channel \<Rightarrow> 'req multi_channel" where
  "CallMethod sz service_name method_name c s =
     (if \<not> connected s then SetFailed ''raft rpc channel not connected'' c s
      else
        let requestId = m_nextRequset_id s;
            s1 = s\<lparr>m_nextRequset_id := m_nextRequset_id s + 1\<rparr> in
        (case map_of (m_rpc_calllifetime s1) c of
           None \<Rightarrow> SetFailed ''controller not found!'' c s1
         | Some req \<Rightarrow>
             let s2 = s1\<lparr>m_pendings := (if requestId \<in> fst ` set (m_pendings s1) then m_pendings s1
                                       else (requestId, c) # m_pendings s1),
                         m_rpc_calllifetime := AList.delete c (m_rpc_calllifetime s1)\<rparr> in
             (case ser_request sz req of
                None \<Rightarrow> SetFailed ''request message serlize to string failed!'' c s2
              | Some payload \<Rightarrow>
                  (case ser_frame sz \<lparr>rq_request_id = requestId, rq_service_name = service_name,
                           rq_method_name = method_name, rq_payload = payload\<rparr> of
                     None \<Rightarrow> SetFailed ''frame serialize to string failed.'' c s2
                   | Some body \<Rightarrow>
                       s2\<lparr>send_tasks := send_tasks s2 @ [(requestId, wire_frame (ser_size sz) body)]\<rparr>))))"

text \<open>
  \<open>sendAll\<close>: what the next calls of \<open>send\<close> return is a list; the result is whether all went out, and
  how much of the data was sent.
\<close>

datatype send_event = Sent nat | Send_interrupted | Send_error

fun sendAll :: "nat \<Rightarrow> nat \<Rightarrow> send_event list \<Rightarrow> (bool \<times> nat) option" where
  "sendAll sent n evs =
     (if sent < n then
        (case evs of
           [] \<Rightarrow> None
         | Sent k # evs' \<Rightarrow> if k > 0 then sendAll (sent + k) n evs' else Some (False, sent)
         | Send_interrupted # evs' \<Rightarrow> sendAll sent n evs'
         | Send_error # _ \<Rightarrow> Some (False, sent))
      else Some (True, sent))"

declare sendAll.simps [simp del]

definition fail_one :: "string \<Rightarrow> u64 \<times> ctl \<Rightarrow> 'req multi_channel \<Rightarrow> 'req multi_channel" where
  "fail_one info p s = run_done (snd p) (SetFailed info (snd p) s)"

definition failAllPending :: "string \<Rightarrow> 'req multi_channel \<Rightarrow> 'req multi_channel" where
  "failAllPending info s = fold (fail_one info) (m_pendings s) (s\<lparr>m_pendings := []\<rparr>)"

definition closeCurrentFd :: "'req multi_channel \<Rightarrow> 'req multi_channel" where
  "closeCurrentFd s = s\<lparr>connected := False\<rparr>"

text \<open>The task of the sender; \<open>None\<close> while \<open>send\<close> blocks.\<close>

definition send_task :: "send_event list \<Rightarrow> 'req multi_channel \<Rightarrow> 'req multi_channel option" where
  "send_task evs s =
     (case send_tasks s of
        [] \<Rightarrow> Some s
      | (requestId, data) # tasks \<Rightarrow>
          (case sendAll 0 (length data) evs of
             None \<Rightarrow> None
           | Some (ok, _) \<Rightarrow>
               let s' = s\<lparr>send_tasks := tasks\<rparr> in
               Some (if ok then s' else failAllPending ''send failed'' (closeCurrentFd s'))))"

definition completeResponse :: "RpcResponseFrame \<Rightarrow> 'req multi_channel \<Rightarrow> 'req multi_channel" where
  "completeResponse frame s =
     (case map_of (m_pendings s) (rs_request_id frame) of
        None \<Rightarrow> s
      | Some c \<Rightarrow> s\<lparr>m_pendings := AList.delete (rs_request_id frame) (m_pendings s),
                    worker_tasks := worker_tasks s @ [(c, rs_payload frame)]\<rparr>)"

text \<open>The task of the worker; \<open>parses\<close> says whether the payload is a message of the call's type.\<close>

definition worker_task :: "(ctl \<Rightarrow> u8 list \<Rightarrow> bool) \<Rightarrow> 'req multi_channel \<Rightarrow> 'req multi_channel" where
  "worker_task parses s =
     (case worker_tasks s of
        [] \<Rightarrow> s
      | (c, payload) # tasks \<Rightarrow>
          let s' = s\<lparr>worker_tasks := tasks\<rparr> in
          run_done c (if parses c payload then s' else SetFailed ''parse RPC response payload failed'' c s'))"

text \<open>Connecting: the first attempt and at most \<open>retry\<close> more, with the results they have.\<close>

fun connect_loop :: "nat \<Rightarrow> bool list \<Rightarrow> bool" where
  "connect_loop retry [] = False"
| "connect_loop retry (ok # oks) =
     (if ok then True else (case retry of 0 \<Rightarrow> False | Suc k \<Rightarrow> connect_loop k oks))"

text \<open>One round of \<open>recvLoop\<close> once it is connected; \<open>None\<close> while \<open>recv\<close> blocks.\<close>

definition lose_connection :: "string \<Rightarrow> 'req multi_channel \<Rightarrow> 'req multi_channel" where
  "lose_connection info s = failAllPending info (closeCurrentFd s)"

definition recv_round ::
  "(u8 list \<Rightarrow> RpcResponseFrame option) \<Rightarrow> sock_event list \<Rightarrow> 'req multi_channel \<Rightarrow>
   ('req multi_channel \<times> sock_event list) option" where
  "recv_round parse evs s =
     (case recvVarint32 True evs of
        Blocked \<Rightarrow> None
      | Recv_failed evs1 \<Rightarrow> Some (lose_connection ''connection closed while reading frame length'' s, evs1)
      | Received frameSize evs1 \<Rightarrow>
          if frameSize = 0 \<or> frameSize > kMaxFrameSize
          then Some (lose_connection ''invalid response frame size'' s, evs1)
          else (case recvExact True (unat frameSize) evs1 of
                  Blocked \<Rightarrow> None
                | Recv_failed evs2 \<Rightarrow> Some (lose_connection ''connection closed while reading frame body'' s, evs2)
                | Received frameBody evs2 \<Rightarrow>
                    (case parse frameBody of
                       None \<Rightarrow> Some (lose_connection ''parse response failed'' s, evs2)
                     | Some frame \<Rightarrow> Some (completeResponse frame s, evs2))))"

definition recvLoop_round ::
  "(u8 list \<Rightarrow> RpcResponseFrame option) \<Rightarrow> nat \<Rightarrow> bool list \<Rightarrow> sock_event list \<Rightarrow> 'req multi_channel \<Rightarrow>
   ('req multi_channel \<times> sock_event list) option" where
  "recvLoop_round parse retry connects evs s =
     (if connected s then recv_round parse evs s
      else if connect_loop retry connects then recv_round parse evs (s\<lparr>connected := True\<rparr>)
      else Some (failAllPending ''connect fail'' s, evs))"

section \<open>The channel that waits\<close>

text \<open>
  \<open>CallMethodImplFrame\<close>: the connection, the counter of the request ids; the result is the channel,
  the reason of the failure if there is one, the response, what was sent, and the rest of the socket.
  The receive timeout is a \<open>Broken\<close> event; \<open>None\<close> is a call that blocks for ever. The socket that
  belongs to a new connection is the argument \<open>evs\<close> then.
\<close>

record sync_channel =
  fd_open :: bool
  m_request_id :: u64

record 'rsp sync_outcome =
  so_channel :: sync_channel
  so_failure :: "string option"
  so_response :: "'rsp option"
  so_sent :: nat
  so_socket :: "sock_event list"

definition sync_fail :: "sync_channel \<Rightarrow> string \<Rightarrow> nat \<Rightarrow> sock_event list \<Rightarrow> 'rsp sync_outcome" where
  "sync_fail ch reason sent evs =
     \<lparr>so_channel = ch, so_failure = Some reason, so_response = None, so_sent = sent, so_socket = evs\<rparr>"

definition sync_receive ::
  "(u8 list \<Rightarrow> RpcResponseFrame option) \<Rightarrow> (u8 list \<Rightarrow> 'rsp option) \<Rightarrow> nat \<Rightarrow> sock_event list \<Rightarrow> sync_channel \<Rightarrow>
   'rsp sync_outcome option" where
  "sync_receive parse parse_payload sent evs ch =
     (case recvVarint32 False evs of
        Blocked \<Rightarrow> None
      | Recv_failed evs1 \<Rightarrow> Some (sync_fail (ch\<lparr>fd_open := False\<rparr>) ''recv response timeout or error'' sent evs1)
      | Received frameSize evs1 \<Rightarrow>
          if frameSize = 0 \<or> frameSize > kMaxFrameSize
          then Some (sync_fail (ch\<lparr>fd_open := False\<rparr>) ''invalid response frame size'' sent evs1)
          else (case recvExact False (unat frameSize) evs1 of
                  Blocked \<Rightarrow> None
                | Recv_failed evs2 \<Rightarrow>
                    Some (sync_fail (ch\<lparr>fd_open := False\<rparr>) ''recv response frame body failed'' sent evs2)
                | Received frameBody evs2 \<Rightarrow>
                    (case parse frameBody of
                       None \<Rightarrow> Some (sync_fail ch ''response frame parse failed'' sent evs2)
                     | Some frame \<Rightarrow>
                         (case parse_payload (rs_payload frame) of
                            None \<Rightarrow> Some (sync_fail ch ''response payload parse failed'' sent evs2)
                          | Some rsp \<Rightarrow> Some \<lparr>so_channel = ch, so_failure = None, so_response = Some rsp,
                                             so_sent = sent, so_socket = evs2\<rparr>))))"

definition CallMethodImplFrame ::
  "'req serializers \<Rightarrow> (u8 list \<Rightarrow> RpcResponseFrame option) \<Rightarrow> (u8 list \<Rightarrow> 'rsp option) \<Rightarrow>
   string \<Rightarrow> string \<Rightarrow> 'req \<Rightarrow> bool \<Rightarrow> send_event list \<Rightarrow> sock_event list \<Rightarrow> sync_channel \<Rightarrow>
   'rsp sync_outcome option" where
  "CallMethodImplFrame sz parse parse_payload service_name method_name req connects sends evs ch =
     (if \<not> fd_open ch \<and> \<not> connects then Some (sync_fail ch ''connect fail'' 0 evs)
      else
        let ch1 = ch\<lparr>fd_open := True\<rparr> in
        (case ser_request sz req of
           None \<Rightarrow> Some (sync_fail ch1 ''serialize request error!'' 0 evs)
         | Some args_str \<Rightarrow>
             let ch2 = ch1\<lparr>m_request_id := m_request_id ch1 + 1\<rparr> in
             (case ser_frame sz \<lparr>rq_request_id = m_request_id ch1, rq_service_name = service_name,
                      rq_method_name = method_name, rq_payload = args_str\<rparr> of
                None \<Rightarrow> Some (sync_fail ch2 ''req message serialize to string failed!'' 0 evs)
              | Some body \<Rightarrow>
                  (case sendAll 0 (length (wire_frame (ser_size sz) body)) sends of
                     None \<Rightarrow> None
                   | Some (ok, sent) \<Rightarrow>
                       if ok then sync_receive parse parse_payload sent evs ch2
                       else Some (sync_fail (ch2\<lparr>fd_open := False\<rparr>) ''send error!'' sent evs)))))"

section \<open>What every step preserves\<close>

lemma fold_fail_one:
  "fold (fail_one info) ps s =
     s\<lparr>controllers := fold (\<lambda>p cs. cs(snd p := controller_SetFailed info (cs (snd p)))) ps (controllers s),
       completions := completions s @ map (\<lambda>p. (snd p, False)) ps\<rparr>"
  by (induction ps arbitrary: s) (simp_all add: fail_one_def run_done_def SetFailed_def controller_SetFailed_def)

lemma failAllPending_eq:
  "failAllPending info s =
     s\<lparr>controllers := fold (\<lambda>p cs. cs(snd p := controller_SetFailed info (cs (snd p)))) (m_pendings s) (controllers s),
       completions := completions s @ map (\<lambda>p. (snd p, False)) (m_pendings s), m_pendings := []\<rparr>"
  by (simp add: failAllPending_def fold_fail_one)

text \<open>
  The places a registered call can be in: registered, pending, handed to the worker, or with its
  callback run. \<open>places\<close> counts how often a controller is in one of them.
\<close>

definition places :: "ctl \<Rightarrow> 'req multi_channel \<Rightarrow> nat" where
  "places c s = count_list (map fst (m_rpc_calllifetime s)) c + count_list (map snd (m_pendings s)) c
     + count_list (map fst (worker_tasks s)) c + count_list (map fst (completions s)) c"

lemma places_SetFailed [simp]: "places c (SetFailed reason d s) = places c s"
  by (simp add: places_def SetFailed_def)

lemma places_run_done [simp]: "places c (run_done d s) = places c s + (if c = d then 1 else 0)"
  by (simp add: places_def run_done_def)

lemma places_failAllPending [simp]: "places c (failAllPending info s) = places c s"
  by (simp add: places_def failAllPending_eq comp_def)

lemma places_lose [simp]: "places c (lose_connection info s) = places c s"
  by (simp add: lose_connection_def closeCurrentFd_def) (simp add: places_def)

lemma count_filter_ne: "count_list (removeAll k xs) c = (if c = k then 0 else count_list xs c)"
  by (induction xs) auto

lemma count_delete_key:
  "count_list (map fst (AList.delete k al)) c = (if c = k then 0 else count_list (map fst al) c)"
  by (simp add: delete_keys count_filter_ne)

lemma in_delete: "x \<in> set (AList.delete k al) \<Longrightarrow> x \<in> set al"
  by (auto simp: AList.delete_eq)

lemma count_delete_value:
  assumes "distinct (map fst al)" "map_of al k = Some v"
  shows "count_list (map snd al) c = count_list (map snd (AList.delete k al)) c + (if c = v then 1 else 0)"
  using assms
proof (induction al)
  case (Cons p al)
  show ?case
  proof (cases "fst p = k")
    case True
    then have "AList.delete k al = al" using Cons.prems(1) by (auto simp: delete_idem map_of_eq_None_iff image_iff)
    then show ?thesis using True Cons.prems by (cases p) auto
  qed (use Cons in \<open>cases p; auto\<close>)
qed simp

lemma count_key: "distinct (map fst al) \<Longrightarrow> map_of al k = Some v \<Longrightarrow> count_list (map fst al) k = 1"
proof (induction al)
  case (Cons p al)
  then show ?case by (cases p) (auto simp: count_list_0_iff)
qed simp

text \<open>The structural invariant, with the number of calls so far.\<close>

definition chan_ok :: "'req multi_channel \<Rightarrow> nat \<Rightarrow> bool" where
  "chan_ok s k \<longleftrightarrow> distinct (map fst (m_rpc_calllifetime s)) \<and> distinct (map fst (m_pendings s))
     \<and> m_nextRequset_id s = word_of_nat k \<and> (\<forall>i \<in> fst ` set (m_pendings s). unat i < k)"

lemma chan_ok_failAll: "chan_ok s k \<Longrightarrow> chan_ok (failAllPending info s) k"
  by (simp add: chan_ok_def failAllPending_eq)

lemma chan_ok_cong:
  "m_rpc_calllifetime s' = m_rpc_calllifetime s \<Longrightarrow> m_pendings s' = m_pendings s \<Longrightarrow>
   m_nextRequset_id s' = m_nextRequset_id s \<Longrightarrow> chan_ok s' k = chan_ok s k"
  by (simp add: chan_ok_def)

lemma completeResponse_ok:
  assumes "chan_ok s k"
  shows "chan_ok (completeResponse f s) k \<and> places c (completeResponse f s) = places c s"
proof (cases "map_of (m_pendings s) (rs_request_id f)")
  case None
  then show ?thesis using assms by (simp add: completeResponse_def)
next
  case (Some d)
  have "distinct (map fst (m_pendings s))" using assms by (simp add: chan_ok_def)
  from count_delete_value [OF this Some, of c] show ?thesis
    using assms Some
    by (auto simp: completeResponse_def chan_ok_def places_def distinct_delete dest!: in_delete)
qed

lemma lose_connection_ok: "chan_ok s k \<Longrightarrow> chan_ok (lose_connection info s) k"
  unfolding lose_connection_def by (rule chan_ok_failAll) (simp add: chan_ok_def closeCurrentFd_def)

lemma recv_round_cases:
  assumes "recv_round parse evs s = Some (s', evs')"
  obtains (answer) f where "s' = completeResponse f s" | (lost) info where "s' = lose_connection info s"
  using assms by (auto simp: recv_round_def split: received.splits if_splits option.splits)

lemma recv_round_ok:
  assumes "recv_round parse evs s = Some (s', evs')" "chan_ok s k"
  shows "chan_ok s' k \<and> places c s' = places c s"
  using assms(1)
proof (cases rule: recv_round_cases)
  case (answer f)
  then show ?thesis using completeResponse_ok [OF assms(2)] by simp
next
  case (lost info)
  then show ?thesis using lose_connection_ok [OF assms(2)] by simp
qed

lemma recvLoop_round_ok:
  assumes "recvLoop_round parse retry connects evs s = Some (s', evs')" "chan_ok s k"
  shows "chan_ok s' k \<and> places c s' = places c s"
proof -
  have "chan_ok (s\<lparr>connected := True\<rparr>) k" using assms(2) by (simp add: chan_ok_def)
  moreover have "places c (s\<lparr>connected := True\<rparr>) = places c s" by (simp add: places_def)
  ultimately show ?thesis
    using assms recv_round_ok [of parse evs s] recv_round_ok [of parse evs "s\<lparr>connected := True\<rparr>"] chan_ok_failAll
    by (fastforce simp: recvLoop_round_def split: if_splits)
qed

lemma send_task_ok:
  assumes "send_task evs s = Some s'" "chan_ok s k"
  shows "chan_ok s' k \<and> places c s' = places c s"
proof (cases "send_tasks s")
  case Nil
  then show ?thesis using assms by (simp add: send_task_def)
next
  case (Cons t tasks)
  let ?s = "s\<lparr>send_tasks := tasks\<rparr>"
  have "chan_ok ?s k" "places c ?s = places c s" using assms(2) by (simp_all add: chan_ok_def places_def)
  then show ?thesis
    using assms(1) Cons lose_connection_ok [of ?s k "''send failed''"] places_lose [of c "''send failed''" ?s]
    by (auto simp: send_task_def lose_connection_def Let_def split: option.splits prod.splits if_splits)
qed

lemma worker_task_ok:
  assumes "chan_ok s k"
  shows "chan_ok (worker_task parses s) k \<and> places c (worker_task parses s) = places c s"
proof (cases "worker_tasks s")
  case Nil
  then show ?thesis using assms by (simp add: worker_task_def)
next
  case (Cons t tasks)
  obtain d payload where t: "t = (d, payload)" by (cases t)
  have "places c s = places c (s\<lparr>worker_tasks := tasks\<rparr>) + (if c = d then 1 else 0)"
    by (simp add: places_def Cons t)
  moreover have "chan_ok (worker_task parses s) k"
    using assms by (cases "parses d payload") (simp_all add: worker_task_def Cons t chan_ok_def run_done_def SetFailed_def)
  ultimately show ?thesis by (cases "parses d payload") (simp_all add: worker_task_def Cons t)
qed

lemma registerCall_ok:
  assumes "registerCall c req s = Inr s'" "chan_ok s k"
  shows "chan_ok s' k \<and> places d s' = places d s + (if d = c then 1 else 0)"
  using assms by (auto simp: registerCall_def chan_ok_def places_def split: if_splits)

lemma CallMethod_ok:
  assumes "chan_ok s k" "connected s \<longrightarrow> k < 2 ^ 64"
  shows "chan_ok (CallMethod sz sv mt c s) (if connected s then k + 1 else k)
    \<and> places d (CallMethod sz sv mt c s) = places d s"
proof (cases "connected s")
  case False
  then show ?thesis using assms(1) by (simp add: CallMethod_def) (simp add: chan_ok_def SetFailed_def)
next
  case conn: True
  let ?id = "m_nextRequset_id s" and ?s1 = "s\<lparr>m_nextRequset_id := m_nextRequset_id s + 1\<rparr>"
  have k: "unat ?id = k" using assms conn by (simp add: chan_ok_def unsigned_of_nat take_bit_nat_eq_self_iff)
  have nxt: "?id + 1 = word_of_nat (k + 1)" using assms(1) by (simp add: chan_ok_def)
  have s1: "chan_ok ?s1 (k + 1)" "places d ?s1 = places d s"
    using assms(1) nxt by (auto simp: chan_ok_def places_def less_Suc_eq)
  show ?thesis
  proof (cases "map_of (m_rpc_calllifetime s) c")
    case None
    then have "CallMethod sz sv mt c s = SetFailed ''controller not found!'' c ?s1"
      using conn by (simp add: CallMethod_def)
    then show ?thesis using s1 conn by (simp add: chan_ok_def SetFailed_def) (simp add: places_def)
  next
    case (Some req)
    have new: "?id \<notin> fst ` set (m_pendings s)" using assms(1) k by (force simp: chan_ok_def)
    let ?s2 = "?s1\<lparr>m_pendings := (?id, c) # m_pendings s, m_rpc_calllifetime := AList.delete c (m_rpc_calllifetime s)\<rparr>"
    have dist: "distinct (map fst (m_rpc_calllifetime s))" using assms(1) by (simp add: chan_ok_def)
    have ok2: "chan_ok ?s2 (k + 1)"
      using s1(1) new k by (auto simp: chan_ok_def distinct_delete)
    have "places d ?s2 = places d s"
      using count_key [OF dist Some] by (cases "d = c") (simp_all add: places_def count_delete_key)
    moreover have "CallMethod sz sv mt c s = s' \<Longrightarrow> chan_ok s' (k + 1) = chan_ok ?s2 (k + 1) \<and> places d s' = places d ?s2" for s'
      using conn Some new
      by (auto simp: CallMethod_def Let_def places_def chan_ok_def SetFailed_def split: option.splits)
    ultimately show ?thesis using ok2 conn by simp
  qed
qed

section \<open>Runs of the channel\<close>

text \<open>
  A channel as its constructor leaves it; a state of a run is the channel, the controllers that were
  registered so far, and the number of requests ids handed out. A controller is registered once:
  it is a new object each time.
\<close>

definition new_channel :: "bool \<Rightarrow> 'req multi_channel" where
  "new_channel conn = \<lparr>connected = conn, m_rpc_calllifetime = [], m_pendings = [], m_nextRequset_id = 0,
     send_tasks = [], worker_tasks = [], controllers = (\<lambda>_. MrpcController), completions = []\<rparr>"

inductive chan_step ::
  "'req multi_channel \<times> ctl set \<times> nat \<Rightarrow> 'req multi_channel \<times> ctl set \<times> nat \<Rightarrow> bool" where
  register: "c \<notin> K \<Longrightarrow> registerCall c req s = Inr s' \<Longrightarrow> chan_step (s, K, k) (s', insert c K, k)"
| call: "chan_step (s, K, k) (CallMethod sz sv mt c s, K, if connected s then k + 1 else k)"
| send: "send_task outs s = Some s' \<Longrightarrow> chan_step (s, K, k) (s', K, k)"
| receive: "recvLoop_round parse retry connects evs s = Some (s', evs') \<Longrightarrow> chan_step (s, K, k) (s', K, k)"
| worker: "chan_step (s, K, k) (worker_task parses s, K, k)"

inductive_cases chan_stepE: "chan_step (s, K, k) (s', K', k')"

lemma chan_step_ok:
  assumes "chan_step (s, K, k) (s', K', k')" "k' \<le> 2 ^ 64" "chan_ok s k"
    "\<forall>c. places c s = (if c \<in> K then 1 else 0)"
  shows "chan_ok s' k' \<and> (\<forall>c. places c s' = (if c \<in> K' then 1 else 0))"
  using assms(1)
proof (cases rule: chan_stepE [consumes 1, case_names register call send receive worker])
  case (register c req)
  then show ?thesis using registerCall_ok [OF register(2) assms(3)] assms(4) by auto
next
  case (call sz sv mt c)
  have "connected s \<longrightarrow> k < 2 ^ 64" using call assms(2) by auto
  from CallMethod_ok [OF assms(3) this] show ?thesis using call assms(4) by auto
next
  case (send outs)
  then show ?thesis using send_task_ok [OF send(1) assms(3)] assms(4) by auto
next
  case (receive parse retry connects evs evs')
  then show ?thesis using recvLoop_round_ok [OF receive(1) assms(3)] assms(4) by auto
next
  case (worker parses)
  then show ?thesis using worker_task_ok [OF assms(3)] assms(4) by simp
qed

lemma chan_step_mono: "chan_step (s, K, k) (s', K', k') \<Longrightarrow> k \<le> k'"
  by (erule chan_stepE) auto

lemma chan_run_ok:
  assumes "chan_step\<^sup>*\<^sup>* (new_channel conn, {}, 0) x" "snd (snd x) \<le> 2 ^ 64"
  shows "chan_ok (fst x) (snd (snd x)) \<and> (\<forall>c. places c (fst x) = (if c \<in> fst (snd x) then 1 else 0))"
  using assms
proof (induction rule: rtranclp_induct)
  case base
  then show ?case by (simp add: new_channel_def chan_ok_def places_def)
next
  case (step y z)
  obtain s K k s' K' k' where yz: "y = (s, K, k)" "z = (s', K', k')" by (cases y, cases z) auto
  have "k \<le> k'" using chan_step_mono step.hyps(2) yz by metis
  then show ?case using step yz chan_step_ok [of s K k s' K' k'] by simp
qed

section \<open>The stub of a raft peer\<close>

text \<open>
  \<open>AppendEntriesAsync\<close>, \<open>RequestVoteAsync\<close> and \<open>InstallSnapshotAsync\<close> of src/raft/RaftRpcUtil.cc
  differ in the method only: outside a scheduler nothing happens; otherwise a new controller is
  registered and the call made. The result says whether the call was posted.
\<close>

definition call_async ::
  "'req serializers \<Rightarrow> bool \<Rightarrow> string \<Rightarrow> ctl \<Rightarrow> 'req \<Rightarrow> 'req multi_channel \<Rightarrow> (bool \<times> 'req multi_channel) result" where
  "call_async sz in_scheduler method_name c req s =
     (if \<not> in_scheduler then Inr (False, s)
      else
        rbind (registerCall c req (s\<lparr>controllers := (controllers s)(c := MrpcController)\<rparr>)) (\<lambda>s1.
        let s2 = CallMethod sz ''raftRpc'' method_name c s1 in
        Inr (\<not> m_failed (controllers s2 c), s2)))"

text \<open>The waiting forms register nothing.\<close>

definition call_sync ::
  "'req serializers \<Rightarrow> string \<Rightarrow> ctl \<Rightarrow> 'req multi_channel \<Rightarrow> bool \<times> 'req multi_channel" where
  "call_sync sz method_name c s =
     (let s1 = s\<lparr>controllers := (controllers s)(c := MrpcController)\<rparr>;
          s2 = CallMethod sz ''raftRpc'' method_name c s1 in
      (\<not> m_failed (controllers s2 c), s2))"

lemma controller_SetFailed_failed [simp]: "m_failed (controllers (SetFailed reason c s) c)"
  by (simp add: SetFailed_def controller_SetFailed_def)

text \<open>A posted call is pending under its id, and its frame is in the queue of the sender.\<close>

lemma call_async_posted:
  assumes "call_async sz True mt c req s = Inr (posted, s')" "chan_ok s k" "k < 2 ^ 64" "connected s"
    "ser_request sz req = Some payload" "ser_frame sz \<lparr>rq_request_id = m_nextRequset_id s,
       rq_service_name = ''raftRpc'', rq_method_name = mt, rq_payload = payload\<rparr> = Some body"
  shows "posted \<and> (m_nextRequset_id s, c) \<in> set (m_pendings s') \<and> c \<notin> fst ` set (m_rpc_calllifetime s')
    \<and> send_tasks s' = send_tasks s @ [(m_nextRequset_id s, wire_frame (ser_size sz) body)]"
proof -
  have "unat (m_nextRequset_id s) = k"
    using assms(2,3) by (simp add: chan_ok_def unsigned_of_nat take_bit_nat_eq_self_iff)
  then have new: "m_nextRequset_id s \<notin> fst ` set (m_pendings s)" using assms(2) by (force simp: chan_ok_def)
  show ?thesis
    using assms(1,4,5,6) new
    by (auto simp: call_async_def registerCall_def CallMethod_def Let_def MrpcController_def AList.delete_eq
        split: if_splits)
qed

text \<open>Without a connection a call is refused, but it stays registered; a waiting call is always refused.\<close>

lemma call_async_refused:
  assumes "call_async sz True mt c req s = Inr (posted, s')" "\<not> connected s"
  shows "\<not> posted \<and> m_rpc_calllifetime s' = (c, req) # m_rpc_calllifetime s \<and> completions s' = completions s"
  using assms
  by (auto simp: call_async_def registerCall_def CallMethod_def SetFailed_def controller_SetFailed_def split: if_splits)

lemma call_sync_refused:
  assumes "c \<notin> fst ` set (m_rpc_calllifetime s)"
  shows "\<not> fst (call_sync sz mt c s) \<and> send_tasks (snd (call_sync sz mt c s)) = send_tasks s"
proof -
  have "map_of (m_rpc_calllifetime s) c = None" using assms by (simp add: map_of_eq_None_iff)
  then show ?thesis
    by (cases "connected s")
      (simp_all add: call_sync_def CallMethod_def Let_def SetFailed_def controller_SetFailed_def)
qed

section \<open>Properties\<close>

text \<open>C34: No call is lost and none is answered twice. In every state the channel can reach, for any
  serializers, parsers, socket behaviour and order of the handlers and the three task queues, and as
  long as the 64-bit request ids do not wrap, each registered call is in exactly one place: still
  registered, pending under one id, handed to the worker, or its callback has run, exactly
  once; and no callback of anything else runs.\<close>

theorem calls_in_one_place:
  assumes "chan_step\<^sup>*\<^sup>* (new_channel conn, {}, 0) (s, K, k)" "k \<le> 2 ^ 64"
  shows "count_list (map fst (m_rpc_calllifetime s)) c + count_list (map snd (m_pendings s)) c
     + count_list (map fst (worker_tasks s)) c + count_list (map fst (completions s)) c
     = (if c \<in> K then 1 else 0)"
  using chan_run_ok [OF assms(1)] assms(2) by (simp add: places_def)

text \<open>A call is registered, made and then lost with its connection.\<close>

definition sample_sz :: "u8 list serializers" where
  "sample_sz = \<lparr>ser_request = Some, ser_frame = (\<lambda>f. Some (rq_payload f)), ser_size = appendVarint32\<rparr>"

theorem calls_in_one_place_witness:
  "\<exists>s :: u8 list multi_channel. chan_step\<^sup>*\<^sup>* (new_channel True, {}, 0) (s, {5}, 1) \<and> completions s = [(5, False)]
     \<and> count_list (map snd (m_pendings s)) 5 = 0"
proof -
  let ?s0 = "new_channel True :: u8 list multi_channel"
  obtain s1 where s1: "registerCall 5 [1] ?s0 = Inr s1" "connected s1" "m_rpc_calllifetime s1 = [(5, [1])]"
    "m_pendings s1 = []" "completions s1 = []" "controllers s1 = (\<lambda>_. MrpcController)"
    by (simp add: registerCall_def new_channel_def)
  define s2 where "s2 = CallMethod sample_sz ''raftRpc'' ''RequestVote'' 5 s1"
  have s2: "connected s2" "m_pendings s2 = [(m_nextRequset_id s1, 5)]" "completions s2 = []"
    using s1 by (simp_all add: s2_def CallMethod_def sample_sz_def Let_def)
  let ?s3 = "lose_connection ''connection closed while reading frame length'' s2"
  have r: "recvLoop_round (\<lambda>_. None) 3 [] [Broken] s2 = Some (?s3, [])"
    using s2(1) by (simp add: recvLoop_round_def recv_round_def recvVarint32_def eval_nat_numeral)
  have "chan_step (?s0, {}, 0) (s1, {5}, 0)" using chan_step.register [OF _ s1(1), of "{}" 0] by simp
  moreover have "chan_step (s1, {5}, 0) (s2, {5}, if connected s1 then 0 + 1 else 0)"
    unfolding s2_def by (rule chan_step.call)
  then have "chan_step (s1, {5}, 0) (s2, {5}, 1)" using s1(2) by simp
  moreover have "chan_step (s2, {5}, 1) (?s3, {5}, 1)" by (rule chan_step.receive [OF r])
  ultimately have run: "chan_step\<^sup>*\<^sup>* (?s0, {}, 0) (?s3, {5}, 1)" by (meson rtranclp.rtrancl_refl rtranclp.rtrancl_into_rtrancl)
  have ran: "completions ?s3 = [(5, False)]"
    using s2 by (simp add: lose_connection_def closeCurrentFd_def failAllPending_eq)
  have "count_list (map snd (m_pendings ?s3)) 5 = 0"
    using calls_in_one_place [OF run, of 5] ran by simp
  then show ?thesis using run ran by blast
qed

text \<open>Each round of the receive loop on an open connection either hands one answer to the call that
  waits for it, and touches no other call, or it closes the connection and fails every pending
  call: the pending map is empty then and the callback of each has run with a failure, in the
  order of the map.\<close>

lemma recv_round_answers_or_fails_all:
  assumes "connected s" "recvLoop_round parse retry connects evs s = Some (s', evs')"
  shows "(\<exists>body f. recv_frame True evs = Received body evs' \<and> parse body = Some f \<and> s' = completeResponse f s)
    \<or> (\<not> connected s' \<and> m_pendings s' = [] \<and> completions s' = completions s @ map (\<lambda>p. (snd p, False)) (m_pendings s)
       \<and> m_rpc_calllifetime s' = m_rpc_calllifetime s)"
proof -
  have lose: "\<not> connected (lose_connection info s) \<and> m_pendings (lose_connection info s) = []
    \<and> completions (lose_connection info s) = completions s @ map (\<lambda>p. (snd p, False)) (m_pendings s)
    \<and> m_rpc_calllifetime (lose_connection info s) = m_rpc_calllifetime s" for info
    by (simp add: lose_connection_def closeCurrentFd_def failAllPending_eq)
  have "recv_round parse evs s = Some (s', evs')" using assms by (simp add: recvLoop_round_def)
  then show ?thesis
    using lose by (auto simp: recv_round_def recv_frame_def split: received.splits if_splits option.splits)
qed

theorem recv_round_answers_or_fails_all_witness:
  "\<exists>s' evs'. recvLoop_round (\<lambda>_. None) 3 [] [Broken] ((new_channel True :: u8 list multi_channel)\<lparr>m_pendings := [(4, 7)]\<rparr>)
      = Some (s', evs') \<and> completions s' = [(7, False)] \<and> \<not> connected s'"
proof -
  let ?s = "(new_channel True :: u8 list multi_channel)\<lparr>m_pendings := [(4, 7)]\<rparr>"
  have c: "connected ?s" "m_pendings ?s = [(4, 7)]" "completions ?s = []" by (simp_all add: new_channel_def)
  have fail: "recv_frame True [Broken] = Recv_failed []"
    by (simp add: recv_frame_def recvVarint32_def eval_nat_numeral)
  obtain s' evs' where run: "recvLoop_round (\<lambda>_. None) 3 [] [Broken] ?s = Some (s', evs')"
    using c(1) by (simp add: recvLoop_round_def recv_round_def recvVarint32_def eval_nat_numeral)
  show ?thesis using recv_round_answers_or_fails_all [OF c(1) run] run c fail by auto
qed

text \<open>The waiting channel never leaves an answer half read. When the connection is still open after a
  call, then either nothing was sent and nothing was read, or the whole request was sent and exactly
  one whole frame was taken off the socket; a call that succeeds leaves it open.\<close>

lemma sync_call_aligned:
  assumes "CallMethodImplFrame sz parse parse_payload sv mt req connects sends evs ch = Some out"
  shows "(fd_open (so_channel out) \<longrightarrow> (so_sent out = 0 \<and> so_socket out = evs)
      \<or> (\<exists>args body b. ser_request sz req = Some args
           \<and> ser_frame sz \<lparr>rq_request_id = m_request_id ch, rq_service_name = sv, rq_method_name = mt, rq_payload = args\<rparr> = Some body
           \<and> sendAll 0 (length (wire_frame (ser_size sz) body)) sends = Some (True, so_sent out)
           \<and> recv_frame False evs = Received b (so_socket out)))
    \<and> (so_failure out = None \<longrightarrow> fd_open (so_channel out) \<and> so_response out \<noteq> None)"
  using assms
  by (auto simp: CallMethodImplFrame_def sync_receive_def sync_fail_def recv_frame_def Let_def
      split: if_splits option.splits prod.splits received.splits)

theorem sync_call_aligned_witness:
  "\<exists>out. CallMethodImplFrame sample_sz (\<lambda>b. Some \<lparr>rs_request_id = 0, rs_payload = b\<rparr>) Some ''raftRpc'' ''RequestVote''
      [1] True [Sent 1, Send_interrupted, Sent 1] [Bytes [1], Bytes [9, 5]] \<lparr>fd_open = False, m_request_id = 0\<rparr> = Some out
    \<and> so_response out = Some [9] \<and> so_failure out = None \<and> fd_open (so_channel out) \<and> so_socket out = [Bytes [5]]"
proof -
  have wire: "wire [1] = [1, 1]" by (simp add: wire_frame_def appendVarint32.simps word_le_nat_alt)
  have fin: "final_byte 1" "add_byte 0 0 1 = 1" by (simp_all add: final_byte_def add_byte_def)
  have frame: "recvVarint32 False [Bytes [1], Bytes [9, 5]] = Received 1 [Bytes [9, 5]]"
    using fin by (simp add: recvVarint32_def eval_nat_numeral)
  have send: "sendAll 0 (Suc (Suc 0)) [Sent 1, Send_interrupted, Sent 1] = Some (True, Suc (Suc 0))"
    by (simp add: sendAll.simps)
  obtain out where out: "CallMethodImplFrame sample_sz (\<lambda>b. Some \<lparr>rs_request_id = 0, rs_payload = b\<rparr>) Some ''raftRpc''
      ''RequestVote'' [1] True [Sent 1, Send_interrupted, Sent 1] [Bytes [1], Bytes [9, 5]] \<lparr>fd_open = False, m_request_id = 0\<rparr> = Some out"
    "so_response out = Some [9]" "so_failure out = None" "so_socket out = [Bytes [5]]"
    using wire send frame
    by (simp add: CallMethodImplFrame_def sample_sz_def sync_receive_def kMaxFrameSize_def word_less_nat_alt)
  then show ?thesis using sync_call_aligned [OF out(1)] by blast
qed

end
