(* ===== verification/Rpc_Async.thy ===== *)
theory Rpc_Async
  imports Rpc_Channel
begin

text \<open>
  The rest of src/rpc/mrpcchannel.cc: connecting, the entry \<open>CallMethod\<close> of the waiting channel and
  its older form \<open>CallMethodImpl1\<close>, and \<open>MrpcAsyncChannel\<close>, which runs one call of a waiting channel in
  a fiber of its own and suspends its caller in \<open>wait\<close>. Pointers are numbers, null is \<open>None\<close>; the calls
  of controllers, closures and the scheduler that an operation makes are its list of effects. The
  atomic members are read and written in the order of the source.
\<close>

section \<open>Connecting\<close>

datatype connect_result = Socket_failed | Connect_failed | Connection

definition newConnect :: "connect_result \<Rightarrow> sync_channel \<Rightarrow> bool \<times> string \<times> sync_channel" where
  "newConnect res ch =
     (case res of
        Socket_failed \<Rightarrow> (False, ''create socket error!'', ch\<lparr>fd_open := False\<rparr>)
      | Connect_failed \<Rightarrow> (False, ''connect fail!'', ch\<lparr>fd_open := False\<rparr>)
      | Connection \<Rightarrow> (True, [], ch\<lparr>fd_open := True\<rparr>))"

text \<open>The loop of the constructor, \<open>while (!rt && retry-- > 0)\<close>; the attempts it leaves are returned.\<close>

fun connect_loop ::
  "bool \<Rightarrow> int \<Rightarrow> connect_result list \<Rightarrow> sync_channel \<Rightarrow> sync_channel \<times> connect_result list" where
  "connect_loop rt retry [] ch = (ch, [])"
| "connect_loop rt retry (res # results) ch =
     (if rt \<or> \<not> retry > 0 then (ch, res # results)
      else (case newConnect res ch of (rt', _, ch') \<Rightarrow> connect_loop rt' (retry - 1) results ch'))"

definition Mrpcchannel :: "bool \<Rightarrow> int \<Rightarrow> connect_result list \<Rightarrow> sync_channel \<times> connect_result list" where
  "Mrpcchannel connectNow retry results =
     (let ch = \<lparr>fd_open = False, m_request_id = 0\<rparr> in
      if \<not> connectNow then (ch, results)
      else (case results of
              [] \<Rightarrow> (ch, [])
            | res # results' \<Rightarrow>
                (case newConnect res ch of (rt, _, ch') \<Rightarrow> connect_loop rt retry results' ch')))"

definition delete_Mrpcchannel :: "sync_channel \<Rightarrow> sync_channel" where
  "delete_Mrpcchannel ch = (if fd_open ch then ch\<lparr>fd_open := False\<rparr> else ch)"

section \<open>The waiting call\<close>

text \<open>\<open>Mrpcchannel::CallMethod\<close>: the call, and then the closure if there is one.\<close>

definition sync_CallMethod ::
  "'req serializers \<Rightarrow> (u8 list \<Rightarrow> RpcResponseFrame option) \<Rightarrow> (u8 list \<Rightarrow> 'rsp option) \<Rightarrow>
   string \<Rightarrow> string \<Rightarrow> 'req \<Rightarrow> nat option \<Rightarrow> bool \<Rightarrow> send_event list \<Rightarrow> sock_event list \<Rightarrow> sync_channel \<Rightarrow>
   ('rsp sync_outcome \<times> nat list) option" where
  "sync_CallMethod sz parse parse_payload sv mt req closure connects sends evs ch =
     (case CallMethodImplFrame sz parse parse_payload sv mt req connects sends evs ch of
        None \<Rightarrow> None
      | Some out \<Rightarrow> Some (out, case closure of None \<Rightarrow> [] | Some d \<Rightarrow> [d]))"

text \<open>
  \<open>CallMethodImpl1\<close> speaks the format before frames: the size of a header, the header and the
  arguments. One \<open>send\<close> counts as all of it, and one \<open>recv\<close> into 1024 bytes as the whole answer. A
  \<open>recv\<close> that fails is \<open>None\<close>; the end of the connection is the empty list of bytes.
\<close>

record RpcHeader =
  h_service_name :: string
  h_method_name :: string
  h_args_size :: u32

fun impl1_send :: "send_event list \<Rightarrow> connect_result list \<Rightarrow> sync_channel \<Rightarrow> (string option \<times> sync_channel) option" where
  "impl1_send [] conns ch = None"
| "impl1_send (Sent k # sends) conns ch = Some (None, ch)"
| "impl1_send (_ # sends) conns ch =
     (case conns of
        [] \<Rightarrow> None
      | res # conns' \<Rightarrow>
          (case newConnect res (ch\<lparr>fd_open := False\<rparr>) of
             (rt, errMsg, ch') \<Rightarrow>
               if \<not> rt then Some (Some errMsg, ch') else impl1_send sends conns' ch'))"

definition CallMethodImpl1 ::
  "('req \<Rightarrow> u8 list option) \<Rightarrow> (RpcHeader \<Rightarrow> u8 list option) \<Rightarrow> (u32 \<Rightarrow> u8 list) \<Rightarrow> (u8 list \<Rightarrow> 'rsp option) \<Rightarrow>
   string \<Rightarrow> string \<Rightarrow> 'req \<Rightarrow> connect_result \<Rightarrow> send_event list \<Rightarrow> connect_result list \<Rightarrow> u8 list option \<Rightarrow>
   sync_channel \<Rightarrow> (u8 list \<times> string option \<times> 'rsp option \<times> sync_channel) option" where
  "CallMethodImpl1 ser_args ser_header write_varint parse_rsp sv mt req connect sends conns recv ch =
     (case (if fd_open ch then (True, [], ch) else newConnect connect ch) of
        (rt, errMsg, ch1) \<Rightarrow>
          if \<not> rt then Some ([], Some errMsg, None, ch1)
          else
            (case ser_args req of
               None \<Rightarrow> Some ([], Some ''serialize request error!'', None, ch1)
             | Some args_str \<Rightarrow>
                 (case ser_header \<lparr>h_service_name = sv, h_method_name = mt,
                                   h_args_size = word_of_nat (length args_str)\<rparr> of
                    None \<Rightarrow> Some ([], Some ''Serialize rpc header errpr!'', None, ch1)
                  | Some header_str \<Rightarrow>
                      let send_rpc_str = write_varint (word_of_nat (length header_str)) @ header_str @ args_str in
                      (case impl1_send sends conns ch1 of
                         None \<Rightarrow> None
                       | Some (Some err, ch2) \<Rightarrow> Some ([], Some err, None, ch2)
                       | Some (None, ch2) \<Rightarrow>
                           (case recv of
                              None \<Rightarrow> Some (send_rpc_str, Some ''recv error!'', None, ch2\<lparr>fd_open := False\<rparr>)
                            | Some bytes \<Rightarrow>
                                (case parse_rsp (take 1024 bytes) of
                                   None \<Rightarrow> Some (send_rpc_str, Some ''parse error!'', None, ch2)
                                 | Some rsp \<Rightarrow> Some (send_rpc_str, None, Some rsp, ch2)))))))"

text \<open>A channel is connected after its constructor exactly when one of the attempts it made was accepted.\<close>

lemma connect_loop_tries:
  "\<not> fd_open ch \<or> rt \<Longrightarrow> fd_open ch = rt \<Longrightarrow>
   fd_open (fst (connect_loop rt retry results ch)) = (rt \<or> Connection \<in> set (take (nat retry) results))"
proof (induction rt retry results ch rule: connect_loop.induct)
  case (2 rt retry res results ch)
  show ?case
  proof (cases "rt \<or> \<not> retry > 0")
    case False
    then have "nat retry = Suc (nat (retry - 1))" by linarith
    with False 2 show ?thesis by (cases res) (auto simp: newConnect_def)
  qed (use 2 in auto)
qed simp

lemma Mrpcchannel_connects:
  "fd_open (fst (Mrpcchannel True retry results)) = (Connection \<in> set (take (Suc (nat retry)) results))"
proof (cases results)
  case (Cons res rest)
  then show ?thesis
    using connect_loop_tries [of "\<lparr>fd_open = res = Connection, m_request_id = 0\<rparr>" "res = Connection" retry rest]
    by (cases res) (auto simp: Mrpcchannel_def newConnect_def)
qed (simp add: Mrpcchannel_def)

text \<open>The older form reads one piece of at most 1024 bytes: a longer answer is parsed from its beginning.\<close>

lemma CallMethodImpl1_cuts_answer:
  assumes "CallMethodImpl1 ser_args ser_header wv parse sv mt req con sends conns (Some bytes) ch
      = Some (sent, None, Some rsp, ch')"
  shows "parse (take 1024 bytes) = Some rsp"
  using assms
  by (auto simp: CallMethodImpl1_def Let_def split: prod.splits if_splits option.splits)

lemma sync_CallMethod_can_return:
  "\<exists>connects sends evs out closures.
     sync_CallMethod sz parse parse_payload sv mt req closure connects sends evs ch = Some (out, closures)"
proof -
  have "recvVarint32 False [Broken] = Recv_failed []"
    by (simp add: recvVarint32_def eval_nat_numeral)
  then have "\<exists>out. CallMethodImplFrame sz parse parse_payload sv mt req True [Send_error] [Broken] ch = Some out"
    by (auto simp: CallMethodImplFrame_def sync_receive_def sendAll.simps Let_def split: option.split)
  then obtain out where
    "CallMethodImplFrame sz parse parse_payload sv mt req True [Send_error] [Broken] ch = Some out" by blast
  then have "sync_CallMethod sz parse parse_payload sv mt req closure True [Send_error] [Broken] ch
      = Some (out, case closure of None \<Rightarrow> [] | Some d \<Rightarrow> [d])"
    by (simp add: sync_CallMethod_def)
  then show ?thesis by blast
qed

section \<open>The asynchronous channel\<close>

record async_channel =
  m_controller :: "nat option"
  m_request :: "nat option"
  m_response :: "nat option"
  m_done :: "nat option"
  m_scheduler :: "nat option"
  m_callerFiber :: "nat option"
  m_callerThread :: int
  m_prepared :: bool
  m_started :: bool
  m_waiting :: bool
  m_finished :: bool

definition MrpcAsyncChannel :: async_channel where
  "MrpcAsyncChannel = \<lparr>m_controller = None, m_request = None, m_response = None, m_done = None,
     m_scheduler = None, m_callerFiber = None, m_callerThread = -1,
     m_prepared = False, m_started = False, m_waiting = False, m_finished = False\<rparr>"

datatype async_effect =
    Failed nat string
  | Ran nat
  | Post_call string
  | Post_completion int
  | Resume_fiber nat int

definition set_failed :: "nat option \<Rightarrow> string \<Rightarrow> async_effect list" where
  "set_failed target reason = (case target of None \<Rightarrow> [] | Some c \<Rightarrow> [Failed c reason])"

definition run_closure :: "nat option \<Rightarrow> async_effect list" where
  "run_closure closure = (case closure of None \<Rightarrow> [] | Some d \<Rightarrow> [Ran d])"

definition saveCallee ::
  "nat option \<Rightarrow> nat option \<Rightarrow> nat option \<Rightarrow> nat option \<Rightarrow> async_channel \<Rightarrow> async_channel \<times> async_effect list" where
  "saveCallee c req rsp closure ch =
     (if m_started ch
      then (ch, set_failed c ''cannot replace async RPC arguments after CallMethod()'')
      else (ch\<lparr>m_controller := c, m_request := req, m_response := rsp, m_done := closure,
               m_prepared := c \<noteq> None \<and> req \<noteq> None \<and> rsp \<noteq> None\<rparr>, []))"

definition fail_async :: "string \<Rightarrow> nat option \<Rightarrow> async_channel \<Rightarrow> async_channel \<times> async_effect list" where
  "fail_async reason fallback ch =
     (ch\<lparr>m_finished := True\<rparr>,
      set_failed (if m_controller ch \<noteq> None then m_controller ch else fallback) reason
        @ run_closure (m_done ch))"

text \<open>
  Where \<open>CallMethod\<close> is called: the scheduler of the thread, whether there is an \<open>IOManager\<close>, the
  fiber and the thread, and whether a shared pointer owns the channel.
\<close>

record fiber_env =
  env_scheduler :: "nat option"
  env_iomanager :: bool
  env_fiber :: nat
  env_thread :: int
  env_shared :: bool

definition async_CallMethod ::
  "fiber_env \<Rightarrow> string \<Rightarrow> nat option \<Rightarrow> nat option \<Rightarrow> nat option \<Rightarrow> nat option \<Rightarrow> async_channel \<Rightarrow>
   async_channel \<times> async_effect list" where
  "async_CallMethod env mt c req rsp closure ch =
     (if \<not> m_prepared ch
      then fail_async ''saveCallee() must be called before async CallMethod()'' c ch
      else if c \<noteq> m_controller ch \<or> req \<noteq> m_request ch \<or> rsp \<noteq> m_response ch
              \<or> (closure \<noteq> None \<and> closure \<noteq> m_done ch)
      then fail_async ''CallMethod() arguments must match the objects saved by saveCallee()'' c ch
      else if m_started ch
      then (ch, set_failed c ''MrpcAsyncChannel supports only one in-flight RPC call'')
      else
        let ch1 = ch\<lparr>m_started := True, m_scheduler := env_scheduler env\<rparr> in
        if env_scheduler env = None \<or> \<not> env_iomanager env
        then fail_async ''async CallMethod() must run inside an IOManager Fiber'' c ch1
        else
          let ch2 = ch1\<lparr>m_callerFiber := Some (env_fiber env), m_callerThread := env_thread env\<rparr> in
          if \<not> env_shared env
          then fail_async ''MrpcAsyncChannel must be owned by std::shared_ptr'' c ch2
          else (ch2, [Post_call mt]))"

text \<open>\<open>wait\<close> up to its loop: the value says whether the loop is entered.\<close>

definition async_wait :: "nat option \<Rightarrow> nat \<Rightarrow> async_channel \<Rightarrow> async_channel \<times> async_effect list \<times> bool" where
  "async_wait sched fiber ch =
     (if \<not> m_started ch
      then (ch, set_failed (m_controller ch) ''wait() called before CallMethod()'', False)
      else if m_finished ch then (ch, [], False)
      else if sched \<noteq> m_scheduler ch \<or> Some fiber \<noteq> m_callerFiber ch
      then (ch, set_failed (m_controller ch) ''wait() must be called by the Fiber that called CallMethod()'', False)
      else (ch\<lparr>m_waiting := True\<rparr>, [], True))"

definition finished :: "async_channel \<Rightarrow> bool" where
  "finished ch = m_finished ch"

definition postCompletion :: "async_channel \<Rightarrow> async_effect list" where
  "postCompletion ch = [Post_completion (m_callerThread ch)]"

text \<open>The task of \<open>postCompletion\<close>, in two steps: the closure and the mark, then the waiting fiber.\<close>

definition complete_first :: "async_channel \<Rightarrow> async_channel \<times> async_effect list" where
  "complete_first ch = (ch\<lparr>m_finished := True\<rparr>, run_closure (m_done ch))"

definition complete_second :: "async_channel \<Rightarrow> async_effect list" where
  "complete_second ch =
     (if m_waiting ch then (case m_callerFiber ch of None \<Rightarrow> [] | Some f \<Rightarrow> [Resume_fiber f (m_callerThread ch)])
      else [])"

section \<open>Runs of an asynchronous channel\<close>

text \<open>
  One channel with the tasks it has handed to the scheduler: posted calls, posted completions,
  completions between their two steps, and resumptions of the caller's fiber. \<open>failed_call\<close> notes that
  some \<open>CallMethod\<close> went through \<open>fail\<close>; no step reads it, nor \<open>closures_run\<close> and \<open>outcome\<close>.
\<close>

datatype wait_state = Outside | Checking | Yielded | Returned

record 'rsp async_run =
  chan :: async_channel
  transport :: sync_channel
  call_tasks :: nat
  completion_tasks :: nat
  woken :: nat
  resumes :: nat
  waiter :: wait_state
  closures_run :: "nat list"
  outcome :: "'rsp sync_outcome option"
  failed_call :: bool

definition call_fails ::
  "fiber_env \<Rightarrow> nat option \<Rightarrow> nat option \<Rightarrow> nat option \<Rightarrow> nat option \<Rightarrow> async_channel \<Rightarrow> bool" where
  "call_fails env c req rsp closure ch \<longleftrightarrow> \<not> m_prepared ch
     \<or> c \<noteq> m_controller ch \<or> req \<noteq> m_request ch \<or> rsp \<noteq> m_response ch
     \<or> (closure \<noteq> None \<and> closure \<noteq> m_done ch)
     \<or> (\<not> m_started ch \<and> (env_scheduler env = None \<or> \<not> env_iomanager env \<or> \<not> env_shared env))"

definition ran :: "async_effect list \<Rightarrow> nat list" where
  "ran es = concat (map (\<lambda>e. case e of Ran d \<Rightarrow> [d] | _ \<Rightarrow> []) es)"

definition posted :: "async_effect list \<Rightarrow> nat" where
  "posted es = length (filter (\<lambda>e. case e of Post_call _ \<Rightarrow> True | _ \<Rightarrow> False) es)"

text \<open>The steps of the scheduler: each ends what another step has started.\<close>

inductive async_task ::
  "'req serializers \<Rightarrow> (u8 list \<Rightarrow> RpcResponseFrame option) \<Rightarrow> (u8 list \<Rightarrow> 'rsp option) \<Rightarrow> (nat \<Rightarrow> 'req) \<Rightarrow>
   'rsp async_run \<Rightarrow> 'rsp async_run \<Rightarrow> bool"
  for sz parse parse_payload messages where
  run_call: "call_tasks S > 0 \<Longrightarrow> m_request (chan S) = Some q \<Longrightarrow>
    sync_CallMethod sz parse parse_payload sv mt (messages q) None connects sends evs (transport S)
      = Some (out, closures) \<Longrightarrow>
    async_task sz parse parse_payload messages S (S\<lparr>call_tasks := call_tasks S - 1, transport := so_channel out,
      outcome := Some out, completion_tasks := completion_tasks S + length (postCompletion (chan S))\<rparr>)"
| complete_one: "completion_tasks S > 0 \<Longrightarrow> complete_first (chan S) = (ch', es) \<Longrightarrow>
    async_task sz parse parse_payload messages S (S\<lparr>completion_tasks := completion_tasks S - 1, chan := ch',
      closures_run := closures_run S @ ran es, woken := woken S + 1\<rparr>)"
| complete_two: "woken S > 0 \<Longrightarrow>
    async_task sz parse parse_payload messages S (S\<lparr>woken := woken S - 1,
      resumes := resumes S + length (complete_second (chan S))\<rparr>)"
| check: "waiter S = Checking \<Longrightarrow>
    async_task sz parse parse_payload messages S (S\<lparr>waiter := (if finished (chan S) then Returned else Yielded)\<rparr>)"
| resume: "waiter S = Yielded \<Longrightarrow> resumes S > 0 \<Longrightarrow>
    async_task sz parse parse_payload messages S (S\<lparr>resumes := resumes S - 1, waiter := Checking\<rparr>)"

text \<open>All steps: the operations, from any fiber and with any arguments, and other users of the
  connection besides.\<close>

inductive async_step ::
  "'req serializers \<Rightarrow> (u8 list \<Rightarrow> RpcResponseFrame option) \<Rightarrow> (u8 list \<Rightarrow> 'rsp option) \<Rightarrow> (nat \<Rightarrow> 'req) \<Rightarrow>
   'rsp async_run \<Rightarrow> 'rsp async_run \<Rightarrow> bool"
  for sz parse parse_payload messages where
  save: "saveCallee c req rsp closure (chan S) = (ch', es) \<Longrightarrow>
    async_step sz parse parse_payload messages S (S\<lparr>chan := ch'\<rparr>)"
| call: "async_CallMethod env mt c req rsp closure (chan S) = (ch', es) \<Longrightarrow>
    async_step sz parse parse_payload messages S (S\<lparr>chan := ch', call_tasks := call_tasks S + posted es,
      closures_run := closures_run S @ ran es,
      failed_call := (failed_call S \<or> call_fails env c req rsp closure (chan S))\<rparr>)"
| wait: "async_wait sched fiber (chan S) = (ch', es, loops) \<Longrightarrow>
    loops \<longrightarrow> waiter S = Outside \<or> waiter S = Returned \<Longrightarrow>
    async_step sz parse parse_payload messages S
      (S\<lparr>chan := ch', waiter := (if loops then Checking else waiter S)\<rparr>)"
| other: "async_step sz parse parse_payload messages S (S\<lparr>transport := t\<rparr>)"
| task: "async_task sz parse parse_payload messages S S' \<Longrightarrow> async_step sz parse parse_payload messages S S'"

definition new_run :: "sync_channel \<Rightarrow> 'rsp async_run" where
  "new_run t = \<lparr>chan = MrpcAsyncChannel, transport = t, call_tasks = 0, completion_tasks = 0, woken = 0,
     resumes = 0, waiter = Outside, closures_run = [], outcome = None, failed_call = False\<rparr>"

section \<open>The invariant\<close>

definition pending_work :: "'rsp async_run \<Rightarrow> nat" where
  "pending_work S = call_tasks S + completion_tasks S + woken S + resumes S"

definition saved_ok :: "async_channel \<Rightarrow> bool" where
  "saved_ok ch \<longleftrightarrow> (m_prepared ch \<longrightarrow> m_request ch \<noteq> None) \<and> (m_started ch \<longrightarrow> m_request ch \<noteq> None)"

definition work_ok :: "'rsp async_run \<Rightarrow> bool" where
  "work_ok S \<longleftrightarrow> pending_work S \<le> 1
     \<and> (m_started (chan S) \<and> \<not> m_finished (chan S) \<longrightarrow> call_tasks S + completion_tasks S = 1)
     \<and> (pending_work S > 0 \<or> waiter S = Checking \<or> waiter S = Yielded \<longrightarrow>
          m_started (chan S) \<and> m_callerFiber (chan S) \<noteq> None)
     \<and> (waiter S = Checking \<or> waiter S = Yielded \<longrightarrow> m_waiting (chan S))
     \<and> (woken S > 0 \<longrightarrow> m_finished (chan S))
     \<and> (waiter S = Yielded \<longrightarrow> pending_work S = 1)
     \<and> (waiter S = Returned \<longrightarrow> m_finished (chan S))"

definition done_ok :: "'rsp async_run \<Rightarrow> bool" where
  "done_ok S \<longleftrightarrow> (\<not> failed_call S \<longrightarrow>
     closures_run S = (if m_finished (chan S) then ran (run_closure (m_done (chan S))) else [])
     \<and> (m_finished (chan S) \<longrightarrow> m_started (chan S) \<and> outcome S \<noteq> None \<and> call_tasks S + completion_tasks S = 0)
     \<and> (completion_tasks S > 0 \<longrightarrow> outcome S \<noteq> None))"

definition async_ok :: "'rsp async_run \<Rightarrow> bool" where
  "async_ok S \<longleftrightarrow> saved_ok (chan S) \<and> work_ok S \<and> done_ok S"

lemmas async_defs = async_ok_def saved_ok_def work_ok_def done_ok_def pending_work_def

lemma ran_simps [simp]:
  "ran [] = []" "ran (Ran d # es) = d # ran es" "ran (Failed c t # es) = ran es"
  "ran (Post_call t # es) = ran es"
  by (simp_all add: ran_def)

lemma ran_set_failed [simp]: "ran (set_failed x t) = []"
  by (cases x) (simp_all add: set_failed_def)

lemma ran_append [simp]: "ran (xs @ ys) = ran xs @ ran ys"
  by (simp add: ran_def)

lemma posted_simps [simp]: "posted [] = 0" "posted [Post_call t] = 1"
  by (simp_all add: posted_def)

lemma posted_quiet [simp]: "posted (set_failed x t) = 0" "posted (run_closure d) = 0"
  by (cases x, simp_all add: posted_def set_failed_def) (cases d, simp_all add: run_closure_def)

lemma posted_append [simp]: "posted (xs @ ys) = posted xs + posted ys"
  by (simp add: posted_def)

text \<open>There is one piece of work at a time.\<close>

lemma one_piece:
  assumes "work_ok S"
  shows "call_tasks S > 0 \<Longrightarrow> call_tasks S = 1 \<and> completion_tasks S = 0 \<and> woken S = 0 \<and> resumes S = 0"
    "completion_tasks S > 0 \<Longrightarrow> completion_tasks S = 1 \<and> call_tasks S = 0 \<and> woken S = 0 \<and> resumes S = 0"
    "woken S > 0 \<Longrightarrow> woken S = 1 \<and> call_tasks S = 0 \<and> completion_tasks S = 0 \<and> resumes S = 0"
    "resumes S > 0 \<Longrightarrow> resumes S = 1 \<and> call_tasks S = 0 \<and> completion_tasks S = 0 \<and> woken S = 0"
  using assms by (auto simp: work_ok_def pending_work_def)

lemma async_task_ok:
  assumes "async_task sz parse parse_payload messages S S'" "async_ok S"
  shows "async_ok S'"
proof -
  have saved: "saved_ok (chan S)" and work: "work_ok S" and once: "done_ok S"
    using assms(2) by (auto simp: async_ok_def)
  note one = one_piece [OF work]
  from assms(1) show ?thesis
  proof (cases rule: async_task.cases)
    case (run_call q sv mt connects sends evs out closures)
    have "work_ok S'" using work one(1) [OF run_call(2)]
      by (simp add: run_call(1) work_ok_def pending_work_def postCompletion_def)
    moreover have "done_ok S'" using once one(1) [OF run_call(2)]
      by (auto simp: run_call(1) done_ok_def postCompletion_def)
    ultimately show ?thesis using saved by (simp add: async_ok_def run_call(1))
  next
    case (complete_one ch' es)
    have "work_ok S'" using work one(2) [OF complete_one(2)] complete_one(3)
      by (auto simp: complete_one(1) work_ok_def pending_work_def complete_first_def)
    moreover have "done_ok S'" using once work one(2) [OF complete_one(2)] complete_one(3)
      by (auto simp: complete_one(1) done_ok_def work_ok_def pending_work_def complete_first_def)
    moreover have "saved_ok ch'" using saved complete_one(3) by (auto simp: complete_first_def saved_ok_def)
    ultimately show ?thesis by (simp add: async_ok_def complete_one(1))
  next
    case complete_two
    have "length (complete_second (chan S)) \<le> 1" by (simp add: complete_second_def split: option.split)
    moreover have "waiter S = Yielded \<longrightarrow> length (complete_second (chan S)) = 1"
      using work by (auto simp: complete_second_def work_ok_def)
    ultimately have "work_ok S'" using work one(3) [OF complete_two(2)]
      by (auto simp: complete_two(1) work_ok_def pending_work_def)
    then show ?thesis using saved once by (simp add: async_ok_def complete_two(1) done_ok_def)
  next
    case check
    have "work_ok S'" using work check(2) by (auto simp: check(1) work_ok_def pending_work_def finished_def)
    then show ?thesis using saved once by (simp add: async_ok_def check(1) done_ok_def)
  next
    case resume
    have "work_ok S'" using work one(4) [OF resume(3)] resume(2)
      by (auto simp: resume(1) work_ok_def pending_work_def)
    then show ?thesis using saved once by (simp add: async_ok_def resume(1) done_ok_def)
  qed
qed

text \<open>What an accepted call changes, and what any other call does.\<close>

lemma async_CallMethod_cases:
  assumes "async_CallMethod env mt c req rsp closure ch = (ch', es)"
  obtains
    (accepted) "\<not> m_started ch" "m_prepared ch" "\<not> call_fails env c req rsp closure ch" "es = [Post_call mt]"
      "ch' = ch\<lparr>m_started := True, m_scheduler := env_scheduler env, m_callerFiber := Some (env_fiber env),
                m_callerThread := env_thread env\<rparr>"
  | (busy) "m_started ch" "\<not> call_fails env c req rsp closure ch" "ch' = ch" "ran es = []" "posted es = 0"
  | (failed) "call_fails env c req rsp closure ch" "posted es = 0" "m_finished ch'"
      "m_prepared ch' = m_prepared ch" "m_request ch' = m_request ch" "m_waiting ch' = m_waiting ch"
      "m_started ch' \<longrightarrow> m_prepared ch \<or> m_started ch" "m_started ch \<longrightarrow> m_started ch'"
      "m_started ch \<longrightarrow> m_callerFiber ch' = m_callerFiber ch"
proof (cases "call_fails env c req rsp closure ch")
  case True
  then show ?thesis
    using assms by (intro failed) (auto simp: async_CallMethod_def call_fails_def fail_async_def Let_def split: if_splits)
next
  case False
  then show ?thesis
  proof (cases "m_started ch")
    case True
    with False assms show ?thesis by (intro busy) (auto simp: async_CallMethod_def call_fails_def split: if_splits)
  next
    case new: False
    with False assms show ?thesis
      by (intro accepted) (auto simp: async_CallMethod_def call_fails_def Let_def split: if_splits)
  qed
qed

lemma async_call_ok:
  assumes "async_CallMethod env mt c req rsp closure (chan S) = (ch', es)" "async_ok S"
  shows "async_ok (S\<lparr>chan := ch', call_tasks := call_tasks S + posted es, closures_run := closures_run S @ ran es,
      failed_call := (failed_call S \<or> call_fails env c req rsp closure (chan S))\<rparr>)" (is "async_ok ?S")
proof -
  have saved: "saved_ok (chan S)" and work: "work_ok S" and once: "done_ok S"
    using assms(2) by (auto simp: async_ok_def)
  from assms(1) show ?thesis
  proof (cases rule: async_CallMethod_cases)
    case accepted
    have idle: "pending_work S = 0" "waiter S \<noteq> Checking" "waiter S \<noteq> Yielded"
      using accepted(1) work by (auto simp: work_ok_def)
    then have "work_ok ?S" using work accepted by (simp add: work_ok_def pending_work_def)
    moreover have "saved_ok ch'" using saved accepted by (simp add: saved_ok_def)
    moreover have "done_ok ?S" using once accepted by (auto simp: done_ok_def)
    ultimately show ?thesis by (simp add: async_ok_def)
  next
    case busy
    then show ?thesis using saved work once by (simp add: async_ok_def work_ok_def pending_work_def done_ok_def)
  next
    case failed
    have "saved_ok ch'" using saved failed by (auto simp: saved_ok_def)
    moreover have "work_ok ?S"
      using work failed by (auto simp: work_ok_def pending_work_def)
    moreover have "done_ok ?S" using failed(1) by (simp add: done_ok_def)
    ultimately show ?thesis by (simp add: async_ok_def)
  qed
qed

lemma async_step_ok:
  assumes "async_step sz parse parse_payload messages S S'" "async_ok S"
  shows "async_ok S'"
proof -
  have saved: "saved_ok (chan S)" and work: "work_ok S" and once: "done_ok S"
    using assms(2) by (auto simp: async_ok_def)
  from assms(1) show ?thesis
  proof (cases rule: async_step.cases)
    case (save c req rsp closure ch' es)
    show ?thesis
    proof (cases "m_started (chan S)")
      case True
      then have "S' = S" using save by (cases S) (auto simp: saveCallee_def)
      then show ?thesis using assms(2) by simp
    next
      case False
      have "saved_ok ch'" using save(2) False by (auto simp: saveCallee_def saved_ok_def)
      moreover have "work_ok S'" using save False work
        by (auto simp: saveCallee_def work_ok_def pending_work_def)
      moreover have "done_ok S'" using save False once by (auto simp: saveCallee_def done_ok_def)
      ultimately show ?thesis by (simp add: async_ok_def save(1))
    qed
  next
    case (call env mt c req rsp closure ch' es)
    then show ?thesis using async_call_ok assms(2) by blast
  next
    case (wait sched fiber ch' es loops)
    show ?thesis
    proof (cases loops)
      case True
      have "ch' = (chan S)\<lparr>m_waiting := True\<rparr>" "m_started (chan S)" "m_callerFiber (chan S) \<noteq> None"
        using wait(2) True by (auto simp: async_wait_def split: if_splits) (metis option.distinct(1))
      then show ?thesis using True saved work once
        by (simp add: wait(1) async_ok_def saved_ok_def work_ok_def done_ok_def pending_work_def)
    next
      case False
      then have "ch' = chan S" using wait(2) by (auto simp: async_wait_def split: if_splits)
      then show ?thesis using False assms(2) by (simp add: wait(1))
    qed
  next
    case (other t)
    then show ?thesis using saved work once by (simp add: async_ok_def work_ok_def done_ok_def pending_work_def)
  next
    case task
    then show ?thesis using async_task_ok assms(2) by blast
  qed
qed

lemma async_reach_ok:
  assumes "(async_step sz parse parse_payload messages)\<^sup>*\<^sup>* (new_run t) S"
  shows "async_ok S"
proof -
  have "async_ok (new_run t)"
    by (simp add: new_run_def MrpcAsyncChannel_def async_defs)
  with assms show ?thesis by (induction rule: rtranclp_induct) (auto intro: async_step_ok)
qed

section \<open>Waiting ends\<close>

text \<open>What the scheduler still has to do, counted so that every task makes it smaller.\<close>

definition work_left :: "'rsp async_run \<Rightarrow> nat" where
  "work_left S = 8 * call_tasks S + 6 * completion_tasks S + 4 * woken S + 2 * resumes S
     + (if waiter S = Checking then 1 else 0)"

lemma async_task_decreases: "async_task sz parse parse_payload messages S S' \<Longrightarrow> work_left S' < work_left S"
proof (induction rule: async_task.induct)
  case (complete_two S)
  have "length (complete_second (chan S)) \<le> 1" by (simp add: complete_second_def split: option.split)
  with complete_two show ?case by (simp add: work_left_def)
qed (auto simp: work_left_def postCompletion_def split: if_splits)

lemma work_left_bound: "work_ok S \<Longrightarrow> work_left S \<le> 9"
  by (auto simp: work_left_def work_ok_def pending_work_def)

lemma async_tasks_bounded:
  "(async_task sz parse parse_payload messages ^^ n) S S' \<Longrightarrow> n + work_left S' \<le> work_left S"
proof (induction n arbitrary: S')
  case (Suc n)
  then obtain T where "(async_task sz parse parse_payload messages ^^ n) S T"
    "async_task sz parse parse_payload messages T S'" by auto
  with Suc.IH [of T] async_task_decreases [of _ _ _ _ T S'] show ?case by fastforce
qed simp

lemma async_tasks_keep:
  assumes "(async_task sz parse parse_payload messages ^^ n) S S'"
  shows "async_ok S \<Longrightarrow> async_ok S'"
    "waiter S \<noteq> Outside \<Longrightarrow> waiter S' \<noteq> Outside" "failed_call S' = failed_call S"
    "m_done (chan S') = m_done (chan S)"
proof -
  have "(async_ok S \<longrightarrow> async_ok S') \<and> (waiter S \<noteq> Outside \<longrightarrow> waiter S' \<noteq> Outside)
      \<and> failed_call S' = failed_call S \<and> m_done (chan S') = m_done (chan S)"
    using assms
  proof (induction n arbitrary: S')
    case (Suc n)
    then obtain T where T: "(async_task sz parse parse_payload messages ^^ n) S T"
      "async_task sz parse parse_payload messages T S'" by auto
    have "(waiter T \<noteq> Outside \<longrightarrow> waiter S' \<noteq> Outside) \<and> failed_call S' = failed_call T
        \<and> m_done (chan S') = m_done (chan T)"
      using T(2) by (cases rule: async_task.cases) (auto simp: complete_first_def)
    with Suc.IH [OF T(1)] async_task_ok [OF T(2)] show ?case by simp
  qed simp
  then show "async_ok S \<Longrightarrow> async_ok S'" "waiter S \<noteq> Outside \<Longrightarrow> waiter S' \<noteq> Outside"
    "failed_call S' = failed_call S" "m_done (chan S') = m_done (chan S)" by auto
qed

lemma async_run_ends:
  "\<exists>n S'. (async_task sz parse parse_payload messages ^^ n) S S' \<and> (\<nexists>S''. async_task sz parse parse_payload messages S' S'')"
proof (induction "work_left S" arbitrary: S rule: less_induct)
  case less
  show ?case
  proof (cases "\<exists>T. async_task sz parse parse_payload messages S T")
    case True
    then obtain T where T: "async_task sz parse parse_payload messages S T" by blast
    from less [OF async_task_decreases [OF T]] obtain n S' where
      "(async_task sz parse parse_payload messages ^^ n) T S'" "\<nexists>S''. async_task sz parse parse_payload messages S' S''"
      by blast
    with T show ?thesis using relpowp_Suc_I2 by metis
  next
    case False
    then show ?thesis by (intro exI [of _ 0] exI [of _ S]) auto
  qed
qed

text \<open>While a fiber waits, the scheduler has something to run.\<close>

lemma async_progress:
  assumes "async_ok S" "waiter S = Checking \<or> waiter S = Yielded"
  shows "\<exists>S'. async_task sz parse parse_payload messages S S'"
proof (cases "waiter S = Checking")
  case True
  then show ?thesis using async_task.check by blast
next
  case False
  then have y: "waiter S = Yielded" using assms(2) by simp
  then have "pending_work S = 1" and q: "m_request (chan S) \<noteq> None"
    using assms(1) by (auto simp: async_ok_def work_ok_def saved_ok_def)
  then consider "call_tasks S > 0" | "completion_tasks S > 0" | "woken S > 0" | "resumes S > 0"
    unfolding pending_work_def by linarith
  then show ?thesis
  proof cases
    case 1
    obtain r where r: "m_request (chan S) = Some r" using q by blast
    from sync_CallMethod_can_return [of sz parse parse_payload "[]" "[]" "messages r" None "transport S"]
    obtain connects sends evs out closures where
      "sync_CallMethod sz parse parse_payload [] [] (messages r) None connects sends evs (transport S)
        = Some (out, closures)" by blast
    from async_task.run_call [where messages = messages, OF 1 r this] show ?thesis by blast
  next
    case 2
    from async_task.complete_one [OF 2] show ?thesis by (metis surj_pair)
  next
    case 3
    from async_task.complete_two [OF 3] show ?thesis by blast
  next
    case 4
    from async_task.resume [OF y 4] show ?thesis by blast
  qed
qed

text \<open>C39: No wake-up is lost. A fiber that waits for its call comes back, in every interleaving of the
  operations on the channel with the tasks of the scheduler and with the other users of the connection: from any
  state that can be reached, the scheduler runs at most nine more tasks on behalf of the channel,
  and when it has none left the fiber has returned and the call is finished; and if no \<open>CallMethod\<close>
  was refused by \<open>fail\<close>, the transport's answer was there before, and the closure has run exactly once.\<close>

theorem async_wait_returns:
  assumes "(async_step sz parse parse_payload messages)\<^sup>*\<^sup>* (new_run t) S"
    "waiter S = Checking \<or> waiter S = Yielded" "(async_task sz parse parse_payload messages ^^ n) S S'"
  shows "n \<le> 9 \<and> ((\<nexists>S''. async_task sz parse parse_payload messages S' S'') \<longrightarrow>
    waiter S' = Returned \<and> finished (chan S')
    \<and> (\<not> failed_call S \<longrightarrow> outcome S' \<noteq> None \<and> closures_run S' = ran (run_closure (m_done (chan S)))))"
proof -
  have ok: "async_ok S" by (rule async_reach_ok [OF assms(1)])
  note keep = async_tasks_keep [OF assms(3)]
  have ok': "async_ok S'" by (rule keep(1) [OF ok])
  have "waiter S' = Returned" if "\<nexists>S''. async_task sz parse parse_payload messages S' S''"
    using async_progress [OF ok', of sz parse parse_payload messages] that keep(2) assms(2)
    by (cases "waiter S'") auto
  moreover have "finished (chan S') \<and> (\<not> failed_call S \<longrightarrow> outcome S' \<noteq> None
      \<and> closures_run S' = ran (run_closure (m_done (chan S))))" if "waiter S' = Returned"
    using ok' that keep(3,4) by (auto simp: async_ok_def work_ok_def done_ok_def finished_def)
  moreover have "n \<le> 9"
    using async_tasks_bounded [OF assms(3)] work_left_bound ok by (fastforce simp: async_ok_def)
  ultimately show ?thesis by blast
qed

text \<open>A call that is saved, made and waited for before its task runs.\<close>

definition waiting_run :: "nat async_run" where
  "waiting_run = (new_run \<lparr>fd_open = False, m_request_id = 0\<rparr>)\<lparr>chan := MrpcAsyncChannel\<lparr>m_controller := Some 1,
     m_request := Some 2, m_response := Some 3, m_done := Some 4, m_prepared := True, m_started := True,
     m_scheduler := Some 0, m_callerFiber := Some 7, m_callerThread := 5, m_waiting := True\<rparr>,
     call_tasks := 1, waiter := Checking\<rparr>"

lemma waiting_run_reached:
  "(async_step sz parse parse_payload messages)\<^sup>*\<^sup>*
     (new_run \<lparr>fd_open = False, m_request_id = 0\<rparr>) waiting_run"
proof -
  let ?S0 = "new_run \<lparr>fd_open = False, m_request_id = 0\<rparr> :: nat async_run"
  let ?step = "async_step sz parse parse_payload messages"
  let ?env = "\<lparr>env_scheduler = Some 0, env_iomanager = True, env_fiber = 7, env_thread = 5, env_shared = True\<rparr>"
  obtain ch1 es1 where c1: "saveCallee (Some 1) (Some 2) (Some 3) (Some 4) (chan ?S0) = (ch1, es1)"
    "ch1 = MrpcAsyncChannel\<lparr>m_controller := Some 1, m_request := Some 2, m_response := Some 3,
       m_done := Some 4, m_prepared := True\<rparr>"
    by (simp add: saveCallee_def new_run_def MrpcAsyncChannel_def)
  let ?S1 = "?S0\<lparr>chan := ch1\<rparr>"
  have s1: "?step ?S0 ?S1" by (rule async_step.save [OF c1(1)])
  obtain ch2 where c2: "async_CallMethod ?env ''Get'' (Some 1) (Some 2) (Some 3) (Some 4) (chan ?S1) = (ch2, [Post_call ''Get''])"
    "ch2 = ch1\<lparr>m_started := True, m_scheduler := Some 0, m_callerFiber := Some 7, m_callerThread := 5\<rparr>"
    by (simp add: async_CallMethod_def c1(2) MrpcAsyncChannel_def)
  let ?S2 = "?S1\<lparr>chan := ch2, call_tasks := call_tasks ?S1 + posted [Post_call ''Get''],
      closures_run := closures_run ?S1 @ ran [Post_call ''Get''],
      failed_call := (failed_call ?S1 \<or> call_fails ?env (Some 1) (Some 2) (Some 3) (Some 4) (chan ?S1))\<rparr>"
  have s2: "?step ?S1 ?S2" by (rule async_step.call [OF c2(1)])
  have c3: "async_wait (Some 0) 7 (chan ?S2) = (ch2\<lparr>m_waiting := True\<rparr>, [], True)"
    by (simp add: async_wait_def c2(2) c1(2) MrpcAsyncChannel_def)
  have "?step ?S2 (?S2\<lparr>chan := ch2\<lparr>m_waiting := True\<rparr>, waiter := (if True then Checking else waiter ?S2)\<rparr>)"
    by (rule async_step.wait [OF c3]) (simp add: new_run_def)
  moreover have "?S2\<lparr>chan := ch2\<lparr>m_waiting := True\<rparr>, waiter := (if True then Checking else waiter ?S2)\<rparr> = waiting_run"
    by (simp add: waiting_run_def new_run_def c2(2) c1(2) MrpcAsyncChannel_def call_fails_def)
  ultimately have "?step ?S2 waiting_run" by simp
  with s1 s2 show ?thesis by (meson rtranclp.rtrancl_refl rtranclp.rtrancl_into_rtrancl)
qed

theorem async_wait_returns_witness:
  "\<exists>n S'. (async_task sample_sz (\<lambda>_. None) (\<lambda>_. None) (\<lambda>_. []) ^^ n) waiting_run S' \<and> n \<le> 9
     \<and> waiter S' = Returned \<and> closures_run S' = [4]"
proof -
  let ?task = "async_task sample_sz (\<lambda>_. None) (\<lambda>_. None) (\<lambda>_. []) :: nat async_run \<Rightarrow> _"
  obtain n S' where run: "(?task ^^ n) waiting_run S'" "\<nexists>S''. ?task S' S''"
    using async_run_ends [of sample_sz _ _ _ waiting_run] by blast
  have "waiter waiting_run = Checking" "\<not> failed_call waiting_run" "m_done (chan waiting_run) = Some 4"
    by (simp_all add: waiting_run_def new_run_def)
  then show ?thesis
    using async_wait_returns [OF waiting_run_reached _ run(1)] run by (auto simp: run_closure_def)
qed

text \<open>A call with other arguments is refused by running the closure and marking the channel finished, also while a
  call is in flight: the closure of that call runs at once, and again when it completes.\<close>

lemma refused_call_completes_twice:
  assumes "m_prepared ch" "m_started ch" "m_done ch = Some d" "c \<noteq> m_controller ch"
    "async_CallMethod env mt c req rsp closure ch = (ch', es)"
  shows "ran es = [d]" "finished ch'" "ran (snd (complete_first ch')) = [d]"
  using assms by (auto simp: async_CallMethod_def fail_async_def complete_first_def finished_def run_closure_def)

end
