(* ===== verification/Rpc_Net.thy ===== *)
theory Rpc_Net
  imports Rpc_Channel "HOL-Library.Sublist"
begin

text \<open>
  The two ends of the protocol put together: the channel with many calls of src/rpc/MrpcchannelMultiReq.cc
  on one side, the server of src/rpc/rpcprovider.cc on the other, and between them connections that
  can break at any point and are set up again. A state has the bytes on their way in both directions for
  each connection, so that the server may still read what was sent on a connection the client has
  given up. The service itself is a parameter, the relation \<open>run\<close> of a method, its request, the states before and
  after and the response; its requests run in any order, and their answers are sent in any order.
\<close>

section \<open>The state\<close>

text \<open>The serializers and parsers of both ends, and which requests a method takes.\<close>

record ('req, 'rsp) codec =
  cd_send :: "'req serializers"
  cd_parse :: "'req parsers"
  cd_ser_response :: "'rsp \<Rightarrow> u8 list option"
  cd_ser_frame :: "RpcResponseFrame \<Rightarrow> u8 list option"
  cd_parse_frame :: "u8 list \<Rightarrow> RpcResponseFrame option"
  cd_typed :: "string \<Rightarrow> 'req \<Rightarrow> bool"

text \<open>Their documentation: what was serialized parses back. The frames have a size the protocol allows.\<close>

definition codec_laws :: "('req, 'rsp) codec \<Rightarrow> bool" where
  "codec_laws cd \<longleftrightarrow> varint_encoder (ser_size (cd_send cd))
     \<and> (\<forall>f b. ser_frame (cd_send cd) f = Some b \<longrightarrow> parse_frame (cd_parse cd) b = Some f \<and> body_ok b)
     \<and> (\<forall>mt req p. cd_typed cd mt req \<longrightarrow> ser_request (cd_send cd) req = Some p \<longrightarrow>
          parse_request (cd_parse cd) ''raftRpc'' mt p = Some req)
     \<and> (\<forall>f b. cd_ser_frame cd f = Some b \<longrightarrow> cd_parse_frame cd b = Some f \<and> body_ok b)"

text \<open>
  \<open>uplink\<close>, \<open>server_buffer\<close> and \<open>downlink\<close> belong to the connections, of which \<open>connection\<close> is the last.
  \<open>tasks\<close> are the calls the server has scheduled, \<open>answers\<close> the responses its closures have still to
  send. The last three fields record what has happened: the calls, in the order of their ids, the
  executions by the server, and the answers the client has parsed.
\<close>

record ('req, 'rsp, 'srv) rpc_net =
  client :: "'req multi_channel"
  connection :: nat
  uplink :: "nat \<Rightarrow> u8 list"
  server_buffer :: "nat \<Rightarrow> u8 list"
  downlink :: "nat \<Rightarrow> u8 list"
  tasks :: "(nat \<times> 'req action) list"
  server :: 'srv
  answers :: "(nat \<times> u64 \<times> 'rsp) list"
  calls :: "(ctl \<times> string \<times> 'req) list"
  executions :: "(u64 \<times> string \<times> 'req \<times> 'rsp) list"
  results :: "(ctl \<times> u8 list) list"

definition new_net :: "bool \<Rightarrow> 'srv \<Rightarrow> ('req, 'rsp, 'srv) rpc_net" where
  "new_net conn srv = \<lparr>client = new_channel conn, connection = 0, uplink = (\<lambda>_. []), server_buffer = (\<lambda>_. []),
     downlink = (\<lambda>_. []), tasks = [], server = srv, answers = [], calls = [], executions = [], results = []\<rparr>"

text \<open>
  A step of either end. A call has a controller of its own. What \<open>send\<close> takes goes to the last
  connection. The server is called back with any further part of a stream; it runs any scheduled call
  and sends any answer. The client reads whole answers off the last connection, in whatever
  pieces they come, or loses the connection, with or without a broken attempt to connect.
\<close>

inductive net_step ::
  "('req, 'rsp) codec \<Rightarrow> service_map \<Rightarrow> (string \<Rightarrow> 'req \<Rightarrow> 'srv \<Rightarrow> 'srv \<Rightarrow> 'rsp \<Rightarrow> bool) \<Rightarrow>
   ('req, 'rsp, 'srv) rpc_net \<Rightarrow> ('req, 'rsp, 'srv) rpc_net \<Rightarrow> bool"
  for cd m run where
  net_call: "c \<notin> fst ` set (calls n) \<Longrightarrow> cd_typed cd mt req \<Longrightarrow>
     call_async (cd_send cd) True mt c req (client n) = Inr (posted, s') \<Longrightarrow>
     net_step cd m run n
       (n\<lparr>client := s', calls := (if connected (client n) then calls n @ [(c, mt, req)] else calls n)\<rparr>)"
| net_send: "connected (client n) \<Longrightarrow> send_tasks (client n) = (i, data) # ts \<Longrightarrow>
     sendAll 0 (length data) outs = Some (ok, sent) \<Longrightarrow> send_task outs (client n) = Some s' \<Longrightarrow>
     net_step cd m run n
       (n\<lparr>client := s', uplink := (uplink n)(connection n := uplink n (connection n) @ take sent data)\<rparr>)"
| net_send_closed: "\<not> connected (client n) \<Longrightarrow> send_task [Send_error] (client n) = Some s' \<Longrightarrow>
     net_step cd m run n (n\<lparr>client := s'\<rparr>)"
| net_deliver: "k \<le> connection n \<Longrightarrow> uplink n k = x @ y \<Longrightarrow>
     OnMessage (cd_parse cd) m (server_buffer n k @ x) = (acts, rest) \<Longrightarrow>
     net_step cd m run n
       (n\<lparr>uplink := (uplink n)(k := y), server_buffer := (server_buffer n)(k := rest),
          tasks := tasks n @ map (Pair k) acts\<rparr>)"
| net_run: "tasks n = ts @ (k, Call i sv mt req) # ts' \<Longrightarrow> run mt req (server n) srv rsp \<Longrightarrow>
     net_step cd m run n
       (n\<lparr>tasks := ts @ ts', server := srv, answers := answers n @ [(k, i, rsp)],
          executions := executions n @ [(i, mt, req, rsp)]\<rparr>)"
| net_respond: "answers n = as @ (k, i, rsp) # as' \<Longrightarrow>
     sent = SendRpcResponse (ser_size (cd_send cd)) (cd_ser_response cd) (cd_ser_frame cd) i rsp \<Longrightarrow>
     net_step cd m run n
       (n\<lparr>answers := as @ as',
          downlink := (downlink n)(k := downlink n k @ (case sent of None \<Rightarrow> [] | Some bytes \<Rightarrow> bytes))\<rparr>)"
| net_internal: "net_step cd m run n (n\<lparr>server := srv\<rparr>)"
| net_receive: "connected (client n) \<Longrightarrow> downlink n (connection n) = bytes_of evs \<Longrightarrow> healthy True evs \<Longrightarrow>
     recvLoop_round (cd_parse_frame cd) retry connects evs (client n) = Some (s', evs') \<Longrightarrow>
     net_step cd m run n (n\<lparr>client := s', downlink := (downlink n)(connection n := bytes_of evs')\<rparr>)"
| net_lose: "recvLoop_round (cd_parse_frame cd) retry connects evs (client n) = Some (s', evs') \<Longrightarrow> \<not> connected s' \<Longrightarrow>
     net_step cd m run n (n\<lparr>client := s'\<rparr>)"
| net_reconnect: "\<not> connected (client n) \<Longrightarrow> Rpc_Channel.connect_loop retry connects \<Longrightarrow>
     net_step cd m run n
       (n\<lparr>client := (client n)\<lparr>connected := True\<rparr>, connection := connection n + 1,
          uplink := (uplink n)(connection n + 1 := []), server_buffer := (server_buffer n)(connection n + 1 := []),
          downlink := (downlink n)(connection n + 1 := [])\<rparr>)"
| net_worker: "worker_tasks (client n) = (c, payload) # ws \<Longrightarrow>
     net_step cd m run n
       (n\<lparr>client := worker_task parses (client n),
          results := (if parses c payload then results n @ [(c, payload)] else results n)\<rparr>)"

section \<open>What holds of the parts\<close>

text \<open>A frame that was made for a call, and a body that parses as one.\<close>

definition asked :: "('req, 'rsp) codec \<Rightarrow> (ctl \<times> string \<times> 'req) list \<Rightarrow> RpcRequestFrame \<Rightarrow> bool" where
  "asked cd cs f \<longleftrightarrow> unat (rq_request_id f) < length cs \<and> rq_service_name f = ''raftRpc''
     \<and> (\<exists>c req. cs ! unat (rq_request_id f) = (c, rq_method_name f, req)
          \<and> cd_typed cd (rq_method_name f) req \<and> ser_request (cd_send cd) req = Some (rq_payload f))"

definition frame_for :: "('req, 'rsp) codec \<Rightarrow> (ctl \<times> string \<times> 'req) list \<Rightarrow> u64 \<Rightarrow> u8 list \<Rightarrow> bool" where
  "frame_for cd cs i b \<longleftrightarrow> body_ok b
     \<and> (\<exists>f. parse_frame (cd_parse cd) b = Some f \<and> rq_request_id f = i \<and> asked cd cs f)"

definition body_id :: "('req, 'rsp) codec \<Rightarrow> u8 list \<Rightarrow> u64" where
  "body_id cd b = rq_request_id (the (parse_frame (cd_parse cd) b))"

definition action_id :: "nat \<times> 'req action \<Rightarrow> u64" where
  "action_id t = (case snd t of Call i _ _ _ \<Rightarrow> i | Shutdown \<Rightarrow> 0)"

definition called :: "(ctl \<times> string \<times> 'req) list \<Rightarrow> u64 \<Rightarrow> string \<Rightarrow> 'req \<Rightarrow> bool" where
  "called cs i mt req \<longleftrightarrow> unat i < length cs \<and> (\<exists>c. cs ! unat i = (c, mt, req))"

text \<open>The payload of an answer to the call \<open>i\<close>.\<close>

definition reply_for :: "('req, 'rsp) codec \<Rightarrow> (u64 \<times> string \<times> 'req \<times> 'rsp) list \<Rightarrow> u64 \<Rightarrow> u8 list \<Rightarrow> bool" where
  "reply_for cd es i p \<longleftrightarrow> (\<exists>mt req rsp. (i, mt, req, rsp) \<in> set es \<and> cd_ser_response cd rsp = Some p)"

definition answered ::
  "('req, 'rsp) codec \<Rightarrow> (ctl \<times> string \<times> 'req) list \<Rightarrow> (u64 \<times> string \<times> 'req \<times> 'rsp) list \<Rightarrow> ctl \<Rightarrow> u8 list \<Rightarrow> bool" where
  "answered cd cs es c p \<longleftrightarrow> (\<exists>i. unat i < length cs \<and> fst (cs ! unat i) = c \<and> reply_for cd es i p)"

lemma frame_for_id: "frame_for cd cs i b \<Longrightarrow> body_id cd b = i"
  by (auto simp: frame_for_def body_id_def)

lemma asked_more: "asked cd cs f \<Longrightarrow> asked cd (cs @ [x]) f"
  by (auto simp: asked_def nth_append)

lemma frame_for_more: "frame_for cd cs i b \<Longrightarrow> frame_for cd (cs @ [x]) i b"
  by (auto simp: frame_for_def dest: asked_more)

lemma called_more: "called cs i mt req \<Longrightarrow> called (cs @ [x]) i mt req"
  by (auto simp: called_def nth_append)

lemma reply_for_more: "reply_for cd es i p \<Longrightarrow> reply_for cd (es @ [x]) i p"
  by (auto simp: reply_for_def)

lemma answered_more:
  "answered cd cs es c p \<Longrightarrow> answered cd (cs @ [x]) es c p"
  "answered cd cs es c p \<Longrightarrow> answered cd cs (es @ [y]) c p"
proof -
  assume a: "answered cd cs es c p"
  then show "answered cd cs (es @ [y]) c p" by (auto simp: answered_def dest: reply_for_more)
  obtain i where "unat i < length cs" "fst (cs ! unat i) = c" "reply_for cd es i p"
    using a by (auto simp: answered_def)
  then show "answered cd (cs @ [x]) es c p" by (auto simp: answered_def nth_append intro!: exI [of _ i])
qed

section \<open>The invariant\<close>

text \<open>The client: its pending calls are the ones made under their ids, and no controller is in two places.\<close>

definition client_ok :: "(ctl \<times> string \<times> 'req) list \<Rightarrow> 'req multi_channel \<Rightarrow> bool" where
  "client_ok cs s \<longleftrightarrow> chan_ok s (length cs) \<and> (\<forall>(i, c) \<in> set (m_pendings s). fst (cs ! unat i) = c)
     \<and> (\<forall>c. places c s \<le> (if c \<in> fst ` set cs \<or> c \<in> fst ` set (m_rpc_calllifetime s) then 1 else 0))"

definition queue_ok :: "('req, 'rsp) codec \<Rightarrow> (ctl \<times> string \<times> 'req) list \<Rightarrow> (u64 \<times> u8 list) list \<Rightarrow> bool" where
  "queue_ok cd cs ts \<longleftrightarrow> (\<forall>(i, data) \<in> set ts. \<exists>b. data = wire b \<and> frame_for cd cs i b)"

text \<open>
  The stream of a connection towards the server: the frames \<open>bodies\<close>, of which the client has not
  sent the last bytes, \<open>unsent\<close>, if it lost the connection in between.
\<close>

definition stream_at ::
  "('req, 'rsp) codec \<Rightarrow> ('req, 'rsp, 'srv) rpc_net \<Rightarrow> (nat \<Rightarrow> u8 list list) \<Rightarrow> (nat \<Rightarrow> u8 list) \<Rightarrow> nat \<Rightarrow> bool" where
  "stream_at cd n bodies unsent k \<longleftrightarrow>
     server_buffer n k @ uplink n k @ unsent k = concat (map wire (bodies k))
     \<and> (\<forall>b \<in> set (bodies k). \<exists>i. frame_for cd (calls n) i b)"

definition streams_ok ::
  "('req, 'rsp) codec \<Rightarrow> ('req, 'rsp, 'srv) rpc_net \<Rightarrow> (nat \<Rightarrow> u8 list list) \<Rightarrow> (nat \<Rightarrow> u8 list) \<Rightarrow> bool" where
  "streams_ok cd n bodies unsent \<longleftrightarrow> (\<forall>k \<le> connection n. stream_at cd n bodies unsent k)
     \<and> (connected (client n) \<longrightarrow> unsent (connection n) = [])"

definition server_ok :: "('req, 'rsp, 'srv) rpc_net \<Rightarrow> bool" where
  "server_ok n \<longleftrightarrow>
     (\<forall>t \<in> set (tasks n). \<exists>i sv mt req. snd t = Call i sv mt req \<and> called (calls n) i mt req)
     \<and> (\<forall>(i, mt, req, rsp) \<in> set (executions n). called (calls n) i mt req)
     \<and> (\<forall>(k, i, rsp) \<in> set (answers n). \<exists>mt req. (i, mt, req, rsp) \<in> set (executions n))"

definition reply_body ::
  "('req, 'rsp) codec \<Rightarrow> (u64 \<times> string \<times> 'req \<times> 'rsp) list \<Rightarrow> u8 list \<Rightarrow> bool" where
  "reply_body cd es b \<longleftrightarrow> body_ok b
     \<and> (\<exists>i p. cd_parse_frame cd b = Some \<lparr>rs_request_id = i, rs_payload = p\<rparr> \<and> reply_for cd es i p)"

definition downlinks_ok :: "('req, 'rsp) codec \<Rightarrow> ('req, 'rsp, 'srv) rpc_net \<Rightarrow> bool" where
  "downlinks_ok cd n \<longleftrightarrow>
     (\<forall>k. \<exists>bs. downlink n k = concat (map wire bs) \<and> (\<forall>b \<in> set bs. reply_body cd (executions n) b))"

definition results_ok :: "('req, 'rsp) codec \<Rightarrow> ('req, 'rsp, 'srv) rpc_net \<Rightarrow> bool" where
  "results_ok cd n \<longleftrightarrow>
     (\<forall>(c, p) \<in> set (worker_tasks (client n)) \<union> set (results n). answered cd (calls n) (executions n) c p)
     \<and> (\<forall>c. count_list (map fst (results n)) c \<le> count_list (map fst (completions (client n))) c)"

text \<open>How often the id \<open>i\<close> is on its way to the server, waits there or has been executed.\<close>

definition uses :: "('req, 'rsp) codec \<Rightarrow> ('req, 'rsp, 'srv) rpc_net \<Rightarrow> (nat \<Rightarrow> u8 list list) \<Rightarrow> u64 \<Rightarrow> nat" where
  "uses cd n bodies i = count_list (map fst (send_tasks (client n))) i
     + (\<Sum>k \<le> connection n. count_list (map (body_id cd) (bodies k)) i)
     + count_list (map action_id (tasks n)) i + count_list (map fst (executions n)) i"

definition once :: "('req, 'rsp) codec \<Rightarrow> ('req, 'rsp, 'srv) rpc_net \<Rightarrow> (nat \<Rightarrow> u8 list list) \<Rightarrow> bool" where
  "once cd n bodies \<longleftrightarrow> (\<forall>i. uses cd n bodies i \<le> (if unat i < length (calls n) then 1 else 0))"

definition net_ok :: "('req, 'rsp) codec \<Rightarrow> ('req, 'rsp, 'srv) rpc_net \<Rightarrow> bool" where
  "net_ok cd n \<longleftrightarrow> (\<exists>bodies unsent. client_ok (calls n) (client n) \<and> queue_ok cd (calls n) (send_tasks (client n))
     \<and> streams_ok cd n bodies unsent \<and> server_ok n \<and> downlinks_ok cd n \<and> results_ok cd n
     \<and> once cd n bodies \<and> distinct (map fst (calls n)))"

lemma net_okI:
  "client_ok (calls n) (client n) \<Longrightarrow> queue_ok cd (calls n) (send_tasks (client n)) \<Longrightarrow> streams_ok cd n bodies unsent \<Longrightarrow>
   server_ok n \<Longrightarrow> downlinks_ok cd n \<Longrightarrow> results_ok cd n \<Longrightarrow> once cd n bodies \<Longrightarrow> distinct (map fst (calls n)) \<Longrightarrow>
   net_ok cd n"
  unfolding net_ok_def by blast

lemma net_okE:
  assumes "net_ok cd n"
  obtains bodies unsent where "client_ok (calls n) (client n)" "queue_ok cd (calls n) (send_tasks (client n))"
    "streams_ok cd n bodies unsent" "server_ok n" "downlinks_ok cd n" "results_ok cd n" "once cd n bodies"
    "distinct (map fst (calls n))"
  using assms unfolding net_ok_def by blast

section \<open>Steps of the client\<close>

text \<open>What a change of the client alone has to keep.\<close>

definition client_keeps :: "'req multi_channel \<Rightarrow> 'req multi_channel \<Rightarrow> bool" where
  "client_keeps s s' \<longleftrightarrow> m_pendings s' \<in> {m_pendings s, []} \<and> m_rpc_calllifetime s' = m_rpc_calllifetime s
     \<and> worker_tasks s' = worker_tasks s \<and> (\<exists>cs. completions s' = completions s @ cs)"

lemma client_keeps_lose [simp]: "client_keeps s (lose_connection info s)"
  by (simp add: client_keeps_def lose_connection_def closeCurrentFd_def failAllPending_eq)

lemma client_keeps_ok:
  assumes "client_keeps s s'" "client_ok cs s" "chan_ok s' (length cs)" "\<And>c. places c s' = places c s"
  shows "client_ok cs s'"
  using assms unfolding client_ok_def client_keeps_def by auto

lemma results_kept:
  assumes "client_keeps (client n) (client n')" "results_ok cd n" "results n' = results n" "calls n' = calls n"
    "executions n' = executions n"
  shows "results_ok cd n'"
proof -
  obtain cs where "completions (client n') = completions (client n) @ cs" "worker_tasks (client n') = worker_tasks (client n)"
    using assms(1) by (auto simp: client_keeps_def)
  then show ?thesis using assms(2) by (auto simp: results_ok_def assms(3-5) trans_le_add1)
qed

lemma send_task_cases:
  assumes "send_tasks s = (i, data) # ts" "sendAll 0 (length data) outs = Some (ok, sent)" "send_task outs s = Some s'"
  shows "send_tasks s' = ts \<and> client_keeps s s' \<and> connected s' = (connected s \<and> ok)"
  using assms
  by (auto simp: send_task_def Let_def client_keeps_def failAllPending_eq closeCurrentFd_def split: if_splits)

lemma sendAll_all: "sendAll sent n outs = Some (True, k) \<Longrightarrow> n \<le> k"
proof (induction sent n outs rule: sendAll.induct)
  case (1 sent n outs)
  show ?case
  proof (cases "sent < n")
    case True
    then show ?thesis
      using 1 sendAll.simps [of sent n outs] by (auto split: list.splits send_event.splits if_splits)
  next
    case False
    then show ?thesis using "1.prems" sendAll.simps [of sent n outs] by simp
  qed
qed

text \<open>A call that is made: it is pending under the next id, with a frame for it in the queue of the sender.\<close>

lemma call_made:
  assumes call: "call_async sz True mt c req s = Inr (posted, s')" and conn: "connected s"
    and ok: "chan_ok s k" "k < 2 ^ 64"
  obtains "m_pendings s' = (m_nextRequset_id s, c) # m_pendings s" "worker_tasks s' = worker_tasks s"
    "connected s'" "m_rpc_calllifetime s' = m_rpc_calllifetime s" "completions s' = completions s"
    "send_tasks s' = send_tasks s \<or> (\<exists>payload body. ser_request sz req = Some payload
      \<and> ser_frame sz \<lparr>rq_request_id = m_nextRequset_id s, rq_service_name = ''raftRpc'', rq_method_name = mt,
           rq_payload = payload\<rparr> = Some body
      \<and> send_tasks s' = send_tasks s @ [(m_nextRequset_id s, wire_frame (ser_size sz) body)])"
proof -
  have id: "unat (m_nextRequset_id s) = k"
    using ok by (simp add: chan_ok_def unsigned_of_nat take_bit_nat_eq_self_iff)
  then have new: "m_nextRequset_id s \<notin> fst ` set (m_pendings s)" using ok(1) by (force simp: chan_ok_def)
  have c: "c \<notin> fst ` set (m_rpc_calllifetime s)"
    using call by (auto simp: call_async_def registerCall_def split: if_splits)
  then have del: "AList.delete c ((c, req) # m_rpc_calllifetime s) = m_rpc_calllifetime s"
    by (simp add: delete_idem)
  let ?s1 = "s\<lparr>controllers := (controllers s)(c := MrpcController), m_rpc_calllifetime := (c, req) # m_rpc_calllifetime s\<rparr>"
  have s': "s' = CallMethod sz ''raftRpc'' mt c ?s1"
    using call c by (auto simp: call_async_def registerCall_def Let_def)
  show thesis
    by (rule that)
      (use conn new del in \<open>auto simp: s' CallMethod_def Let_def SetFailed_def split: option.splits\<close>)
qed

lemma call_not_made:
  assumes "call_async sz True mt c req s = Inr (posted, s')" "\<not> connected s"
  shows "m_pendings s' = m_pendings s \<and> worker_tasks s' = worker_tasks s \<and> send_tasks s' = send_tasks s
    \<and> \<not> connected s' \<and> completions s' = completions s"
  using assms
  by (auto simp: call_async_def registerCall_def CallMethod_def SetFailed_def split: if_splits)

text \<open>Either way the controller gets its one place.\<close>

lemma call_places:
  assumes "call_async sz True mt c req s = Inr (posted, s')" "chan_ok s k" "connected s \<longrightarrow> k < 2 ^ 64"
  shows "chan_ok s' (if connected s then k + 1 else k)" "places d s' = places d s + (if d = c then 1 else 0)"
    "c \<notin> fst ` set (m_rpc_calllifetime s)"
    "\<not> connected s \<Longrightarrow> m_rpc_calllifetime s' = (c, req) # m_rpc_calllifetime s"
proof -
  let ?s0 = "s\<lparr>controllers := (controllers s)(c := MrpcController)\<rparr>"
  obtain s1 where r: "registerCall c req ?s0 = Inr s1" and s': "s' = CallMethod sz ''raftRpc'' mt c s1"
    using assms(1) by (cases "registerCall c req ?s0") (auto simp: call_async_def Let_def)
  have s0: "chan_ok ?s0 k" "\<And>d. places d ?s0 = places d s" using assms(2) by (simp_all add: chan_ok_def places_def)
  have s1: "chan_ok s1 k" "places d s1 = places d s + (if d = c then 1 else 0)" for d
    using registerCall_ok [OF r s0(1)] s0(2) by auto
  have same: "connected s1 = connected s" "m_rpc_calllifetime s1 = (c, req) # m_rpc_calllifetime s"
    "c \<notin> fst ` set (m_rpc_calllifetime s)"
    using r by (auto simp: registerCall_def split: if_splits)
  then have "connected s1 \<longrightarrow> k < 2 ^ 64" using assms(3) by simp
  from CallMethod_ok [OF s1(1) this, of sz "''raftRpc''" mt c] s1(2) same
  show "chan_ok s' (if connected s then k + 1 else k)" "places d s' = places d s + (if d = c then 1 else 0)"
    unfolding s' by auto
  show "c \<notin> fst ` set (m_rpc_calllifetime s)" by fact
  assume "\<not> connected s"
  then show "m_rpc_calllifetime s' = (c, req) # m_rpc_calllifetime s"
    using same by (simp add: s' CallMethod_def SetFailed_def)
qed

section \<open>Steps of the server\<close>

lemma dispatch_asked:
  assumes laws: "codec_laws cd" and asked: "asked cd cs f"
  shows "dispatch (cd_parse cd) m f = []
    \<or> (\<exists>req. dispatch (cd_parse cd) m f = [Call (rq_request_id f) (rq_service_name f) (rq_method_name f) req]
         \<and> called cs (rq_request_id f) (rq_method_name f) req)"
proof -
  obtain c req where f: "rq_service_name f = ''raftRpc''" "unat (rq_request_id f) < length cs"
    "cs ! unat (rq_request_id f) = (c, rq_method_name f, req)" "cd_typed cd (rq_method_name f) req"
    "ser_request (cd_send cd) req = Some (rq_payload f)"
    using asked by (auto simp: asked_def)
  then have "parse_request (cd_parse cd) ''raftRpc'' (rq_method_name f) (rq_payload f) = Some req"
    using laws by (auto simp: codec_laws_def)
  then show ?thesis using f by (auto simp: dispatch_def called_def split: option.split)
qed

lemma calls_of_asked:
  assumes laws: "codec_laws cd" and bs: "\<forall>b \<in> set bs. \<exists>i. frame_for cd cs i b"
  shows "\<forall>a \<in> set (calls_of (cd_parse cd) m bs). \<exists>i sv mt req. a = Call i sv mt req \<and> called cs i mt req"
    "count_list (map action_id (map (Pair k) (calls_of (cd_parse cd) m bs))) i \<le> count_list (map (body_id cd) bs) i"
  using bs
proof (induction bs)
  case Nil
  { case 1 then show ?case by (simp add: calls_of_def) }
  { case 2 then show ?case by (simp add: calls_of_def) }
next
  case (Cons b bs)
  { case 1
    then obtain f where f: "parse_frame (cd_parse cd) b = Some f" "asked cd cs f" by (auto simp: frame_for_def)
    have "\<forall>a \<in> set (calls_of (cd_parse cd) m bs). \<exists>i sv mt req. a = Call i sv mt req \<and> called cs i mt req"
      using Cons.IH(1) 1 by simp
    then show ?case using dispatch_asked [OF laws f(2), of m] f(1) by (auto simp: calls_of_def) }
  { case 2
    then obtain f where f: "parse_frame (cd_parse cd) b = Some f" "asked cd cs f" by (auto simp: frame_for_def)
    have "count_list (map action_id (map (Pair k) (calls_of (cd_parse cd) m bs))) i \<le> count_list (map (body_id cd) bs) i"
      using Cons.IH(2) 2 by simp
    moreover have "count_list (map action_id (map (Pair k) (dispatch (cd_parse cd) m f))) i
        \<le> (if i = body_id cd b then 1 else 0)"
      using dispatch_asked [OF laws f(2), of m] f(1) by (auto simp: body_id_def action_id_def)
    moreover have "calls_of (cd_parse cd) m (b # bs) = dispatch (cd_parse cd) m f @ calls_of (cd_parse cd) m bs"
      using f(1) by (simp add: calls_of_def)
    ultimately show ?case by (cases "i = body_id cd b") (auto simp del: map_map) }
qed

lemma frames_stream: "\<forall>b \<in> set bs. \<exists>i. frame_for cd cs i b \<Longrightarrow> stream_ok (cd_parse cd) bs"
  by (fastforce simp: stream_ok_def frame_for_def)

text \<open>One call of \<open>OnMessage\<close> turns frames of the stream into tasks.\<close>

lemma deliver_frames:
  assumes laws: "codec_laws cd" and stream: "stream_at cd n bodies unsent k" and up: "uplink n k = x @ y"
    and msg: "OnMessage (cd_parse cd) m (server_buffer n k @ x) = (acts, rest)"
  obtains bs bs' where "bodies k = bs @ bs'" "rest @ y @ unsent k = concat (map wire bs')"
    "\<forall>a \<in> set acts. \<exists>i sv mt req. a = Call i sv mt req \<and> called (calls n) i mt req"
    "\<And>i. count_list (map action_id (map (Pair k) acts)) i \<le> count_list (map (body_id cd) bs) i"
proof -
  have all: "\<forall>b \<in> set (bodies k). \<exists>i. frame_for cd (calls n) i b"
    and eq: "(server_buffer n k @ x) @ (y @ unsent k) = concat (map wire (bodies k))"
    using stream up by (auto simp: stream_at_def)
  from OnMessage_prefix [OF eq frames_stream [OF all], of m] obtain bs bs' p where
    p: "bodies k = bs @ bs'" "p @ y @ unsent k = concat (map wire bs')"
      "OnMessage (cd_parse cd) m (server_buffer n k @ x) = (calls_of (cd_parse cd) m bs, p)" by blast
  have "\<forall>b \<in> set bs. \<exists>i. frame_for cd (calls n) i b" using all p(1) by simp
  from calls_of_asked [OF laws this, where m = m] show thesis using p msg by (intro that [of bs bs']) auto
qed

text \<open>A response that is sent is the answer of an execution.\<close>

lemma response_body:
  assumes laws: "codec_laws cd" and e: "(i, mt, req, rsp) \<in> set es"
  obtains "SendRpcResponse (ser_size (cd_send cd)) (cd_ser_response cd) (cd_ser_frame cd) i rsp = None"
  | b where "SendRpcResponse (ser_size (cd_send cd)) (cd_ser_response cd) (cd_ser_frame cd) i rsp = Some (wire b)"
      "reply_body cd es b"
proof (cases "SendRpcResponse (ser_size (cd_send cd)) (cd_ser_response cd) (cd_ser_frame cd) i rsp")
  case (Some bytes)
  then obtain p b where p: "cd_ser_response cd rsp = Some p" "cd_ser_frame cd \<lparr>rs_request_id = i, rs_payload = p\<rparr> = Some b"
    "bytes = wire_frame (ser_size (cd_send cd)) b"
    by (auto simp: SendRpcResponse_def split: option.splits)
  have "cd_parse_frame cd b = Some \<lparr>rs_request_id = i, rs_payload = p\<rparr>" "body_ok b"
    using laws p(2) by (auto simp: codec_laws_def)
  then have "reply_body cd es b" using e p(1) by (auto simp: reply_body_def reply_for_def)
  moreover have "bytes = wire b" using laws p(3) wire_encoder by (simp add: codec_laws_def)
  ultimately show ?thesis using that(2) Some by blast
qed (use that(1) in blast)

section \<open>Reading the answers\<close>

lemma recvExact_empty: "healthy retry evs \<Longrightarrow> bytes_of evs = [] \<Longrightarrow> 0 < n \<Longrightarrow> recvExact retry n evs = Blocked"
proof (induction retry n evs rule: recvExact.induct)
  case (5 retry n bs evs)
  then have "healthy retry evs" by (auto simp: healthy_def)
  then show ?case using 5 by auto
qed (auto simp: healthy_def)

lemma recv_frame_empty: "healthy retry evs \<Longrightarrow> bytes_of evs = [] \<Longrightarrow> recvVarint32 retry evs = Blocked"
  by (simp add: recvVarint32_def eval_nat_numeral recvExact_empty)

text \<open>A round reads the first answer of the stream, if there is one.\<close>

lemma receive_answer:
  assumes conn: "connected s" and bytes: "bytes_of evs = concat (map wire bs)" and healthy: "healthy True evs"
    and bs: "\<forall>b \<in> set bs. body_ok b \<and> parse b \<noteq> None"
    and round: "recvLoop_round parse retry connects evs s = Some (s', evs')"
  obtains b bs' f where "bs = b # bs'" "parse b = Some f" "s' = completeResponse f s" "bytes_of evs' = concat (map wire bs')"
proof (cases bs)
  case Nil
  then have "recvVarint32 True evs = Blocked" using recv_frame_empty healthy bytes by simp
  then show ?thesis using round conn by (simp add: recvLoop_round_def recv_round_def)
next
  case (Cons b bs')
  then have "bytes_of evs = wire b @ concat (map wire bs')" "body_ok b" using bytes bs by simp_all
  from recv_frame_healthy [OF healthy this] obtain evs2 where
    r: "recv_frame True evs = Received b evs2" "bytes_of evs2 = concat (map wire bs')" by blast
  obtain f where f: "parse b = Some f" using bs Cons by auto
  have "s' = completeResponse f s \<and> evs' = evs2"
    using round conn r(1) f
    by (auto simp: recvLoop_round_def recv_round_def recv_frame_def split: received.splits if_splits option.splits)
  then show ?thesis using that [OF Cons f] r(2) by simp
qed

lemma lost_round:
  assumes "recvLoop_round parse retry connects evs s = Some (s', evs')" "\<not> connected s'"
  shows "client_keeps s s' \<and> send_tasks s' = send_tasks s"
proof -
  have *: "client_keeps s (lose_connection info (s\<lparr>connected := c\<rparr>))
      \<and> send_tasks (lose_connection info (s\<lparr>connected := c\<rparr>)) = send_tasks s" for info c
    by (simp add: client_keeps_def lose_connection_def closeCurrentFd_def failAllPending_eq)
  have conn: "connected (completeResponse f t) = connected t" for f and t :: "'a multi_channel"
    by (simp add: completeResponse_def split: option.split)
  have "client_keeps s s' \<and> send_tasks s' = send_tasks s"
    if "recv_round parse evs (s\<lparr>connected := True\<rparr>) = Some (s', evs')"
    using that
  proof (cases rule: recv_round_cases)
    case (answer f)
    then show ?thesis using assms(2) conn by simp
  next
    case (lost info)
    then show ?thesis using * by blast
  qed
  moreover have "client_keeps s (failAllPending ''connect fail'' s)
      \<and> send_tasks (failAllPending ''connect fail'' s) = send_tasks s"
    by (simp add: client_keeps_def failAllPending_eq)
  moreover have "recv_round parse evs s = Some (s', evs') \<Longrightarrow> connected s \<Longrightarrow>
      recv_round parse evs (s\<lparr>connected := True\<rparr>) = Some (s', evs')" by (cases s) simp
  ultimately show ?thesis using assms(1) unfolding recvLoop_round_def by (metis Pair_inject option.inject)
qed

section \<open>Every step keeps the invariant\<close>

lemma sum_update:
  "k \<le> (K :: nat) \<Longrightarrow> (\<Sum>j \<le> K. h ((g(k := v)) j)) + h (g k) = (\<Sum>j \<le> K. h (g j)) + (h v :: nat)"
  by (simp add: sum.remove [of "{..K}" k])

text \<open>A step that leaves the calls alone, and what it has to keep of the ids.\<close>

lemma onceI: "once cd n bodies \<Longrightarrow> calls n' = calls n \<Longrightarrow> (\<And>i. uses cd n' bodies' i \<le> uses cd n bodies i) \<Longrightarrow> once cd n' bodies'"
  unfolding once_def by (metis order_trans)

lemma frames_more: "\<forall>b \<in> set bs. \<exists>i. frame_for cd cs i b \<Longrightarrow> \<forall>b \<in> set bs. \<exists>i. frame_for cd (cs @ [x]) i b"
  using frame_for_more by fast

lemma queue_ok_more: "queue_ok cd cs ts \<Longrightarrow> queue_ok cd (cs @ [x]) ts"
  unfolding queue_ok_def using frame_for_more by fast

lemma queue_ok_snoc: "queue_ok cd cs ts \<Longrightarrow> frame_for cd cs i b \<Longrightarrow> queue_ok cd cs (ts @ [(i, wire b)])"
  unfolding queue_ok_def by (fastforce simp: Ball_def)

text \<open>A new controller gets its one place.\<close>

lemma client_ok_grow:
  assumes "client_ok cs s" "\<And>d. places d s' = places d s + (if d = c then 1 else 0)"
    and "c \<notin> fst ` set cs" "c \<notin> fst ` set (m_rpc_calllifetime s)"
    and "\<And>d. d \<in> fst ` set cs' \<or> d \<in> fst ` set (m_rpc_calllifetime s')
      \<longleftrightarrow> d = c \<or> d \<in> fst ` set cs \<or> d \<in> fst ` set (m_rpc_calllifetime s)"
    and "chan_ok s' (length cs')" "\<forall>(i, d) \<in> set (m_pendings s'). fst (cs' ! unat i) = d"
  shows "client_ok cs' s'"
proof -
  have old: "places d s \<le> (if d \<in> fst ` set cs \<or> d \<in> fst ` set (m_rpc_calllifetime s) then 1 else 0)" for d
    using assms(1) by (simp add: client_ok_def)
  have "places d s' \<le> (if d \<in> fst ` set cs' \<or> d \<in> fst ` set (m_rpc_calllifetime s') then 1 else 0)" for d
    unfolding assms(2,5) using old [of d] assms(3,4) by (auto split: if_splits)
  then show ?thesis using assms(6,7) by (simp add: client_ok_def)
qed

lemma step_call:
  assumes laws: "codec_laws cd" and ok: "net_ok cd n"
    and c: "c \<notin> fst ` set (calls n)" "cd_typed cd mt req"
    and call: "call_async (cd_send cd) True mt c req (client n) = Inr (posted, s')"
    and len: "connected (client n) \<longrightarrow> length (calls n) < 2 ^ 64"
    and n': "n' = n\<lparr>client := s', calls := (if connected (client n) then calls n @ [(c, mt, req)] else calls n)\<rparr>"
  shows "net_ok cd n'"
proof -
  obtain bodies unsent where inv: "client_ok (calls n) (client n)" "queue_ok cd (calls n) (send_tasks (client n))"
    "streams_ok cd n bodies unsent" "server_ok n" "downlinks_ok cd n" "results_ok cd n" "once cd n bodies"
    "distinct (map fst (calls n))" by (rule net_okE [OF ok])
  let ?s = "client n" and ?cs = "calls n"
  have chan: "chan_ok ?s (length ?cs)" using inv(1) by (simp add: client_ok_def)
  note places = call_places [OF call chan len]
  show ?thesis
  proof (cases "connected ?s")
    case False
    note same = call_not_made [OF call False]
    show ?thesis
    proof (rule net_okI [of _ _ bodies unsent])
      show "client_ok (calls n') (client n')"
        by (rule client_ok_grow [OF inv(1) _ c(1) places(3)])
          (use inv(1) places same False in \<open>auto simp: n' client_ok_def\<close>)
      show "streams_ok cd n' bodies unsent" using inv(3) same by (simp add: n' streams_ok_def stream_at_def False)
      show "results_ok cd n'" using inv(6) same by (simp add: n' results_ok_def False)
      show "once cd n' bodies" by (rule onceI [OF inv(7)]) (simp_all add: n' uses_def False same)
    qed (use inv same False in \<open>simp_all add: n' server_ok_def downlinks_ok_def\<close>)
  next
    case True
    then have len: "length ?cs < 2 ^ 64" using len by simp
    obtain s: "m_pendings s' = (m_nextRequset_id ?s, c) # m_pendings ?s" "worker_tasks s' = worker_tasks ?s"
      "connected s'" "m_rpc_calllifetime s' = m_rpc_calllifetime ?s" "completions s' = completions ?s"
      "send_tasks s' = send_tasks ?s \<or> (\<exists>payload body. ser_request (cd_send cd) req = Some payload
        \<and> ser_frame (cd_send cd) \<lparr>rq_request_id = m_nextRequset_id ?s, rq_service_name = ''raftRpc'', rq_method_name = mt,
             rq_payload = payload\<rparr> = Some body
        \<and> send_tasks s' = send_tasks ?s @ [(m_nextRequset_id ?s, wire_frame (ser_size (cd_send cd)) body)])"
      by (rule call_made [OF call True chan len])
    let ?id = "m_nextRequset_id ?s" and ?cs' = "?cs @ [(c, mt, req)]"
    have calls': "calls n' = ?cs'" and client': "client n' = s'" using True by (simp_all add: n')
    have id: "unat ?id = length ?cs" using chan len by (simp add: chan_ok_def unsigned_of_nat take_bit_nat_eq_self_iff)
    have tasks: "send_tasks s' = send_tasks ?s \<or> (\<exists>b. send_tasks s' = send_tasks ?s @ [(?id, wire b)] \<and> frame_for cd ?cs' ?id b)"
    proof -
      have "frame_for cd ?cs' ?id body"
        if "ser_request (cd_send cd) req = Some payload" "ser_frame (cd_send cd) \<lparr>rq_request_id = ?id,
          rq_service_name = ''raftRpc'', rq_method_name = mt, rq_payload = payload\<rparr> = Some body" for payload body
        using that laws id c(2) by (auto simp: codec_laws_def frame_for_def asked_def nth_append)
      moreover have "wire_frame (ser_size (cd_send cd)) = wire" using laws wire_encoder by (simp add: codec_laws_def)
      ultimately show ?thesis using s(6) by auto
    qed
    show ?thesis
    proof (rule net_okI [of _ _ bodies unsent])
      have "\<forall>(i, d) \<in> set (m_pendings ?s). unat i < length ?cs" using chan by (force simp: chan_ok_def)
      then have "\<forall>(i, d) \<in> set (m_pendings s'). fst (?cs' ! unat i) = d"
        using inv(1) id unfolding s(1) client_ok_def by (auto simp: nth_append)
      then show "client_ok (calls n') (client n')"
        unfolding calls' client'
        by (intro client_ok_grow [OF inv(1) places(2) c(1) places(3)])
          (use places(1) True s(4) in auto)
      show "queue_ok cd (calls n') (send_tasks (client n'))"
        using tasks queue_ok_more [OF inv(2)] queue_ok_snoc unfolding calls' client' by metis
      have "stream_at cd n' bodies unsent k" if "stream_at cd n bodies unsent k" for k
        using that frames_more [of "bodies k" cd ?cs] unfolding stream_at_def calls' by (simp add: n')
      then show "streams_ok cd n' bodies unsent"
        using inv(3) True s(3) by (simp add: streams_ok_def client') (simp add: n')
      have "called ?cs i mt' rq \<Longrightarrow> called ?cs' i mt' rq" for i mt' rq by (rule called_more)
      then show "server_ok n'" using inv(4) unfolding server_ok_def calls' by (simp add: n') fast
      show "downlinks_ok cd n'" using inv(5) by (simp add: n' downlinks_ok_def)
      show "results_ok cd n'"
        using inv(6) s(2,5) answered_more(1) unfolding results_ok_def calls' client' by (fastforce simp: n')
      show "once cd n' bodies" unfolding once_def
      proof
        fix i
        have "uses cd n' bodies i \<le> uses cd n bodies i + (if i = ?id then 1 else 0)"
          using tasks by (auto simp: uses_def client') (simp_all add: n')
        moreover have "uses cd n bodies i \<le> (if unat i < length ?cs then 1 else 0)" using inv(7) by (simp add: once_def)
        moreover have "i = ?id \<longleftrightarrow> unat i = length ?cs" using id by (metis word_unat_eq_iff)
        ultimately show "uses cd n' bodies i \<le> (if unat i < length (calls n') then 1 else 0)"
          unfolding calls' by (auto split: if_splits)
      qed
      show "distinct (map fst (calls n'))" using inv(8) c(1) by (simp add: calls')
    qed
  qed
qed

lemma step_send:
  assumes ok: "net_ok cd n" and conn: "connected (client n)" and ts: "send_tasks (client n) = (i, data) # ts"
    and out: "sendAll 0 (length data) outs = Some (okay, sent)" and task: "send_task outs (client n) = Some s'"
    and n': "n' = n\<lparr>client := s', uplink := (uplink n)(connection n := uplink n (connection n) @ take sent data)\<rparr>"
  shows "net_ok cd n'"
proof -
  obtain bodies unsent where inv: "client_ok (calls n) (client n)" "queue_ok cd (calls n) (send_tasks (client n))"
    "streams_ok cd n bodies unsent" "server_ok n" "downlinks_ok cd n" "results_ok cd n" "once cd n bodies"
    "distinct (map fst (calls n))" by (rule net_okE [OF ok])
  let ?K = "connection n"
  obtain b where b: "data = wire b" "frame_for cd (calls n) i b" using inv(2) by (auto simp: queue_ok_def ts)
  have s': "send_tasks s' = ts" "client_keeps (client n) s'" "connected s' = okay"
    using send_task_cases [OF ts out task] conn by auto
  have chan: "chan_ok (client n) (length (calls n))" using inv(1) by (simp add: client_ok_def)
  let ?bodies = "bodies(?K := bodies ?K @ [b])" and ?unsent = "unsent(?K := drop sent data)"
  show ?thesis
  proof (rule net_okI [of _ _ ?bodies ?unsent])
    show "client_ok (calls n') (client n')"
      using client_keeps_ok [OF s'(2) inv(1)] send_task_ok [OF task chan] by (simp add: n')
    show "queue_ok cd (calls n') (send_tasks (client n'))" using inv(2) by (simp add: n' s' queue_ok_def ts)
    have at: "stream_at cd n bodies unsent k" if "k \<le> ?K" for k using inv(3) that by (simp add: streams_ok_def)
    have "unsent ?K = []" using inv(3) conn by (simp add: streams_ok_def)
    then have eq: "server_buffer n ?K @ uplink n ?K = concat (map wire (bodies ?K))"
      using at [of ?K] by (simp add: stream_at_def)
    have "server_buffer n ?K @ (uplink n ?K @ take sent data) @ drop sent data = concat (map wire (bodies ?K)) @ wire b"
      using eq by (metis append.assoc append_take_drop_id b(1))
    then have "stream_at cd n' ?bodies ?unsent k" if "k \<le> ?K" for k
      using at [OF that] b(2) by (cases "k = ?K") (auto simp: stream_at_def n')
    moreover have "okay \<Longrightarrow> drop sent data = []" using sendAll_all out by auto
    ultimately show "streams_ok cd n' ?bodies ?unsent" by (simp add: streams_ok_def n' s'(3))
    show "results_ok cd n'" by (rule results_kept [OF _ inv(6)]) (use s'(2) in \<open>simp_all add: n'\<close>)
    show "once cd n' ?bodies"
    proof (rule onceI [OF inv(7)])
      fix j
      show "uses cd n' ?bodies j \<le> uses cd n bodies j"
        using sum_update [of ?K ?K "\<lambda>x. count_list (map (body_id cd) x) j" bodies "bodies ?K @ [b]"] frame_for_id [OF b(2)]
        by (simp add: uses_def ts) (simp add: n' s'(1) split: if_splits)
    qed (simp add: n')
  qed (use inv in \<open>simp_all add: n' server_ok_def downlinks_ok_def\<close>)
qed

lemma step_client:
  assumes ok: "net_ok cd n" and keeps: "client_keeps (client n) s'" and conn: "connected s' \<longrightarrow> connected (client n)"
    and ts: "suffix (send_tasks s') (send_tasks (client n))"
    and chan: "\<And>c. chan_ok s' (length (calls n)) \<and> places c s' = places c (client n)"
    and n': "n' = n\<lparr>client := s'\<rparr>"
  shows "net_ok cd n'"
proof -
  obtain bodies unsent where inv: "client_ok (calls n) (client n)" "queue_ok cd (calls n) (send_tasks (client n))"
    "streams_ok cd n bodies unsent" "server_ok n" "downlinks_ok cd n" "results_ok cd n" "once cd n bodies"
    "distinct (map fst (calls n))" by (rule net_okE [OF ok])
  obtain zs where zs: "send_tasks (client n) = zs @ send_tasks s'" using ts by (auto simp: suffix_def)
  show ?thesis
  proof (rule net_okI [of _ _ bodies unsent])
    show "client_ok (calls n') (client n')" using client_keeps_ok [OF keeps inv(1)] chan by (simp add: n')
    show "queue_ok cd (calls n') (send_tasks (client n'))" using inv(2) by (simp add: n' queue_ok_def zs)
    show "streams_ok cd n' bodies unsent" using inv(3) conn by (simp add: n' streams_ok_def stream_at_def)
    show "results_ok cd n'" by (rule results_kept [OF _ inv(6)]) (use keeps in \<open>simp_all add: n'\<close>)
    show "once cd n' bodies" by (rule onceI [OF inv(7)]) (simp_all add: n' uses_def zs)
  qed (use inv in \<open>simp_all add: n' server_ok_def downlinks_ok_def\<close>)
qed

lemma step_send_closed:
  assumes ok: "net_ok cd n" and conn: "\<not> connected (client n)" and task: "send_task [Send_error] (client n) = Some s'"
  shows "net_ok cd (n\<lparr>client := s'\<rparr>)"
proof -
  have chan: "chan_ok (client n) (length (calls n))" by (rule net_okE [OF ok]) (simp add: client_ok_def)
  show ?thesis
  proof (rule step_client [OF ok _ _ _ send_task_ok [OF task chan] refl])
    show "client_keeps (client n) s'" "connected s' \<longrightarrow> connected (client n)" "suffix (send_tasks s') (send_tasks (client n))"
      using task conn
      by (auto simp: send_task_def client_keeps_def closeCurrentFd_def failAllPending_eq Let_def suffix_def
          split: list.splits option.splits prod.splits if_splits)
  qed
qed

lemma step_disconnect:
  assumes ok: "net_ok cd n" and round: "recvLoop_round parse retry connects evs (client n) = Some (s', evs')"
    and lost: "\<not> connected s'"
  shows "net_ok cd (n\<lparr>client := s'\<rparr>)"
proof -
  have chan: "chan_ok (client n) (length (calls n))" by (rule net_okE [OF ok]) (simp add: client_ok_def)
  show ?thesis
    by (rule step_client [OF ok _ _ _ recvLoop_round_ok [OF round chan] refl])
      (use lost_round [OF round lost] lost in \<open>simp_all add: suffix_def\<close>)
qed

lemma step_deliver:
  assumes laws: "codec_laws cd" and ok: "net_ok cd n" and k: "k \<le> connection n" and up: "uplink n k = x @ y"
    and msg: "OnMessage (cd_parse cd) m (server_buffer n k @ x) = (acts, rest)"
    and n': "n' = n\<lparr>uplink := (uplink n)(k := y), server_buffer := (server_buffer n)(k := rest),
       tasks := tasks n @ map (Pair k) acts\<rparr>"
  shows "net_ok cd n'"
proof -
  obtain bodies unsent where inv: "client_ok (calls n) (client n)" "queue_ok cd (calls n) (send_tasks (client n))"
    "streams_ok cd n bodies unsent" "server_ok n" "downlinks_ok cd n" "results_ok cd n" "once cd n bodies"
    "distinct (map fst (calls n))" by (rule net_okE [OF ok])
  have at: "stream_at cd n bodies unsent k" using inv(3) k by (simp add: streams_ok_def)
  obtain bs bs' where b: "bodies k = bs @ bs'" "rest @ y @ unsent k = concat (map wire bs')"
    "\<forall>a \<in> set acts. \<exists>i sv mt req. a = Call i sv mt req \<and> called (calls n) i mt req"
    "\<And>i. count_list (map action_id (map (Pair k) acts)) i \<le> count_list (map (body_id cd) bs) i"
    by (rule deliver_frames [OF laws at up msg]) (rule that)
  let ?bodies = "bodies(k := bs')"
  show ?thesis
  proof (rule net_okI [of _ _ ?bodies unsent])
    show "streams_ok cd n' ?bodies unsent"
      using inv(3) b(1,2) k by (simp add: streams_ok_def stream_at_def n')
    have "\<forall>t \<in> set (map (Pair k) acts). \<exists>i sv mt req. snd t = Call i sv mt req \<and> called (calls n) i mt req"
      using b(3) by simp
    then show "server_ok n'" using inv(4) by (auto simp: server_ok_def n')
    show "once cd n' ?bodies"
    proof (rule onceI [OF inv(7)])
      fix j
      show "uses cd n' ?bodies j \<le> uses cd n bodies j"
        using sum_update [OF k, of "\<lambda>x. count_list (map (body_id cd) x) j" bodies bs'] b(4) [of j] b(1)
        by (simp add: uses_def n' del: map_map)
    qed (simp add: n')
  qed (use inv in \<open>simp_all add: n' downlinks_ok_def results_ok_def\<close>)
qed

lemma step_run:
  assumes ok: "net_ok cd n" and ts: "tasks n = ts @ (k, Call i sv mt req) # ts'"
    and n': "n' = n\<lparr>tasks := ts @ ts', server := srv, answers := answers n @ [(k, i, rsp)],
       executions := executions n @ [(i, mt, req, rsp)]\<rparr>"
  shows "net_ok cd n'"
proof -
  obtain bodies unsent where inv: "client_ok (calls n) (client n)" "queue_ok cd (calls n) (send_tasks (client n))"
    "streams_ok cd n bodies unsent" "server_ok n" "downlinks_ok cd n" "results_ok cd n" "once cd n bodies"
    "distinct (map fst (calls n))" by (rule net_okE [OF ok])
  show ?thesis
  proof (rule net_okI [of _ _ bodies unsent])
    have "called (calls n) i mt req" using inv(4) by (auto simp: server_ok_def ts)
    then show "server_ok n'" using inv(4) by (auto simp: server_ok_def ts n') blast+
    have "reply_body cd (executions n @ [x]) b" if "reply_body cd (executions n) b" for x b
      using that reply_for_more unfolding reply_body_def by blast
    then show "downlinks_ok cd n'" using inv(5) unfolding downlinks_ok_def by (simp add: n') blast
    show "results_ok cd n'" using inv(6) answered_more(2) unfolding results_ok_def by (simp add: n') blast
    show "once cd n' bodies" by (rule onceI [OF inv(7)]) (simp_all add: n' uses_def ts action_id_def)
  qed (use inv in \<open>simp_all add: n' streams_ok_def stream_at_def\<close>)
qed

lemma step_respond:
  assumes laws: "codec_laws cd" and ok: "net_ok cd n" and ans: "answers n = as @ (k, i, rsp) # as'"
    and sent: "sent = SendRpcResponse (ser_size (cd_send cd)) (cd_ser_response cd) (cd_ser_frame cd) i rsp"
    and n': "n' = n\<lparr>answers := as @ as',
       downlink := (downlink n)(k := downlink n k @ (case sent of None \<Rightarrow> [] | Some bytes \<Rightarrow> bytes))\<rparr>"
  shows "net_ok cd n'"
proof -
  obtain bodies unsent where inv: "client_ok (calls n) (client n)" "queue_ok cd (calls n) (send_tasks (client n))"
    "streams_ok cd n bodies unsent" "server_ok n" "downlinks_ok cd n" "results_ok cd n" "once cd n bodies"
    "distinct (map fst (calls n))" by (rule net_okE [OF ok])
  obtain mt req where e: "(i, mt, req, rsp) \<in> set (executions n)" using inv(4) by (auto simp: server_ok_def ans)
  obtain bs where bs: "downlink n k = concat (map wire bs)" "\<forall>b \<in> set bs. reply_body cd (executions n) b"
    using inv(5) by (auto simp: downlinks_ok_def)
  have "\<exists>bs'. downlink n' k = concat (map wire bs') \<and> (\<forall>b \<in> set bs'. reply_body cd (executions n) b)"
  proof (cases rule: response_body [OF laws e])
    case 1
    then show ?thesis using bs by (auto simp: n' sent)
  next
    case (2 b)
    then show ?thesis using bs by (intro exI [of _ "bs @ [b]"]) (simp add: n' sent)
  qed
  moreover have "downlink n' j = downlink n j" if "j \<noteq> k" for j using that by (simp add: n')
  moreover have "executions n' = executions n" by (simp add: n')
  ultimately have "downlinks_ok cd n'" using inv(5) unfolding downlinks_ok_def by metis
  then show ?thesis
    by (rule net_okI [of _ _ bodies unsent, rotated 4])
      (use inv in \<open>auto simp: n' streams_ok_def stream_at_def server_ok_def ans results_ok_def once_def uses_def\<close>)
qed

lemma step_receive:
  assumes ok: "net_ok cd n" and conn: "connected (client n)" and down: "downlink n (connection n) = bytes_of evs"
    and healthy: "healthy True evs"
    and round: "recvLoop_round (cd_parse_frame cd) retry connects evs (client n) = Some (s', evs')"
    and n': "n' = n\<lparr>client := s', downlink := (downlink n)(connection n := bytes_of evs')\<rparr>"
  shows "net_ok cd n'"
proof -
  obtain bodies unsent where inv: "client_ok (calls n) (client n)" "queue_ok cd (calls n) (send_tasks (client n))"
    "streams_ok cd n bodies unsent" "server_ok n" "downlinks_ok cd n" "results_ok cd n" "once cd n bodies"
    "distinct (map fst (calls n))" by (rule net_okE [OF ok])
  obtain bs where bs: "bytes_of evs = concat (map wire bs)" "\<forall>b \<in> set bs. reply_body cd (executions n) b"
    using inv(5) down by (metis downlinks_ok_def)
  have "\<forall>b \<in> set bs. body_ok b \<and> cd_parse_frame cd b \<noteq> None" using bs(2) by (auto simp: reply_body_def)
  from receive_answer [OF conn bs(1) healthy this round] obtain b bs' f where
    r: "bs = b # bs'" "cd_parse_frame cd b = Some f" "s' = completeResponse f (client n)"
      "bytes_of evs' = concat (map wire bs')" by blast
  have f: "reply_for cd (executions n) (rs_request_id f) (rs_payload f)"
    using bs(2) r(1,2) by (auto simp: reply_body_def)
  have chan: "chan_ok (client n) (length (calls n))" using inv(1) by (simp add: client_ok_def)
  have s': "send_tasks s' = send_tasks (client n)" "connected s' = connected (client n)"
    "completions s' = completions (client n)" "m_rpc_calllifetime s' = m_rpc_calllifetime (client n)"
    "set (m_pendings s') \<subseteq> set (m_pendings (client n))"
    unfolding r(3) by (auto simp: completeResponse_def split: option.split dest: in_delete)
  have work: "answered cd (calls n) (executions n) c p" if "(c, p) \<in> set (worker_tasks s')" for c p
  proof (cases "(c, p) \<in> set (worker_tasks (client n))")
    case True
    then show ?thesis using inv(6) by (auto simp: results_ok_def)
  next
    case False
    then have "map_of (m_pendings (client n)) (rs_request_id f) = Some c" "p = rs_payload f"
      using that unfolding r(3) by (auto simp: completeResponse_def split: option.splits)
    then have "(rs_request_id f, c) \<in> set (m_pendings (client n))" "p = rs_payload f" by (auto dest: map_of_SomeD)
    moreover from this have "unat (rs_request_id f) < length (calls n)" using chan by (force simp: chan_ok_def)
    ultimately show ?thesis using inv(1) f by (auto simp: client_ok_def answered_def)
  qed
  show ?thesis
  proof (rule net_okI [of _ _ bodies unsent])
    show "client_ok (calls n') (client n')"
      using inv(1) completeResponse_ok [OF chan, of f] s'(4,5) by (auto simp: n' r(3) client_ok_def)
    have "downlink n' j = downlink n j \<or> downlink n' j = concat (map wire bs')" for j using r(4) by (auto simp: n')
    moreover have "\<forall>b \<in> set bs'. reply_body cd (executions n) b" using bs(2) r(1) by simp
    moreover have "executions n' = executions n" by (simp add: n')
    ultimately show "downlinks_ok cd n'" using inv(5) unfolding downlinks_ok_def by metis
    show "results_ok cd n'" using inv(6) work s'(3) unfolding results_ok_def by (simp add: n') blast
  qed (use inv s' in \<open>simp_all add: n' streams_ok_def stream_at_def server_ok_def once_def uses_def\<close>)
qed

lemma step_reconnect:
  assumes ok: "net_ok cd n"
    and n': "n' = n\<lparr>client := (client n)\<lparr>connected := True\<rparr>, connection := connection n + 1,
       uplink := (uplink n)(connection n + 1 := []), server_buffer := (server_buffer n)(connection n + 1 := []),
       downlink := (downlink n)(connection n + 1 := [])\<rparr>"
  shows "net_ok cd n'"
proof -
  obtain bodies unsent where inv: "client_ok (calls n) (client n)" "queue_ok cd (calls n) (send_tasks (client n))"
    "streams_ok cd n bodies unsent" "server_ok n" "downlinks_ok cd n" "results_ok cd n" "once cd n bodies"
    "distinct (map fst (calls n))" by (rule net_okE [OF ok])
  let ?K = "connection n + 1"
  let ?bodies = "bodies(?K := [])" and ?unsent = "unsent(?K := [])"
  show ?thesis
  proof (rule net_okI [of _ _ ?bodies ?unsent])
    show "client_ok (calls n') (client n')" using inv(1) by (simp add: n' client_ok_def chan_ok_def places_def)
    show "streams_ok cd n' ?bodies ?unsent" using inv(3) by (auto simp: n' streams_ok_def stream_at_def le_Suc_eq)
    have "downlink n' j = downlink n j \<or> downlink n' j = concat (map wire [])" for j by (simp add: n')
    moreover have "executions n' = executions n" by (simp add: n')
    ultimately show "downlinks_ok cd n'" using inv(5) unfolding downlinks_ok_def by (metis empty_iff list.set(1))
    have "(\<Sum>k \<le> connection n. count_list (map (body_id cd) (?bodies k)) i)
        = (\<Sum>k \<le> connection n. count_list (map (body_id cd) (bodies k)) i)" for i
      by (rule sum.cong) auto
    then show "once cd n' ?bodies" by (intro onceI [OF inv(7)]) (simp_all add: n' uses_def)
  qed (use inv in \<open>simp_all add: n' server_ok_def results_ok_def\<close>)
qed

lemma step_worker:
  assumes ok: "net_ok cd n" and ws: "worker_tasks (client n) = (c, payload) # ws"
    and n': "n' = n\<lparr>client := worker_task parses (client n),
       results := (if parses c payload then results n @ [(c, payload)] else results n)\<rparr>"
  shows "net_ok cd n'"
proof -
  obtain bodies unsent where inv: "client_ok (calls n) (client n)" "queue_ok cd (calls n) (send_tasks (client n))"
    "streams_ok cd n bodies unsent" "server_ok n" "downlinks_ok cd n" "results_ok cd n" "once cd n bodies"
    "distinct (map fst (calls n))" by (rule net_okE [OF ok])
  have chan: "chan_ok (client n) (length (calls n))" using inv(1) by (simp add: client_ok_def)
  let ?s = "worker_task parses (client n)"
  have s: "worker_tasks ?s = ws" "map fst (completions ?s) = map fst (completions (client n)) @ [c]"
    "m_pendings ?s = m_pendings (client n)" "m_rpc_calllifetime ?s = m_rpc_calllifetime (client n)"
    "send_tasks ?s = send_tasks (client n)" "connected ?s = connected (client n)"
    by (simp_all add: worker_task_def ws run_done_def SetFailed_def Let_def)
  show ?thesis
  proof (rule net_okI [of _ _ bodies unsent])
    show "client_ok (calls n') (client n')"
      using inv(1) worker_task_ok [OF chan, of parses] by (simp add: n' client_ok_def s)
    have "count_list (map fst (results n)) d \<le> count_list (map fst (completions (client n))) d" for d
      using inv(6) by (simp add: results_ok_def)
    then show "results_ok cd n'" using inv(6) by (auto simp: results_ok_def n' s ws trans_le_add1)
  qed (use inv in \<open>simp_all add: n' s streams_ok_def stream_at_def server_ok_def downlinks_ok_def once_def uses_def\<close>)
qed

section \<open>Runs\<close>

lemma net_step_ok:
  assumes "net_step cd m run n n'" "codec_laws cd" "net_ok cd n" "length (calls n') \<le> 2 ^ 64"
  shows "net_ok cd n'"
  using assms(1)
proof (cases rule: net_step.cases)
  case (net_call c mt req posted s')
  have "connected (client n) \<longrightarrow> length (calls n) < 2 ^ 64" using assms(4) net_call(1) by auto
  then show ?thesis using step_call [OF assms(2,3) net_call(2-4) _ net_call(1)] by blast
next
  case (net_send i data ts outs okay sent s')
  then show ?thesis using step_send [OF assms(3)] by blast
next
  case (net_send_closed s')
  then show ?thesis using step_send_closed [OF assms(3)] by blast
next
  case (net_deliver k x y acts rest)
  then show ?thesis using step_deliver [OF assms(2,3)] by blast
next
  case (net_run ts k i sv mt req ts' srv rsp)
  then show ?thesis using step_run [OF assms(3)] by blast
next
  case (net_respond as k i rsp as' sent)
  then show ?thesis using step_respond [OF assms(2,3)] by blast
next
  case (net_internal srv)
  then show ?thesis
    using assms(3)
    by (simp add: net_ok_def streams_ok_def stream_at_def server_ok_def downlinks_ok_def results_ok_def once_def uses_def)
next
  case (net_receive evs retry connects s' evs')
  then show ?thesis using step_receive [OF assms(3)] by blast
next
  case (net_lose retry connects evs s' evs')
  then show ?thesis using step_disconnect [OF assms(3)] by blast
next
  case (net_reconnect retry connects)
  then show ?thesis using step_reconnect [OF assms(3)] by blast
next
  case (net_worker c payload ws parses)
  then show ?thesis using step_worker [OF assms(3)] by blast
qed

lemma new_net_ok: "net_ok cd (new_net conn srv)"
  by (rule net_okI [of _ _ "\<lambda>_. []" "\<lambda>_. []"])
    (auto simp: new_net_def new_channel_def client_ok_def chan_ok_def places_def queue_ok_def streams_ok_def stream_at_def
      server_ok_def downlinks_ok_def results_ok_def once_def uses_def intro!: exI [of _ "[]"])

lemma net_step_more: "net_step cd m run n n' \<Longrightarrow> length (calls n) \<le> length (calls n')"
  by (erule net_step.cases) auto

lemma net_runs_ok:
  assumes "(net_step cd m run)\<^sup>*\<^sup>* (new_net conn srv) n" "codec_laws cd" "length (calls n) \<le> 2 ^ 64"
  shows "net_ok cd n"
  using assms(1,3)
proof (induction rule: rtranclp_induct)
  case base
  show ?case by (rule new_net_ok)
next
  case (step n n')
  then have "net_ok cd n" using net_step_more order_trans by blast
  then show ?case using net_step_ok [OF step(2) assms(2)] step by blast
qed

text \<open>What was executed is what the service answers.\<close>

lemma executions_run:
  assumes "(net_step cd m run)\<^sup>*\<^sup>* (new_net conn srv) n"
  shows "\<forall>(i, mt, req, rsp) \<in> set (executions n). \<exists>r r'. run mt req r r' rsp"
  using assms
proof (induction rule: rtranclp_induct)
  case base
  then show ?case by (simp add: new_net_def)
next
  case (step n n')
  from step(2) have "executions n' = executions n
      \<or> (\<exists>i mt req rsp r r'. executions n' = executions n @ [(i, mt, req, rsp)] \<and> run mt req r r' rsp)"
    by (cases rule: net_step.cases) auto
  then show ?case
  proof
    assume "executions n' = executions n"
    then show ?thesis using step.IH by simp
  next
    assume "\<exists>i mt req rsp r r'. executions n' = executions n @ [(i, mt, req, rsp)] \<and> run mt req r r' rsp"
    then obtain i mt req rsp where "executions n' = executions n @ [(i, mt, req, rsp)]" "\<exists>r r'. run mt req r r' rsp" by blast
    then show ?thesis using step.IH by (simp add: ball_Un)
  qed
qed

lemma count_distinct: "(\<And>x. count_list xs x \<le> 1) \<Longrightarrow> distinct xs"
proof (induction xs)
  case (Cons y ys)
  have "count_list ys x \<le> 1" for x using Cons.prems [of x] by (auto split: if_splits)
  moreover have "count_list ys y = 0" using Cons.prems [of y] by simp
  ultimately show ?case using Cons.IH by (simp add: count_list_0_iff)
qed simp

text \<open>
  What the bound on the frames excludes. Nothing limits what the client sends, and a heartbeat has all the
  entries a peer lacks: a frame that is too long makes the server shut the connection down.
\<close>

lemma long_frame_shuts_down:
  assumes "max_frame < length body" "length body < 2 ^ 32"
  shows "OnMessage ps m (wire body @ rest) = ([Shutdown], wire body @ rest)"
proof -
  let ?v = "word_of_nat (length body) :: u32"
  have v: "unat ?v = length body" using assms(2) by (simp add: unsigned_of_nat take_bit_nat_eq_self_iff)
  then have "kMaxFrameSize < ?v" using assms(1) by (simp add: word_less_nat_alt kMaxFrameSize_def max_frame_def)
  then show ?thesis by (subst OnMessage.simps) (simp add: wire_frame_def TryRead_append)
qed

section \<open>Properties\<close>


end
