(* ===== verification/Raft_Rpc.thy ===== *)
theory Raft_Rpc
  imports Rpc_Net Raft_Snapshot
begin

text \<open>
  A raft node behind the protocol: the service \<open>raftRpc\<close> of src/proto/raftRPC.proto with the entry
  points src/raft/raft.cc gives it, and the waiting forms of its own calls.
\<close>

section \<open>The service\<close>

datatype raft_request =
  Append_request AppendEntriesArgs | Snapshot_request InstallSnapshotRequest | Vote_request RequestVoteArgs

datatype raft_response =
  Append_response AppendEntriesReply | Snapshot_response InstallSnapshotResponse | Vote_response RequestVoteReply

text \<open>
  The entry points: the handler, and then the closure, which sends the response. The time is an
  argument, and for \<open>AppendEntries\<close> whether its entries become stable.
\<close>

definition RequestVote_rpc :: "int \<Rightarrow> RequestVoteArgs \<Rightarrow> raft \<Rightarrow> (raft \<times> raft_response) result" where
  "RequestVote_rpc now request r =
     rbind (RequestVote now request r) (\<lambda>(r', response). Inr (r', Vote_response response))"

definition AppendEntries_rpc :: "int \<Rightarrow> bool \<Rightarrow> AppendEntriesArgs \<Rightarrow> raft \<Rightarrow> (raft \<times> raft_response) result" where
  "AppendEntries_rpc now is_stable request r =
     rbind (AppendEntries now request is_stable r) (\<lambda>(r', response). Inr (r', Append_response response))"

definition InstallSnapshot_rpc :: "int \<Rightarrow> InstallSnapshotRequest \<Rightarrow> raft \<Rightarrow> (raft \<times> raft_response) result" where
  "InstallSnapshot_rpc now request r =
     rbind (InstallSnapshot now request r) (\<lambda>(r', response). Inr (r', Snapshot_response response))"

text \<open>The service calls the entry point of the method; each has its type of request.\<close>

fun raft_typed :: "string \<Rightarrow> raft_request \<Rightarrow> bool" where
  "raft_typed mt (Append_request _) \<longleftrightarrow> mt = ''AppendEntries''"
| "raft_typed mt (Snapshot_request _) \<longleftrightarrow> mt = ''InstallSnapshot''"
| "raft_typed mt (Vote_request _) \<longleftrightarrow> mt = ''RequestVote''"

fun raft_CallMethod :: "int \<Rightarrow> bool \<Rightarrow> raft_request \<Rightarrow> raft \<Rightarrow> (raft \<times> raft_response) result" where
  "raft_CallMethod now is_stable (Append_request a) r = AppendEntries_rpc now is_stable a r"
| "raft_CallMethod now is_stable (Snapshot_request a) r = InstallSnapshot_rpc now a r"
| "raft_CallMethod now is_stable (Vote_request a) r = RequestVote_rpc now a r"

definition raft_serves :: "string \<Rightarrow> raft_request \<Rightarrow> raft \<Rightarrow> raft \<Rightarrow> raft_response \<Rightarrow> bool" where
  "raft_serves mt request r r' response \<longleftrightarrow> raft_typed mt request
     \<and> (\<exists>now is_stable. raft_CallMethod now is_stable request r = Inr (r', response))"

definition raft_services :: service_map where
  "raft_services = NotifyService ''raftRpc'' [''AppendEntries'', ''InstallSnapshot'', ''RequestVote''] (\<lambda>_. None)"

section \<open>The waiting calls\<close>

text \<open>
  \<open>sendRequestVote\<close> and \<open>sendAppendEntries\<close>: the waiting call of the peer's stub, and then the callback
  with its status. \<open>reply\<close> is the message the call leaves; a refused call leaves it as it was made.
\<close>

definition sendRequestVote ::
  "'req serializers \<Rightarrow> ctl \<Rightarrow> RequestVoteArgs \<Rightarrow> RequestVoteReply \<Rightarrow> int \<Rightarrow> 'req multi_channel \<Rightarrow> raft \<Rightarrow>
   (bool \<times> 'req multi_channel \<times> raft \<times> int) result" where
  "sendRequestVote sz c args reply votedNum peer r =
     (case call_sync sz ''RequestVote'' c peer of (status, peer') \<Rightarrow>
        rbind (handleRequestVoteResponse args reply votedNum status r) (\<lambda>(r', votedNum').
        Inr (status, peer', r', votedNum')))"

definition sendAppendEntries ::
  "'req serializers \<Rightarrow> ctl \<Rightarrow> int \<Rightarrow> AppendEntriesArgs \<Rightarrow> AppendEntriesReply \<Rightarrow> int \<Rightarrow> 'req multi_channel \<Rightarrow> raft \<Rightarrow>
   (bool \<times> 'req multi_channel \<times> raft \<times> int) result" where
  "sendAppendEntries sz c i args reply appendNum peer r =
     (case call_sync sz ''AppendEntries'' c peer of (status, peer') \<Rightarrow>
        rbind (handleAppendEntries i args reply appendNum status r) (\<lambda>(r', appendNum').
        Inr (status, peer', r', appendNum')))"

text \<open>The controller of a waiting call is on the stack and nobody registers it: such a call never gets through.\<close>

lemma waiting_calls_do_nothing:
  assumes "c \<notin> fst ` set (m_rpc_calllifetime peer)"
  shows "\<exists>peer'. sendRequestVote sz c rv_args rv_reply votes peer r = Inr (False, peer', r, votes)
      \<and> send_tasks peer' = send_tasks peer"
    "\<exists>peer'. sendAppendEntries sz c i ae_args ae_reply appends peer r = Inr (False, peer', r, appends)
      \<and> send_tasks peer' = send_tasks peer"
proof -
  have "handleRequestVoteResponse rv_args rv_reply votes False r = Inr (r, votes)"
    "handleAppendEntries i ae_args ae_reply appends False r = Inr (r, appends)"
    by (simp_all add: handleRequestVoteResponse_def handleAppendEntries_def)
  moreover have "\<exists>p. call_sync sz mt c peer = (False, p) \<and> send_tasks p = send_tasks peer" for mt
    using call_sync_refused [OF assms, of sz mt] by (cases "call_sync sz mt c peer") auto
  then obtain p q where "call_sync sz ''RequestVote'' c peer = (False, p)" "send_tasks p = send_tasks peer"
    "call_sync sz ''AppendEntries'' c peer = (False, q)" "send_tasks q = send_tasks peer" by metis
  ultimately show "\<exists>peer'. sendRequestVote sz c rv_args rv_reply votes peer r = Inr (False, peer', r, votes)
      \<and> send_tasks peer' = send_tasks peer"
    "\<exists>peer'. sendAppendEntries sz c i ae_args ae_reply appends peer r = Inr (False, peer', r, appends)
      \<and> send_tasks peer' = send_tasks peer"
    by (simp_all add: sendRequestVote_def sendAppendEntries_def)
qed

text \<open>
  The witness: a candidate asks a fresh node for its vote. The frames are bytes of an encoding that
  knows the messages of this call; the answer arrives in two pieces.
\<close>

definition sample_vote :: raft_request where
  "sample_vote = Vote_request \<lparr>rv_term = 1, rv_candidateid = 2, rv_lastlogindex = 0, rv_lastlogterm = 0\<rparr>"

definition sample_frame :: RpcRequestFrame where
  "sample_frame = \<lparr>rq_request_id = 0, rq_service_name = ''raftRpc'', rq_method_name = ''RequestVote'', rq_payload = [9]\<rparr>"

definition sample_codec :: "(raft_request, raft_response) codec" where
  "sample_codec = \<lparr>
     cd_send = \<lparr>ser_request = (\<lambda>req. if req = sample_vote then Some [9] else None),
       ser_frame = (\<lambda>f. if f = sample_frame then Some [1] else None), ser_size = appendVarint32\<rparr>,
     cd_parse = \<lparr>parse_frame = (\<lambda>b. if b = [1] then Some sample_frame else None),
       parse_request = (\<lambda>_ _ p. if p = [9] then Some sample_vote else None)\<rparr>,
     cd_ser_response = (\<lambda>rsp. case rsp of Vote_response rep \<Rightarrow> Some [if rvr_votegranted rep then 7 else 8] | _ \<Rightarrow> None),
     cd_ser_frame = (\<lambda>f. if f = \<lparr>rs_request_id = 0, rs_payload = [7]\<rparr> then Some [2] else None),
     cd_parse_frame = (\<lambda>b. if b = [2] then Some \<lparr>rs_request_id = 0, rs_payload = [7]\<rparr> else None),
     cd_typed = raft_typed\<rparr>"

lemma sample_codec_laws: "codec_laws sample_codec"
  by (simp add: codec_laws_def sample_codec_def varint_encoder_def body_ok_def max_frame_def)

lemma sample_wires: "wire [1] = [1, 1]" "wire [2] = [1, 2]"
  by (simp_all add: wire_frame_def appendVarint32.simps word_le_nat_alt)


end
