(* ===== verification/Wal_Format.thy ===== *)
theory Wal_Format
  imports Raft_State
begin

text \<open>
  The bytes of a write-ahead-log segment (src/persist/Persister.cc): a packed 24 byte header
  followed by the serialized entry, again and again, and \<open>ReadWalSegment\<close>, which reads them back up
  to the first record that is cut or damaged.

  The entry's own encoding is the protocol buffers library's; it is a parameter: \<open>ser\<close> stands for
  \<open>SerializePartialToString\<close> and \<open>parse\<close> for \<open>ParseFromString\<close>.
\<close>

section \<open>Header\<close>

record WalEntryHeader =
  log_index :: u64
  log_term :: u64
  log_size :: u32
  command_crc :: u32

text \<open>The memory of an unsigned integer of \<open>k\<close> bytes on a little-endian machine.\<close>

fun le_bytes :: "nat \<Rightarrow> nat \<Rightarrow> u8 list" where
  "le_bytes 0 n = []"
| "le_bytes (Suc k) n = of_nat (n mod 256) # le_bytes k (n div 256)"

fun le_nat :: "u8 list \<Rightarrow> nat" where
  "le_nat [] = 0"
| "le_nat (b # bs) = unat b + 256 * le_nat bs"

definition header_bytes :: "WalEntryHeader \<Rightarrow> u8 list" where
  "header_bytes h = le_bytes 8 (unat (log_index h)) @ le_bytes 8 (unat (log_term h))
     @ le_bytes 4 (unat (log_size h)) @ le_bytes 4 (unat (command_crc h))"

definition header_of :: "u8 list \<Rightarrow> WalEntryHeader" where
  "header_of bs = \<lparr>log_index = of_nat (le_nat (take 8 bs)),
     log_term = of_nat (le_nat (take 8 (drop 8 bs))),
     log_size = of_nat (le_nat (take 4 (drop 16 bs))),
     command_crc = of_nat (le_nat (take 4 (drop 20 bs)))\<rparr>"

definition entry_header :: "LogEntry \<Rightarrow> u8 list \<Rightarrow> WalEntryHeader" where
  "entry_header e body = \<lparr>log_index = word_of_int (logindex e), log_term = word_of_int (logterm e),
     log_size = of_nat (length body), command_crc = 0\<rparr>"

definition entry_bytes :: "(LogEntry \<Rightarrow> u8 list) \<Rightarrow> LogEntry \<Rightarrow> u8 list" where
  "entry_bytes ser e = header_bytes (entry_header e (ser e)) @ ser e"

definition segment_bytes :: "(LogEntry \<Rightarrow> u8 list) \<Rightarrow> LogEntry list \<Rightarrow> u8 list" where
  "segment_bytes ser es = concat (map (entry_bytes ser) es)"

section \<open>Reading a segment\<close>

text \<open>The conversion of an unsigned 64 bit value to \<open>int32_t\<close>.\<close>

definition to_i32 :: "u64 \<Rightarrow> int" where
  "to_i32 w = sint (ucast w :: u32)"

text \<open>
  The loop of \<open>ReadWalSegment\<close> on the bytes that are left: the entries past the snapshot and the
  number of bytes of the records read.
\<close>

function read_records :: "(u8 list \<Rightarrow> LogEntry option) \<Rightarrow> u64 \<Rightarrow> u8 list \<Rightarrow> LogEntry list \<times> nat" where
  "read_records parse snapshotIndex bs =
     (if length bs < 24 then ([], 0)
      else
        let header = header_of (take 24 bs) in
        if log_size header = 0 \<or> log_size header > 16 * 1024 * 1024 then ([], 0)
        else
          let body = take (unat (log_size header)) (drop 24 bs) in
          if length body < unat (log_size header) then ([], 0)
          else case parse body of
            None \<Rightarrow> ([], 0)
          | Some entry \<Rightarrow>
              if logindex entry \<noteq> to_i32 (log_index header) \<or> logterm entry \<noteq> to_i32 (log_term header)
              then ([], 0)
              else
                let entrySize = 24 + unat (log_size header);
                    (logs, offset) = read_records parse snapshotIndex (drop entrySize bs) in
                ((if log_index header > snapshotIndex then entry # logs else logs), entrySize + offset))"
  by pat_completeness auto
termination
  by (relation "measure (\<lambda>(p, s, bs). length bs)") auto

declare read_records.simps [simp del]

text \<open>The file's new content, the entries, and the valid length; the file is cut to it.\<close>

definition ReadWalSegment ::
  "(u8 list \<Rightarrow> LogEntry option) \<Rightarrow> u64 \<Rightarrow> u8 list \<Rightarrow> u8 list \<times> LogEntry list \<times> nat" where
  "ReadWalSegment parse snapshotIndex content =
     (case read_records parse snapshotIndex content of
        (logs, offset) \<Rightarrow> (take offset content, logs, offset))"

section \<open>Shared lemmas\<close>

lemma length_le_bytes [simp]: "length (le_bytes k n) = k"
  by (induction k arbitrary: n) auto

lemma le_nat_le_bytes: "le_nat (le_bytes k n) = n mod 256 ^ k"
proof (induction k arbitrary: n)
  case (Suc k)
  have "unat (of_nat (n mod 256) :: u8) = n mod 256"
    by (simp add: unat_of_nat)
  then show ?case using Suc [of "n div 256"] by (simp add: mod_mult2_eq)
qed simp

lemma length_header_bytes [simp]: "length (header_bytes h) = 24"
  by (simp add: header_bytes_def)

lemma header_roundtrip: "header_of (header_bytes h) = h"
proof -
  have u64: "of_nat (unat w mod 18446744073709551616) = w" for w :: u64
    using unsigned_less [where 'a = nat, of w] by simp
  have u32: "of_nat (unat w mod 4294967296) = w" for w :: u32
    using unsigned_less [where 'a = nat, of w] by simp
  show ?thesis
    by (simp add: header_of_def header_bytes_def le_nat_le_bytes u64 u32)
qed

text \<open>What a record's encoder and decoder must satisfy for an entry to survive.\<close>

definition codec_ok :: "(LogEntry \<Rightarrow> u8 list) \<Rightarrow> (u8 list \<Rightarrow> LogEntry option) \<Rightarrow> LogEntry \<Rightarrow> bool" where
  "codec_ok ser parse e \<longleftrightarrow> parse (ser e) = Some e \<and> ser e \<noteq> [] \<and> length (ser e) \<le> 16 * 1024 * 1024
     \<and> int32_range (logterm e) \<and> int32_range (logindex e) \<and> 0 \<le> logindex e"

lemma ucast_of_int_u32: "(ucast (word_of_int i :: u64) :: u32) = word_of_int i"
  by transfer simp

lemma to_i32_of_int [simp]: "int32_range i \<Longrightarrow> to_i32 (word_of_int i) = i"
  using of_to_u32 [of i] by (simp add: to_i32_def ucast_of_int_u32 of_u32_def to_u32_def)

lemma entry_header_simps [simp]:
  "log_index (entry_header e b) = word_of_int (logindex e)"
  "log_term (entry_header e b) = word_of_int (logterm e)"
  "log_size (entry_header e b) = of_nat (length b)"
  by (simp_all add: entry_header_def)

lemma length_entry_bytes: "length (entry_bytes ser e) = 24 + length (ser e)"
  by (simp add: entry_bytes_def)

lemma codec_size:
  assumes "codec_ok ser parse e"
  shows "unat (of_nat (length (ser e)) :: u32) = length (ser e)"
    "(of_nat (length (ser e)) :: u32) \<noteq> 0" "\<not> (of_nat (length (ser e)) :: u32) > 16 * 1024 * 1024"
proof -
  have len: "length (ser e) \<le> 16777216" "0 < length (ser e)" using assms by (auto simp: codec_ok_def)
  show u: "unat (of_nat (length (ser e)) :: u32) = length (ser e)"
    using len by (simp add: unat_of_nat)
  show "(of_nat (length (ser e)) :: u32) \<noteq> 0" using u len by (metis less_irrefl unat_0)
  show "\<not> (of_nat (length (ser e)) :: u32) > 16 * 1024 * 1024"
    using u len by (simp add: word_less_nat_alt)
qed

lemma header_of_entry [simp]: "header_of (take 24 (entry_bytes ser e)) = entry_header e (ser e)"
  by (simp add: entry_bytes_def header_roundtrip)

text \<open>Reading on from the start of a whole record, and from a record that is cut.\<close>

lemma read_record:
  assumes "codec_ok ser parse e"
  shows "read_records parse snap (entry_bytes ser e @ bs) =
    (case read_records parse snap bs of (logs, offset) \<Rightarrow>
       ((if (word_of_int (logindex e) :: u64) > snap then e # logs else logs),
        length (entry_bytes ser e) + offset))"
proof -
  note size = codec_size [OF assms]
  have body: "take (length (ser e)) (drop 24 (entry_bytes ser e)) = ser e" by (simp add: entry_bytes_def)
  show ?thesis
    using assms size
    by (simp add: read_records.simps [of parse snap "entry_bytes ser e @ bs"] body codec_ok_def
        Let_def length_entry_bytes split: prod.split)
qed

lemma read_cut_record:
  assumes "codec_ok ser parse e" "n < length (entry_bytes ser e)"
  shows "read_records parse snap (take n (entry_bytes ser e)) = ([], 0)"
proof (cases "n < 24")
  case True
  then show ?thesis using assms(2) by (simp add: read_records.simps)
next
  case False
  let ?bs = "take n (entry_bytes ser e)"
  have "min 24 n = 24" using False by simp
  have "min (length (entry_bytes ser e)) n - 24 < length (ser e)"
    using False assms(2) by (simp add: length_entry_bytes)
  then show ?thesis
    using codec_size [OF assms(1)] \<open>min 24 n = 24\<close> by (simp add: read_records.simps [of parse snap ?bs] Let_def)
qed

lemma read_segment_prefix:
  assumes "\<forall>e \<in> set es. codec_ok ser parse e" "n \<le> length (segment_bytes ser es)"
  shows "\<exists>k \<le> length es. length (segment_bytes ser (take k es)) \<le> n
    \<and> (k < length es \<longrightarrow> n < length (segment_bytes ser (take (Suc k) es)))
    \<and> read_records parse snap (take n (segment_bytes ser es)) =
        (filter (\<lambda>e. (word_of_int (logindex e) :: u64) > snap) (take k es),
         length (segment_bytes ser (take k es)))"
  using assms
proof (induction es arbitrary: n)
  case (Cons e es)
  have e: "codec_ok ser parse e" using Cons.prems(1) by simp
  have seg: "segment_bytes ser (x # xs) = entry_bytes ser x @ segment_bytes ser xs" for x xs
    by (simp add: segment_bytes_def)
  show ?case
  proof (cases "n < length (entry_bytes ser e)")
    case True
    then have "take n (segment_bytes ser (e # es)) = take n (entry_bytes ser e)" by (simp add: seg)
    with read_cut_record [OF e True] show ?thesis
      using True by (intro exI [of _ 0]) (simp add: segment_bytes_def)
  next
    case False
    let ?m = "n - length (entry_bytes ser e)"
    have "?m \<le> length (segment_bytes ser es)" using Cons.prems(2) by (simp add: seg)
    then obtain k where k: "k \<le> length es" "length (segment_bytes ser (take k es)) \<le> ?m"
      "k < length es \<longrightarrow> ?m < length (segment_bytes ser (take (Suc k) es))"
      "read_records parse snap (take ?m (segment_bytes ser es)) =
        (filter (\<lambda>e. (word_of_int (logindex e) :: u64) > snap) (take k es),
         length (segment_bytes ser (take k es)))"
      using Cons.IH Cons.prems(1) by fastforce
    have "take n (segment_bytes ser (e # es)) = entry_bytes ser e @ take ?m (segment_bytes ser es)"
      using False by (simp add: seg)
    moreover have "length (entry_bytes ser e) + length (segment_bytes ser (take k es)) \<le> n"
      using k(2) False by linarith
    moreover have "n < length (entry_bytes ser e) + length (segment_bytes ser (take (Suc k) es))"
      if "k < length es" using k(3) that False by linarith
    ultimately show ?thesis
      using read_record [OF e] k(1,4) by (intro exI [of _ "Suc k"]) (simp add: seg)
  qed
qed (simp add: segment_bytes_def read_records.simps)

lemma read_segment_all:
  assumes "\<forall>e \<in> set es. codec_ok ser parse e"
  shows "read_records parse snap (segment_bytes ser es) =
    (filter (\<lambda>e. (word_of_int (logindex e) :: u64) > snap) es, length (segment_bytes ser es))"
  using assms
proof (induction es)
  case (Cons e es)
  then show ?case
    using read_record [of ser parse e snap "segment_bytes ser es"] by (simp add: segment_bytes_def)
qed (simp add: segment_bytes_def read_records.simps)

lemma index_past_snapshot:
  assumes "int32_range i" "0 \<le> i" "0 \<le> s" "s < 2 ^ 31"
  shows "(word_of_int i :: u64) > word_of_int s \<longleftrightarrow> s < i"
proof -
  have "uint (word_of_int i :: u64) = i" "uint (word_of_int s :: u64) = s"
    using assms by (simp_all add: int32_range_def uint_word_of_int)
  then show ?thesis by (simp add: word_less_def)
qed

section \<open>Properties\<close>

text \<open>C24: A segment that was cut anywhere, in the middle of a header or of an entry too, is read back
  as the longest run of whole records that is left of it: these entries (those past the snapshot)
  are returned in order, and the file is cut to exactly their bytes.\<close>

theorem ReadWalSegment_torn_tail:
  "\<forall>e \<in> set es. codec_ok ser parse e \<Longrightarrow> n \<le> length (segment_bytes ser es) \<Longrightarrow> 0 \<le> s \<Longrightarrow> s < 2 ^ 31 \<Longrightarrow>
   \<exists>k \<le> length es. length (segment_bytes ser (take k es)) \<le> n
     \<and> (k < length es \<longrightarrow> n < length (segment_bytes ser (take (Suc k) es)))
     \<and> ReadWalSegment parse (word_of_int s) (take n (segment_bytes ser es)) =
         (segment_bytes ser (take k es), filter (\<lambda>e. s < logindex e) (take k es),
          length (segment_bytes ser (take k es)))"
proof -
  assume ok: "\<forall>e \<in> set es. codec_ok ser parse e" and n: "n \<le> length (segment_bytes ser es)"
    and s: "0 \<le> s" "s < 2 ^ 31"
  obtain k where k: "k \<le> length es" "length (segment_bytes ser (take k es)) \<le> n"
    "k < length es \<longrightarrow> n < length (segment_bytes ser (take (Suc k) es))"
    "read_records parse (word_of_int s) (take n (segment_bytes ser es)) =
      (filter (\<lambda>e. (word_of_int (logindex e) :: u64) > word_of_int s) (take k es),
       length (segment_bytes ser (take k es)))"
    using read_segment_prefix [OF ok n, of "word_of_int s"] by blast
  have "filter (\<lambda>e. (word_of_int (logindex e) :: u64) > word_of_int s) (take k es) =
      filter (\<lambda>e. s < logindex e) (take k es)"
    using ok s by (intro filter_cong refl index_past_snapshot) (auto simp: codec_ok_def dest: in_set_takeD)
  moreover have "segment_bytes ser es = segment_bytes ser (take k es) @ segment_bytes ser (drop k es)"
    by (simp add: segment_bytes_def flip: concat_append map_append)
  then have "take (length (segment_bytes ser (take k es))) (take n (segment_bytes ser es)) =
      segment_bytes ser (take k es)"
    using k(2) by (simp add: min_absorb1)
  ultimately show ?thesis using k by (intro exI [of _ k]) (simp add: ReadWalSegment_def)
qed

text \<open>A codec that writes an entry of term 1 and command "a" as its index.\<close>

definition sample_ser :: "LogEntry \<Rightarrow> u8 list" where
  "sample_ser e = [word_of_int (logindex e)]"

definition sample_parse :: "u8 list \<Rightarrow> LogEntry option" where
  "sample_parse bs = (case bs of [b] \<Rightarrow> Some \<lparr>command = ''a'', logterm = 1, logindex = uint b\<rparr> | _ \<Rightarrow> None)"

definition sample_entry :: "int \<Rightarrow> LogEntry" where
  "sample_entry i = \<lparr>command = ''a'', logterm = 1, logindex = i\<rparr>"

lemma sample_codec: "0 \<le> i \<Longrightarrow> i < 256 \<Longrightarrow> codec_ok sample_ser sample_parse (sample_entry i)"
  by (simp add: codec_ok_def sample_ser_def sample_parse_def sample_entry_def int32_range_def
      uint_word_of_int)

text \<open>Three records of 25 bytes, cut after 60: the first two survive.\<close>

theorem ReadWalSegment_torn_tail_witness:
  "ReadWalSegment sample_parse 1 (take 60 (segment_bytes sample_ser (map sample_entry [1, 2, 3]))) =
     (segment_bytes sample_ser (map sample_entry [1, 2]), [sample_entry 2], 50)"
proof -
  let ?es = "map sample_entry [1, 2, 3]"
  have ok: "\<forall>e \<in> set ?es. codec_ok sample_ser sample_parse e" by (auto intro: sample_codec)
  have len: "length (segment_bytes sample_ser es) = 25 * length es" for es
    by (induction es) (simp_all add: segment_bytes_def length_entry_bytes sample_ser_def)
  obtain k where k: "k \<le> length ?es" "length (segment_bytes sample_ser (take k ?es)) \<le> 60"
    "k < length ?es \<longrightarrow> 60 < length (segment_bytes sample_ser (take (Suc k) ?es))"
    "ReadWalSegment sample_parse (word_of_int 1) (take 60 (segment_bytes sample_ser ?es)) =
      (segment_bytes sample_ser (take k ?es), filter (\<lambda>e. 1 < logindex e) (take k ?es),
       length (segment_bytes sample_ser (take k ?es)))"
    using ReadWalSegment_torn_tail [OF ok, of 60 1] len by auto
  then have "k = 2" unfolding len by (auto simp: min_def split: if_splits)
  with k(4) show ?thesis by (simp add: len sample_entry_def numeral_2_eq_2)
qed

end
