(* ===== verification/Wal.thy ===== *)
theory Wal
  imports Wal_Format "HOL-Library.AList"
begin

text \<open>
  The write-ahead log of the persister (src/persist/Persister.cc): the directory of segment files,
  opening, rolling, replaying, compacting, and one turn of the writer thread. A file name is
  represented by the numbers it is made of. The disk is a list of files; \<open>room\<close> is the number of bytes
  it still takes before \<open>write\<close> fails, and the result of \<open>fdatasync\<close> is an argument.
  The operations \<open>open\<close> of a new segment and \<open>rename\<close>, on whose failure the process exits, succeed.
\<close>

section \<open>State\<close>

record segment =
  seg_first :: u64
  seg_last :: u64
  inprogress :: bool

type_synonym wal_files = "(segment \<times> u8 list) list"

record persister =
  wal_dir :: wal_files
  log_fd :: "segment option"
  fd_offset :: nat
  m_segmentFirstIndex :: u64
  m_segmentLastIndex :: u64
  m_segmentEntryCount :: nat
  m_segmentBytes :: nat
  m_raftLogsFileSize :: int
  m_compactedSnapshotIndex :: u64

definition openSegmentName :: "u64 \<Rightarrow> segment" where
  "openSegmentName f = \<lparr>seg_first = f, seg_last = - 1, inprogress = True\<rparr>"

definition closedSegmentName :: "u64 \<Rightarrow> u64 \<Rightarrow> segment" where
  "closedSegmentName f l = \<lparr>seg_first = f, seg_last = l, inprogress = False\<rparr>"

definition file_content :: "wal_files \<Rightarrow> segment \<Rightarrow> u8 list" where
  "file_content d s = (case map_of d s of None \<Rightarrow> [] | Some c \<Rightarrow> c)"

definition open_content :: "persister \<Rightarrow> u8 list" where
  "open_content p = (case log_fd p of None \<Rightarrow> [] | Some s \<Rightarrow> file_content (wal_dir p) s)"

section \<open>Segments\<close>

text \<open>The position after \<open>open\<close> is 0, also with \<open>O_APPEND\<close>.\<close>

definition OpenSegment :: "u64 \<Rightarrow> persister \<Rightarrow> persister" where
  "OpenSegment firstIndex p =
     (let name = openSegmentName firstIndex in
      p\<lparr>m_segmentFirstIndex := firstIndex, m_segmentLastIndex := firstIndex - 1,
        m_segmentEntryCount := 0, m_segmentBytes := 0,
        wal_dir := AList.update name (file_content (wal_dir p) name) (wal_dir p),
        log_fd := Some name, fd_offset := 0\<rparr>)"

definition RollSegment :: "persister \<Rightarrow> persister" where
  "RollSegment p =
     (if log_fd p = None \<or> m_segmentEntryCount p = 0 then p
      else
        let opened = openSegmentName (m_segmentFirstIndex p);
            closed = closedSegmentName (m_segmentFirstIndex p) (m_segmentLastIndex p) in
        OpenSegment (m_segmentLastIndex p + 1)
          (p\<lparr>log_fd := None, wal_dir := AList.update closed (file_content (wal_dir p) opened)
               (AList.delete opened (wal_dir p))\<rparr>))"

text \<open>The order of \<open>ListSegments\<close>: by first index, and a closed segment before an open one.\<close>

definition segment_key :: "segment \<Rightarrow> nat" where
  "segment_key s = 2 * unat (seg_first s) + (if inprogress s then 1 else 0)"

definition ListSegments :: "wal_files \<Rightarrow> segment list" where
  "ListSegments d = sort_key segment_key (map fst d)"

section \<open>Replay\<close>

text \<open>The loop that reads every segment: the files, cut to their valid part, the entries and the bytes.\<close>

fun read_segments ::
  "(u8 list \<Rightarrow> LogEntry option) \<Rightarrow> u64 \<Rightarrow> segment list \<Rightarrow> wal_files \<Rightarrow> wal_files \<times> LogEntry list \<times> nat" where
  "read_segments parse snapshotIndex [] d = (d, [], 0)"
| "read_segments parse snapshotIndex (s # ss) d =
     (case map_of d s of
        None \<Rightarrow> read_segments parse snapshotIndex ss d
      | Some content \<Rightarrow>
          (case ReadWalSegment parse snapshotIndex content of
             (content', logs, bytes) \<Rightarrow>
               (case read_segments parse snapshotIndex ss (AList.update s content' d) of
                  (d', logs', bytes') \<Rightarrow> (d', logs @ logs', bytes + bytes'))))"

text \<open>The body of the loop over the entries, the same in \<open>ReadPersistedLogs\<close> and \<open>CompactWal\<close>.\<close>

definition replay_step :: "u64 \<Rightarrow> LogEntry list \<Rightarrow> LogEntry \<Rightarrow> LogEntry list" where
  "replay_step snapshotIndex logs entry =
     (if logindex entry \<le> to_i32 snapshotIndex then logs
      else if logs = [] then
        (if logindex entry \<noteq> to_i32 (snapshotIndex + 1) then logs else [entry])
      else
        let back_index = logindex (logs ! (length logs - 1)); expectedNext = back_index + 1 in
        if logindex entry = expectedNext then logs @ [entry]
        else if logindex entry \<le> back_index then
          (let vecIndex = logindex entry - to_i32 snapshotIndex - 1 in
           if 0 \<le> vecIndex \<and> vecIndex < int (length logs)
           then take (nat vecIndex) logs @ [entry] else logs)
        else logs)"

definition replay :: "u64 \<Rightarrow> LogEntry list \<Rightarrow> LogEntry list" where
  "replay snapshotIndex es = foldl (replay_step snapshotIndex) [] es"

definition ReadPersistedLogs ::
  "(u8 list \<Rightarrow> LogEntry option) \<Rightarrow> u64 \<Rightarrow> persister \<Rightarrow> persister \<times> LogEntry list" where
  "ReadPersistedLogs parse snapshotIndex p =
     (case read_segments parse snapshotIndex (ListSegments (wal_dir p)) (wal_dir p) of
        (d, es, validBytes) \<Rightarrow>
          (p\<lparr>wal_dir := d, m_raftLogsFileSize := int validBytes\<rparr>, replay snapshotIndex es))"

section \<open>Writing\<close>

text \<open>\<open>WriteAll\<close> on the open segment: the bytes that fit are appended, whatever the position was.\<close>

definition write_fd :: "u8 list \<Rightarrow> nat \<Rightarrow> persister \<Rightarrow> bool \<times> nat \<times> persister" where
  "write_fd data room p =
     (case log_fd p of
        None \<Rightarrow> (data = [], room, p)
      | Some s \<Rightarrow>
          let content = file_content (wal_dir p) s @ take room data in
          (length data \<le> room, room - length data,
           if take room data = [] then p
           else p\<lparr>wal_dir := AList.update s content (wal_dir p), fd_offset := length content\<rparr>))"

definition write_entry ::
  "(LogEntry \<Rightarrow> u8 list) \<Rightarrow> LogEntry \<Rightarrow> nat \<Rightarrow> persister \<Rightarrow> bool \<times> nat \<times> persister" where
  "write_entry ser e room p =
     (let body = ser e; header = entry_header e body in
      case write_fd (header_bytes header) room p of
        (ok1, room1, p1) \<Rightarrow>
          if \<not> ok1 then (False, room1, p1)
          else (case write_fd body room1 p1 of
            (ok2, room2, p2) \<Rightarrow>
              if \<not> ok2 then (False, room2, p2)
              else (True, room2,
                p2\<lparr>m_segmentLastIndex := log_index header,
                   m_segmentEntryCount := m_segmentEntryCount p2 + 1,
                   m_segmentBytes := m_segmentBytes p2 + (24 + length body)\<rparr>)))"

fun rewrite_loop :: "(LogEntry \<Rightarrow> u8 list) \<Rightarrow> LogEntry list \<Rightarrow> nat \<Rightarrow> persister \<Rightarrow> bool \<times> nat \<times> persister" where
  "rewrite_loop ser [] room p = (True, room, p)"
| "rewrite_loop ser (e # es) room p =
     (case write_entry ser e room p of
        (ok, room', p') \<Rightarrow>
          if \<not> ok then (False, room', p')
          else rewrite_loop ser es room'
            (p'\<lparr>m_raftLogsFileSize := m_raftLogsFileSize p' + (24 + int (length (ser e)))\<rparr>))"

definition RewriteWalFrom ::
  "(LogEntry \<Rightarrow> u8 list) \<Rightarrow> u64 \<Rightarrow> LogEntry list \<Rightarrow> nat \<Rightarrow> persister \<Rightarrow> bool \<times> nat \<times> persister" where
  "RewriteWalFrom ser firstIndex logs room p =
     rewrite_loop ser logs room
       ((OpenSegment firstIndex (p\<lparr>log_fd := None, wal_dir := []\<rparr>))\<lparr>m_raftLogsFileSize := 0\<rparr>)"

text \<open>The result of \<open>RewriteWalFrom\<close> is ignored.\<close>

definition CompactWal ::
  "(LogEntry \<Rightarrow> u8 list) \<Rightarrow> (u8 list \<Rightarrow> LogEntry option) \<Rightarrow> u64 \<Rightarrow> nat \<Rightarrow> persister \<Rightarrow> nat \<times> persister" where
  "CompactWal ser parse snapshotIndex room p =
     (case read_segments parse snapshotIndex (ListSegments (wal_dir p)) (wal_dir p) of
        (d, es, _) \<Rightarrow>
          let compacted = replay snapshotIndex es;
              firstIndex = (if compacted = [] then snapshotIndex + 1
                            else word_of_int (logindex (compacted ! 0))) in
          (case RewriteWalFrom ser firstIndex compacted room (p\<lparr>wal_dir := d\<rparr>) of
             (_, room', p') \<Rightarrow> (room', p'\<lparr>m_compactedSnapshotIndex := snapshotIndex\<rparr>)))"

definition ReopenLatestSegment :: "(u8 list \<Rightarrow> LogEntry option) \<Rightarrow> persister \<Rightarrow> persister" where
  "ReopenLatestSegment parse p =
     (let segments = ListSegments (wal_dir p) in
      if segments = [] then OpenSegment 1 p
      else
        let latest = segments ! (length segments - 1) in
        if \<not> inprogress latest then OpenSegment (seg_last latest + 1) p
        else case ReadWalSegment parse 0 (file_content (wal_dir p) latest) of
          (content, logs, validBytes) \<Rightarrow>
            p\<lparr>wal_dir := AList.update latest content (wal_dir p),
              m_segmentFirstIndex := seg_first latest,
              m_segmentLastIndex := (if logs = [] then seg_first latest - 1
                                     else word_of_int (logindex (logs ! (length logs - 1)))),
              m_segmentEntryCount := length logs, m_segmentBytes := validBytes,
              log_fd := Some latest, fd_offset := 0\<rparr>)"

section \<open>Replay is the log\<close>

lemma replay_snoc: "replay snap (es @ [e]) = replay_step snap (replay snap es) e"
  by (simp add: replay_def)

lemma to_i32_succ: "0 \<le> s \<Longrightarrow> s < 2147483647 \<Longrightarrow> to_i32 (word_of_int s + 1) = s + 1"
proof -
  assume "0 \<le> s" "s < 2147483647"
  then have "to_i32 (word_of_int (s + 1)) = s + 1" by (intro to_i32_of_int) (simp add: int32_range_def)
  moreover have "(word_of_int (s + 1) :: u64) = word_of_int s + 1" by (rule trans [OF of_int_add]) simp
  ultimately show ?thesis by simp
qed

lemma to_i32_snap: "0 \<le> s \<Longrightarrow> s < 2147483647 \<Longrightarrow> to_i32 (word_of_int s) = s"
  by (simp add: int32_range_def)

text \<open>One step on a log that is contiguous from the snapshot on.\<close>

lemma replay_step_contiguous:
  assumes "contiguous s logs" "0 \<le> s" "s < 2147483647"
  shows "replay_step (word_of_int s) logs e =
    (if s < logindex e \<and> logindex e \<le> s + int (length logs) + 1
     then take (nat (logindex e - s - 1)) logs @ [e] else logs)"
proof (cases "logs = []")
  case True
  then show ?thesis by (auto simp: replay_step_def to_i32_snap to_i32_succ assms)
next
  case False
  then have "logindex (logs ! (length logs - 1)) = s + int (length logs)"
    using assms(1) by (simp add: contiguous_def of_nat_diff Suc_le_eq)
  then show ?thesis
    using False by (auto simp: replay_step_def to_i32_snap to_i32_succ assms Let_def)
qed

lemma contiguous_replay_step:
  assumes "contiguous s logs" "0 \<le> s" "s < 2147483647"
  shows "contiguous s (replay_step (word_of_int s) logs e)"
  using assms(1) by (auto simp: replay_step_contiguous [OF assms] contiguous_snoc min_def)

lemma contiguous_replay:
  assumes "0 \<le> s" "s < 2147483647"
  shows "contiguous s (replay (word_of_int s) es)"
  by (induction es rule: rev_induct)
     (simp_all add: replay_snoc contiguous_replay_step assms, simp add: replay_def)

lemma replay_id:
  assumes "0 \<le> s" "s < 2147483647" "contiguous s es"
  shows "replay (word_of_int s) es = es"
  using assms(3)
proof (induction es rule: rev_induct)
  case (snoc e es)
  then have "contiguous s es" "logindex e = s + 1 + int (length es)" by (auto simp: contiguous_snoc)
  then show ?case
    using snoc.IH by (simp add: replay_snoc replay_step_contiguous assms)
qed (simp add: replay_def)

section \<open>What writing does to the open file\<close>

lemma file_content_update [simp]:
  "file_content (AList.update s c d) t = (if t = s then c else file_content d t)"
  by (simp add: file_content_def update_conv')

text \<open>A step that only appends to the open file: all but the file, the position and the counters stays.\<close>

definition appends :: "u8 list \<Rightarrow> persister \<Rightarrow> persister \<Rightarrow> bool" where
  "appends data p p' \<longleftrightarrow> log_fd p' = log_fd p
     \<and> open_content p' = open_content p @ data
     \<and> (\<forall>t. log_fd p \<noteq> Some t \<longrightarrow> file_content (wal_dir p') t = file_content (wal_dir p) t)
     \<and> (\<forall>s. log_fd p = Some s \<and> s \<in> fst ` set (wal_dir p) \<longrightarrow> map fst (wal_dir p') = map fst (wal_dir p))
     \<and> m_segmentFirstIndex p' = m_segmentFirstIndex p
     \<and> fd_offset p' = (if data = [] then fd_offset p else length (open_content p'))"

lemma open_content_cong:
  "wal_dir q = wal_dir p \<Longrightarrow> log_fd q = log_fd p \<Longrightarrow> open_content q = open_content p"
  unfolding open_content_def by (cases "log_fd p") simp_all

lemma appends_cong:
  assumes "wal_dir q' = wal_dir q" "log_fd q' = log_fd q" "fd_offset q' = fd_offset q"
    "m_segmentFirstIndex q' = m_segmentFirstIndex q"
  shows "appends d p q' = appends d p q" "appends d q' p = appends d q p"
  using assms open_content_cong [of q' q] by (simp_all add: appends_def)

lemma appendsD:
  assumes "appends d p q"
  shows "log_fd q = log_fd p" "open_content q = open_content p @ d"
    "log_fd p = Some s \<Longrightarrow> s \<in> fst ` set (wal_dir p) \<Longrightarrow> map fst (wal_dir q) = map fst (wal_dir p)"
    "m_segmentFirstIndex q = m_segmentFirstIndex p"
    "log_fd p \<noteq> Some t \<Longrightarrow> file_content (wal_dir q) t = file_content (wal_dir p) t"
    "fd_offset q = (if d = [] then fd_offset p else length (open_content q))"
  using assms unfolding appends_def by blast+

lemma update_keys: "s \<in> fst ` set d \<Longrightarrow> map fst (AList.update s c d) = map fst d"
  by (simp add: update_keys)

lemma appends_trans: "appends xs p q \<Longrightarrow> appends ys q r \<Longrightarrow> appends (xs @ ys) p r"
  unfolding appends_def by (auto simp: image_set simp del: set_map)

lemma write_fd_appends:
  assumes "log_fd p = Some s"
  shows "\<exists>p'. write_fd data room p = (length data \<le> room, room - length data, p')
    \<and> appends (take room data) p p' \<and> m_segmentLastIndex p' = m_segmentLastIndex p
    \<and> m_segmentEntryCount p' = m_segmentEntryCount p \<and> m_segmentBytes p' = m_segmentBytes p
    \<and> m_raftLogsFileSize p' = m_raftLogsFileSize p"
  using assms by (simp add: write_fd_def Let_def appends_def open_content_def update_keys)

lemma write_entry_appends:
  assumes "log_fd p = Some s"
  shows "\<exists>p'. write_entry ser e room p =
      (length (entry_bytes ser e) \<le> room, room - length (entry_bytes ser e), p')
    \<and> appends (take room (entry_bytes ser e)) p p'
    \<and> m_raftLogsFileSize p' = m_raftLogsFileSize p
    \<and> m_segmentEntryCount p' = m_segmentEntryCount p + (if length (entry_bytes ser e) \<le> room then 1 else 0)"
proof -
  let ?h = "header_bytes (entry_header e (ser e))"
  obtain p1 where p1: "write_fd ?h room p = (24 \<le> room, room - 24, p1)" "appends (take room ?h) p p1"
    "m_segmentEntryCount p1 = m_segmentEntryCount p" "m_raftLogsFileSize p1 = m_raftLogsFileSize p"
    using write_fd_appends [OF assms, of ?h room] by auto
  show ?thesis
  proof (cases "24 \<le> room")
    case False
    then have "take room (entry_bytes ser e) = take room ?h" by (simp add: entry_bytes_def)
    then show ?thesis using False p1 by (auto simp: write_entry_def Let_def length_entry_bytes)
  next
    case True
    have "log_fd p1 = Some s" using p1(2) assms by (simp add: appends_def)
    then obtain p2 where p2: "write_fd (ser e) (room - 24) p1 =
        (length (ser e) \<le> room - 24, room - 24 - length (ser e), p2)"
      "appends (take (room - 24) (ser e)) p1 p2" "m_segmentEntryCount p2 = m_segmentEntryCount p1"
      "m_raftLogsFileSize p2 = m_raftLogsFileSize p1"
      using write_fd_appends by blast
    have "appends (take room ?h @ take (room - 24) (ser e)) p p2"
      by (rule appends_trans [OF p1(2) p2(2)])
    then have app: "appends (take room (entry_bytes ser e)) p p2" by (simp add: entry_bytes_def)
    have keep: "appends d p q \<longleftrightarrow> appends d p p2" if "wal_dir q = wal_dir p2" "log_fd q = log_fd p2"
      "fd_offset q = fd_offset p2" "m_segmentFirstIndex q = m_segmentFirstIndex p2" for d q
      using that by (rule appends_cong)
    have fits: "length (ser e) \<le> room - 24 \<longleftrightarrow> length (entry_bytes ser e) \<le> room"
      using True by (auto simp: length_entry_bytes)
    show ?thesis
    proof (cases "length (entry_bytes ser e) \<le> room")
      case fit: True
      let ?q = "p2\<lparr>m_segmentLastIndex := log_index (entry_header e (ser e)),
          m_segmentEntryCount := m_segmentEntryCount p2 + 1,
          m_segmentBytes := m_segmentBytes p2 + (24 + length (ser e))\<rparr>"
      have "write_entry ser e room p = (True, room - length (entry_bytes ser e), ?q)"
        using True fit fits p1 p2 by (simp add: write_entry_def Let_def length_entry_bytes)
      then show ?thesis using fit app keep [of ?q] p1 p2 by simp
    next
      case full: False
      have "write_entry ser e room p = (False, room - length (entry_bytes ser e), p2)"
        using True full fits p1 p2 by (simp add: write_entry_def Let_def length_entry_bytes)
      then show ?thesis using full app p1 p2 by simp
    qed
  qed
qed

lemma segment_bytes_Cons: "segment_bytes ser (e # es) = entry_bytes ser e @ segment_bytes ser es"
  by (simp add: segment_bytes_def)

lemma appends_size [simp]: "appends d p (q\<lparr>m_raftLogsFileSize := n\<rparr>) = appends d p q"
  "appends d (p\<lparr>m_raftLogsFileSize := n\<rparr>) q = appends d p q"
  by (rule appends_cong; simp)+

lemma rewrite_loop_appends:
  assumes "log_fd p = Some s"
  shows "\<exists>room' p'. rewrite_loop ser es room p = (length (segment_bytes ser es) \<le> room, room', p')
    \<and> appends (take room (segment_bytes ser es)) p p'
    \<and> (length (segment_bytes ser es) \<le> room \<longrightarrow>
        m_raftLogsFileSize p' = m_raftLogsFileSize p + int (length (segment_bytes ser es)))"
  using assms
proof (induction es arbitrary: room p)
  case Nil
  show ?case by (simp add: segment_bytes_def appends_def)
next
  case (Cons e es)
  let ?n = "length (entry_bytes ser e)"
  obtain p1 where p1: "write_entry ser e room p = (?n \<le> room, room - ?n, p1)"
    "appends (take room (entry_bytes ser e)) p p1" "m_raftLogsFileSize p1 = m_raftLogsFileSize p"
    using write_entry_appends [OF Cons.prems, of ser e room] by auto
  show ?case
  proof (cases "?n \<le> room")
    case False
    then show ?thesis using p1 by (simp add: segment_bytes_Cons)
  next
    case True
    let ?p1 = "p1\<lparr>m_raftLogsFileSize := m_raftLogsFileSize p1 + (24 + int (length (ser e)))\<rparr>"
    have "log_fd ?p1 = Some s" using p1(2) Cons.prems by (simp add: appends_def)
    then obtain room' p2 where p2: "rewrite_loop ser es (room - ?n) ?p1 =
        (length (segment_bytes ser es) \<le> room - ?n, room', p2)"
      "appends (take (room - ?n) (segment_bytes ser es)) ?p1 p2"
      "length (segment_bytes ser es) \<le> room - ?n \<longrightarrow>
        m_raftLogsFileSize p2 = m_raftLogsFileSize ?p1 + int (length (segment_bytes ser es))"
      using Cons.IH by blast
    have "appends (take room (entry_bytes ser e) @ take (room - ?n) (segment_bytes ser es)) p p2"
      using p2(2) by (intro appends_trans [OF p1(2)]) simp
    moreover have "length (segment_bytes ser es) \<le> room - ?n \<longleftrightarrow> length (segment_bytes ser (e # es)) \<le> room"
      using True by (auto simp: segment_bytes_Cons)
    ultimately show ?thesis
      using True p1 p2 by (auto simp: segment_bytes_Cons length_entry_bytes)
  qed
qed

section \<open>Compaction\<close>

lemma RewriteWalFrom_dir:
  "\<exists>room' p'. RewriteWalFrom ser first logs room p = (length (segment_bytes ser logs) \<le> room, room', p')
    \<and> wal_dir p' = [(openSegmentName first, take room (segment_bytes ser logs))]
    \<and> log_fd p' = Some (openSegmentName first)
    \<and> (length (segment_bytes ser logs) \<le> room \<longrightarrow> m_raftLogsFileSize p' = int (length (segment_bytes ser logs)))"
proof -
  let ?name = "openSegmentName first"
  let ?p = "(OpenSegment first (p\<lparr>log_fd := None, wal_dir := []\<rparr>))\<lparr>m_raftLogsFileSize := 0\<rparr>"
  have p: "log_fd ?p = Some ?name" "wal_dir ?p = [(?name, [])]"
    by (simp_all add: OpenSegment_def Let_def file_content_def)
  obtain room' p' where run: "rewrite_loop ser logs room ?p = (length (segment_bytes ser logs) \<le> room, room', p')"
    and app: "appends (take room (segment_bytes ser logs)) ?p p'"
    and size: "length (segment_bytes ser logs) \<le> room \<longrightarrow>
      m_raftLogsFileSize p' = m_raftLogsFileSize ?p + int (length (segment_bytes ser logs))"
    using rewrite_loop_appends [OF p(1)] by blast
  have keys: "map fst (wal_dir p') = [?name]" and fd: "log_fd p' = Some ?name"
    and content: "open_content p' = take room (segment_bytes ser logs)"
    using appendsD(1,2) [OF app] appendsD(3) [OF app p(1)] p by (simp_all add: open_content_def file_content_def)
  then obtain c where c: "wal_dir p' = [(?name, c)]" by (cases "wal_dir p'") auto
  then have "wal_dir p' = [(?name, take room (segment_bytes ser logs))]"
    using content by (simp add: open_content_def fd file_content_def)
  moreover have "m_raftLogsFileSize ?p = 0" by simp
  ultimately show ?thesis
    using fd size unfolding RewriteWalFrom_def run by (intro exI conjI; simp)
qed

text \<open>What is recovered from a directory of one file.\<close>

lemma ReadPersistedLogs_single:
  assumes "wal_dir p = [(name, c)]"
  shows "snd (ReadPersistedLogs parse snap p) = replay snap (fst (read_records parse snap c))"
  using assms
  by (simp add: ReadPersistedLogs_def ListSegments_def ReadWalSegment_def split: prod.split)

lemma CompactWal_recovers:
  assumes "0 \<le> s" "s < 2147483647"
    and log: "log = snd (ReadPersistedLogs parse (word_of_int s) p)"
    and codec: "\<forall>e \<in> set log. codec_ok ser parse e"
    and run: "CompactWal ser parse (word_of_int s) room p = (room', p')"
  shows "\<exists>k \<le> length log. length (segment_bytes ser (take k log)) \<le> room
    \<and> (k < length log \<longrightarrow> room < length (segment_bytes ser (take (Suc k) log)))
    \<and> snd (ReadPersistedLogs parse (word_of_int s) p') = take k log"
    "length (segment_bytes ser log) \<le> room \<longrightarrow> m_raftLogsFileSize p' = int (length (segment_bytes ser log))"
    "contiguous s log" "length (wal_dir p') = 1"
proof -
  obtain d es b where read: "read_segments parse (word_of_int s) (ListSegments (wal_dir p)) (wal_dir p) = (d, es, b)"
    by (metis prod_cases3)
  then have logs: "replay (word_of_int s) es = log" using log by (simp add: ReadPersistedLogs_def)
  let ?first = "if log = [] then word_of_int s + 1 else word_of_int (logindex (log ! 0))"
  obtain room1 p1 where rew: "RewriteWalFrom ser ?first log room (p\<lparr>wal_dir := d\<rparr>) =
      (length (segment_bytes ser log) \<le> room, room1, p1)"
    and dir: "wal_dir p1 = [(openSegmentName ?first, take room (segment_bytes ser log))]"
    and size: "length (segment_bytes ser log) \<le> room \<longrightarrow> m_raftLogsFileSize p1 = int (length (segment_bytes ser log))"
    using RewriteWalFrom_dir by blast
  have "CompactWal ser parse (word_of_int s) room p =
      (room1, p1\<lparr>m_compactedSnapshotIndex := word_of_int s\<rparr>)"
    by (simp only: CompactWal_def read prod.case Let_def logs rew)
  then have p': "p' = p1\<lparr>m_compactedSnapshotIndex := word_of_int s\<rparr>" using run by simp
  show "length (segment_bytes ser log) \<le> room \<longrightarrow> m_raftLogsFileSize p' = int (length (segment_bytes ser log))"
    "length (wal_dir p') = 1"
    using size dir by (simp_all add: p')
  show con: "contiguous s log" using contiguous_replay [OF assms(1,2), of es] by (simp add: logs)
  let ?n = "min room (length (segment_bytes ser log))"
  obtain k where k: "k \<le> length log" "length (segment_bytes ser (take k log)) \<le> ?n"
    "k < length log \<longrightarrow> ?n < length (segment_bytes ser (take (Suc k) log))"
    "read_records parse (word_of_int s) (take ?n (segment_bytes ser log)) =
      (filter (\<lambda>e. (word_of_int (logindex e) :: u64) > word_of_int s) (take k log),
       length (segment_bytes ser (take k log)))"
    using read_segment_prefix [OF codec, of ?n "word_of_int s"] by auto
  have past: "s < logindex e" if "e \<in> set log" for e
    using that con by (auto simp: in_set_conv_nth contiguous_def)
  have "filter (\<lambda>e. (word_of_int (logindex e) :: u64) > word_of_int s) (take k log) = take k log"
    using codec past assms(1,2) index_past_snapshot
    by (auto simp: filter_id_conv codec_ok_def dest!: in_set_takeD)
  moreover have "take ?n (segment_bytes ser log) = take room (segment_bytes ser log)" by (simp add: min_def)
  ultimately have "fst (read_records parse (word_of_int s) (take room (segment_bytes ser log))) = take k log"
    using k(4) by (metis fst_conv)
  moreover have "replay (word_of_int s) (take k log) = take k log"
    by (rule replay_id [OF assms(1,2)]) (use con in auto)
  ultimately have "snd (ReadPersistedLogs parse (word_of_int s) p') = take k log"
    using ReadPersistedLogs_single [of p' _ "take room (segment_bytes ser log)"] dir by (simp add: p')
  moreover have "room < length (segment_bytes ser (take (Suc k) log))" if "k < length log"
  proof -
    have "segment_bytes ser log = segment_bytes ser (take (Suc k) log) @ segment_bytes ser (drop (Suc k) log)"
      by (simp add: segment_bytes_def flip: concat_append map_append)
    then have "length (segment_bytes ser (take (Suc k) log)) \<le> length (segment_bytes ser log)"
      by (metis length_append le_add1)
    then show ?thesis using k(3) that by linarith
  qed
  ultimately show "\<exists>k \<le> length log. length (segment_bytes ser (take k log)) \<le> room
    \<and> (k < length log \<longrightarrow> room < length (segment_bytes ser (take (Suc k) log)))
    \<and> snd (ReadPersistedLogs parse (word_of_int s) p') = take k log"
    using k(1,2) by auto
qed

section \<open>The writer thread\<close>

text \<open>
  A batch of the queue: the entries, and whom to tell. A waiter is a thread blocked in
  \<open>AppendLogAndWaitStable\<close>, a callback that of \<open>AppendLogAsync\<close>; both are named by numbers.
\<close>

record LogBatch =
  lb_logs :: "LogEntry list"
  lb_waiter :: "nat option"
  lb_callback :: "nat option"

datatype notice = Waiter_done nat bool | Callback_run nat bool

record writer =
  pending_count :: nat
  pending_bytes :: nat
  waiters :: "nat list"
  callbacks :: "nat list"

record batch_run =
  br_room :: nat
  written_bytes :: nat
  written_count :: nat
  need_roll :: bool

definition notify_all :: "nat list \<Rightarrow> nat list \<Rightarrow> bool \<Rightarrow> notice list" where
  "notify_all ws cs ok = map (\<lambda>w. Waiter_done w ok) ws @ map (\<lambda>c. Callback_run c ok) cs"

fun write_logs ::
  "(LogEntry \<Rightarrow> u8 list) \<Rightarrow> LogEntry list \<Rightarrow> batch_run \<Rightarrow> persister \<Rightarrow> bool \<times> batch_run \<times> persister" where
  "write_logs ser [] w p = (True, w, p)"
| "write_logs ser (log # logs) w p =
     (case write_entry ser log (br_room w) p of
        (write_ok, room', p') \<Rightarrow>
          if \<not> write_ok then (False, w\<lparr>br_room := room'\<rparr>, p')
          else write_logs ser logs
            \<lparr>br_room = room', written_bytes = written_bytes w + (24 + length (ser log)),
             written_count = written_count w + 1,
             need_roll = (need_roll w \<or> m_segmentEntryCount p' \<ge> 1000 \<or> m_segmentBytes p' \<ge> 8 * 1024 * 1024)\<rparr>
            p')"

fun write_batches ::
  "(LogEntry \<Rightarrow> u8 list) \<Rightarrow> LogBatch list \<Rightarrow> batch_run \<Rightarrow> nat list \<Rightarrow> nat list \<Rightarrow> persister \<Rightarrow>
     bool \<times> batch_run \<times> nat list \<times> nat list \<times> persister" where
  "write_batches ser [] w ws cs p = (True, w, ws, cs, p)"
| "write_batches ser (b # bs) w ws cs p =
     (let ws' = (case lb_waiter b of None \<Rightarrow> ws | Some x \<Rightarrow> ws @ [x]);
          cs' = (case lb_callback b of None \<Rightarrow> cs | Some x \<Rightarrow> cs @ [x]) in
      case write_logs ser (lb_logs b) w p of
        (batch_write_ok, w', p') \<Rightarrow>
          if \<not> batch_write_ok then (False, w', ws', cs', p')
          else write_batches ser bs w' ws' cs' p')"

text \<open>The rollback of a failed turn: the file is cut at the position the turn began with.\<close>

definition rollback :: "nat \<Rightarrow> persister \<Rightarrow> persister \<Rightarrow> persister" where
  "rollback batch_start_offset old p =
     (case log_fd p of
        None \<Rightarrow> p
      | Some s \<Rightarrow> p\<lparr>wal_dir := AList.update s (take batch_start_offset (file_content (wal_dir p) s)) (wal_dir p),
                    fd_offset := batch_start_offset\<rparr>)
       \<lparr>m_segmentLastIndex := m_segmentLastIndex old, m_segmentEntryCount := m_segmentEntryCount old,
        m_segmentBytes := m_segmentBytes old\<rparr>"

text \<open>
  One turn of the loop on the batches it took from the queue (none when the pop timed out).
  \<open>time_due\<close> is the comparison with the time of the last sync.
\<close>

definition finish_turn :: "bool \<Rightarrow> bool \<Rightarrow> writer \<Rightarrow> persister \<Rightarrow> notice list \<times> writer \<times> persister" where
  "finish_turn sync_ok time_due w p =
     (if pending_count w > 0
         \<and> (pending_count w \<ge> 64 \<or> pending_bytes w \<ge> 128 * 1024 \<or> time_due)
      then (notify_all (waiters w) (callbacks w) sync_ok,
            \<lparr>pending_count = 0, pending_bytes = 0, waiters = [], callbacks = []\<rparr>, p)
      else ([], w, p))"

definition writer_turn ::
  "(LogEntry \<Rightarrow> u8 list) \<Rightarrow> LogBatch list \<Rightarrow> nat \<Rightarrow> bool \<Rightarrow> bool \<Rightarrow> writer \<Rightarrow> persister \<Rightarrow>
     notice list \<times> writer \<times> persister" where
  "writer_turn ser batches room sync_ok time_due w p =
     (if batches = [] then finish_turn sync_ok time_due w p
      else
        let batch_start_offset = fd_offset p;
            none = \<lparr>pending_count = 0, pending_bytes = 0, waiters = [], callbacks = []\<rparr> in
        case write_batches ser batches \<lparr>br_room = room, written_bytes = 0, written_count = 0, need_roll = False\<rparr>
               (waiters w) (callbacks w) p of
          (batch_write_ok, run, ws, cs, p') \<Rightarrow>
            if \<not> batch_write_ok then (notify_all ws cs False, none, rollback batch_start_offset p p')
            else
              let p'' = p'\<lparr>m_raftLogsFileSize := m_raftLogsFileSize p' + int (written_bytes run)\<rparr> in
              if need_roll run then
                (notify_all ws cs sync_ok, none, if sync_ok then RollSegment p'' else p'')
              else finish_turn sync_ok time_due
                \<lparr>pending_count = pending_count w + written_count run,
                 pending_bytes = pending_bytes w + written_bytes run, waiters = ws, callbacks = cs\<rparr> p'')"

lemma write_logs_appends:
  assumes "log_fd p = Some s"
  shows "\<exists>w' p'. write_logs ser es w p = (length (segment_bytes ser es) \<le> br_room w, w', p')
    \<and> br_room w' = br_room w - length (segment_bytes ser es)
    \<and> (length (segment_bytes ser es) \<le> br_room w \<longrightarrow> written_count w' = written_count w + length es)
    \<and> appends (take (br_room w) (segment_bytes ser es)) p p'"
  using assms
proof (induction es arbitrary: w p)
  case Nil
  show ?case by (simp add: segment_bytes_def appends_def)
next
  case (Cons e es)
  let ?n = "length (entry_bytes ser e)"
  obtain p1 where p1: "write_entry ser e (br_room w) p = (?n \<le> br_room w, br_room w - ?n, p1)"
    "appends (take (br_room w) (entry_bytes ser e)) p p1"
    using write_entry_appends [OF Cons.prems, of ser e "br_room w"] by auto
  show ?case
  proof (cases "?n \<le> br_room w")
    case False
    then show ?thesis using p1 by (simp add: segment_bytes_Cons)
  next
    case True
    let ?w = "\<lparr>br_room = br_room w - ?n, written_bytes = written_bytes w + (24 + length (ser e)),
        written_count = written_count w + 1,
        need_roll = (need_roll w \<or> m_segmentEntryCount p1 \<ge> 1000 \<or> m_segmentBytes p1 \<ge> 8 * 1024 * 1024)\<rparr>"
    have "log_fd p1 = Some s" using appendsD(1) [OF p1(2)] Cons.prems by simp
    then obtain w' p2 where p2: "write_logs ser es ?w p1 =
        (length (segment_bytes ser es) \<le> br_room w - ?n, w', p2)"
      "br_room w' = br_room w - ?n - length (segment_bytes ser es)"
      "length (segment_bytes ser es) \<le> br_room w - ?n \<longrightarrow> written_count w' = written_count w + 1 + length es"
      "appends (take (br_room w - ?n) (segment_bytes ser es)) p1 p2"
      using Cons.IH [of p1 ?w] by auto
    have "appends (take (br_room w) (entry_bytes ser e) @ take (br_room w - ?n) (segment_bytes ser es)) p p2"
      by (rule appends_trans [OF p1(2) p2(4)])
    moreover have "length (segment_bytes ser es) \<le> br_room w - ?n
        \<longleftrightarrow> length (segment_bytes ser (e # es)) \<le> br_room w"
      using True by (auto simp: segment_bytes_Cons)
    ultimately show ?thesis
      using True p1(1) p2 by (simp add: segment_bytes_Cons)
  qed
qed

text \<open>Whom a list of batches wants told.\<close>

definition batch_waiters :: "LogBatch list \<Rightarrow> nat list" where
  "batch_waiters bs = List.map_filter lb_waiter bs"

definition batch_callbacks :: "LogBatch list \<Rightarrow> nat list" where
  "batch_callbacks bs = List.map_filter lb_callback bs"

definition batch_bytes :: "(LogEntry \<Rightarrow> u8 list) \<Rightarrow> LogBatch list \<Rightarrow> u8 list" where
  "batch_bytes ser bs = segment_bytes ser (concat (map lb_logs bs))"

lemma batch_simps [simp]:
  "batch_waiters [] = []" "batch_callbacks [] = []" "batch_bytes ser [] = []"
  "batch_waiters (b # bs) = (case lb_waiter b of None \<Rightarrow> [] | Some x \<Rightarrow> [x]) @ batch_waiters bs"
  "batch_callbacks (b # bs) = (case lb_callback b of None \<Rightarrow> [] | Some x \<Rightarrow> [x]) @ batch_callbacks bs"
  "batch_bytes ser (b # bs) = segment_bytes ser (lb_logs b) @ batch_bytes ser bs"
  by (simp_all add: batch_waiters_def batch_callbacks_def batch_bytes_def segment_bytes_def
      List.map_filter_simps split: option.split)

lemma add_tag: "(case t of None \<Rightarrow> ts | Some x \<Rightarrow> ts @ [x]) = ts @ (case t of None \<Rightarrow> [] | Some x \<Rightarrow> [x])"
  by (cases t) auto

lemma write_batches_ok:
  assumes "log_fd p = Some s" "length (batch_bytes ser bs) \<le> br_room w"
  shows "\<exists>w' p'. write_batches ser bs w ws cs p = (True, w', ws @ batch_waiters bs, cs @ batch_callbacks bs, p')
    \<and> br_room w' = br_room w - length (batch_bytes ser bs)
    \<and> written_count w' = written_count w + length (concat (map lb_logs bs)) \<and> appends (batch_bytes ser bs) p p'"
  using assms
proof (induction bs arbitrary: w ws cs p)
  case (Cons b bs)
  let ?n = "length (segment_bytes ser (lb_logs b))"
  obtain w1 p1 where p1: "write_logs ser (lb_logs b) w p = (True, w1, p1)"
    "br_room w1 = br_room w - ?n" "appends (segment_bytes ser (lb_logs b)) p p1"
    "written_count w1 = written_count w + length (lb_logs b)"
    using write_logs_appends [OF Cons.prems(1), of ser "lb_logs b" w] Cons.prems(2) by auto
  have fd: "log_fd p1 = Some s" using appendsD(1) [OF p1(3)] Cons.prems(1) by simp
  have fit: "length (batch_bytes ser bs) \<le> br_room w1" using p1(2) Cons.prems(2) by simp
  obtain w' p2 where p2: "write_batches ser bs w1
        (ws @ (case lb_waiter b of None \<Rightarrow> [] | Some x \<Rightarrow> [x]))
        (cs @ (case lb_callback b of None \<Rightarrow> [] | Some x \<Rightarrow> [x])) p1 =
      (True, w', (ws @ (case lb_waiter b of None \<Rightarrow> [] | Some x \<Rightarrow> [x])) @ batch_waiters bs,
       (cs @ (case lb_callback b of None \<Rightarrow> [] | Some x \<Rightarrow> [x])) @ batch_callbacks bs, p2)"
    "br_room w' = br_room w1 - length (batch_bytes ser bs)" "appends (batch_bytes ser bs) p1 p2"
    "written_count w' = written_count w1 + length (concat (map lb_logs bs))"
    using Cons.IH [OF fd fit] by blast
  have "appends (batch_bytes ser (b # bs)) p p2" using appends_trans [OF p1(3) p2(3)] by simp
  then show ?case using p1 p2 by (simp add: add_tag)
qed (simp add: appends_def)

lemma write_batches_fail:
  assumes "log_fd p = Some s" "length (batch_bytes ser bs1) \<le> br_room w"
    "br_room w < length (batch_bytes ser (bs1 @ [b]))"
  shows "\<exists>w' p' d. write_batches ser (bs1 @ b # bs2) w ws cs p =
      (False, w', ws @ batch_waiters (bs1 @ [b]), cs @ batch_callbacks (bs1 @ [b]), p')
    \<and> appends d p p'"
  using assms
proof (induction bs1 arbitrary: w ws cs p)
  case Nil
  then show ?case
    using write_logs_appends [OF Nil.prems(1), of ser "lb_logs b" w] by (fastforce simp: add_tag Let_def)
next
  case (Cons a bs1)
  let ?n = "length (segment_bytes ser (lb_logs a))"
  obtain w1 p1 where p1: "write_logs ser (lb_logs a) w p = (True, w1, p1)"
    "br_room w1 = br_room w - ?n" "appends (segment_bytes ser (lb_logs a)) p p1"
    using write_logs_appends [OF Cons.prems(1), of ser "lb_logs a" w] Cons.prems(2) by auto
  have fd: "log_fd p1 = Some s" using appendsD(1) [OF p1(3)] Cons.prems(1) by simp
  have fit: "length (batch_bytes ser bs1) \<le> br_room w1" "br_room w1 < length (batch_bytes ser (bs1 @ [b]))"
    using p1(2) Cons.prems(2,3) by simp_all
  obtain w' p2 d where p2: "write_batches ser (bs1 @ b # bs2) w1
        (ws @ (case lb_waiter a of None \<Rightarrow> [] | Some x \<Rightarrow> [x]))
        (cs @ (case lb_callback a of None \<Rightarrow> [] | Some x \<Rightarrow> [x])) p1 =
      (False, w', (ws @ (case lb_waiter a of None \<Rightarrow> [] | Some x \<Rightarrow> [x])) @ batch_waiters (bs1 @ [b]),
       (cs @ (case lb_callback a of None \<Rightarrow> [] | Some x \<Rightarrow> [x])) @ batch_callbacks (bs1 @ [b]), p2)"
    "appends d p1 p2"
    using Cons.IH [OF fd fit] by blast
  have "appends (segment_bytes ser (lb_logs a) @ d) p p2" by (rule appends_trans [OF p1(3) p2(2)])
  then show ?case using p1 p2 by (auto simp: add_tag)
qed

lemma rollback_content:
  assumes "log_fd p = Some s" "appends d p p'" "fd_offset p \<le> length (open_content p)"
  shows "open_content (rollback (fd_offset p) p p') = take (fd_offset p) (open_content p)"
    "fd_offset (rollback (fd_offset p) p p') = fd_offset p"
    "m_segmentLastIndex (rollback (fd_offset p) p p') = m_segmentLastIndex p"
proof -
  have fd: "log_fd p' = Some s" using appendsD(1) [OF assms(2)] assms(1) by simp
  then have "file_content (wal_dir p') s = open_content p @ d"
    using appendsD(2) [OF assms(2)] by (simp add: open_content_def)
  then show "open_content (rollback (fd_offset p) p p') = take (fd_offset p) (open_content p)"
    "fd_offset (rollback (fd_offset p) p p') = fd_offset p"
    "m_segmentLastIndex (rollback (fd_offset p) p p') = m_segmentLastIndex p"
    using fd assms(3) by (simp_all add: rollback_def open_content_def)
qed

lemma RollSegment_content:
  assumes "log_fd p = Some (openSegmentName (m_segmentFirstIndex p))"
  shows "\<exists>t. file_content (wal_dir (RollSegment p)) t = open_content p"
proof (cases "m_segmentEntryCount p = 0")
  case True
  then show ?thesis using assms
    by (intro exI [of _ "openSegmentName (m_segmentFirstIndex p)"]) (simp add: RollSegment_def open_content_def)
next
  case False
  have "closedSegmentName f l \<noteq> openSegmentName g" for f l g
    by (simp add: closedSegmentName_def openSegmentName_def)
  then show ?thesis using assms False
    by (intro exI [of _ "closedSegmentName (m_segmentFirstIndex p) (m_segmentLastIndex p)"])
       (simp add: RollSegment_def OpenSegment_def Let_def open_content_def)
qed

section \<open>Properties\<close>

text \<open>C25: Whatever records the segments hold, the recovered log is contiguous from the snapshot on.
  An appended record at an index within or just past that log replaces everything from that index
  on, any other record is skipped, and a log that is already contiguous is recovered as it is.\<close>

theorem replay_spec:
  "0 \<le> s \<Longrightarrow> s < 2 ^ 31 - 1 \<Longrightarrow>
   contiguous s (replay (word_of_int s) es)
   \<and> replay (word_of_int s) (es @ [e]) =
       (if s < logindex e \<and> logindex e \<le> s + int (length (replay (word_of_int s) es)) + 1
        then take (nat (logindex e - s - 1)) (replay (word_of_int s) es) @ [e]
        else replay (word_of_int s) es)
   \<and> (contiguous s es \<longrightarrow> replay (word_of_int s) es = es)"
  using contiguous_replay [of s es] replay_id [of s es]
    replay_step_contiguous [OF contiguous_replay [of s es], of e]
  by (simp add: replay_snoc)

text \<open>Entries 1 to 3, of which 2 is then written again: 3 is gone.\<close>

theorem replay_spec_witness:
  "replay 0 (map sample_entry [1, 2, 3] @ [sample_entry 2]) = map sample_entry [1, 2]"
proof -
  have "contiguous 0 (map sample_entry [1, 2, 3])"
    by (simp add: contiguous_def sample_entry_def less_Suc_eq numeral_3_eq_3)
  then show ?thesis
    using replay_spec [of 0 "map sample_entry [1, 2, 3]" "sample_entry 2"]
    by (simp add: sample_entry_def numeral_2_eq_2)
qed

text \<open>Compacting the log keeps what a restart recovers when the rewritten log fits on the disk. The
  old files are removed first, so with less room, and equally when the process stops while it
  writes, only the entries written by then are left; the failure is not reported.\<close>

lemma CompactWal_spec:
  "0 \<le> s \<Longrightarrow> s < 2 ^ 31 - 1 \<Longrightarrow>
   log = snd (ReadPersistedLogs parse (word_of_int s) p) \<Longrightarrow> \<forall>e \<in> set log. codec_ok ser parse e \<Longrightarrow>
   CompactWal ser parse (word_of_int s) room p = (room', p') \<Longrightarrow>
   \<exists>k \<le> length log. snd (ReadPersistedLogs parse (word_of_int s) p') = take k log
     \<and> length (segment_bytes ser (take k log)) \<le> room
     \<and> (k < length log \<longrightarrow> room < length (segment_bytes ser (take (Suc k) log)))
     \<and> (length (segment_bytes ser log) \<le> room \<longrightarrow>
          k = length log \<and> m_raftLogsFileSize p' = int (length (segment_bytes ser log)))"
proof -
  assume s: "0 \<le> s" "s < 2 ^ 31 - 1" and log: "log = snd (ReadPersistedLogs parse (word_of_int s) p)"
    and codec: "\<forall>e \<in> set log. codec_ok ser parse e"
    and run: "CompactWal ser parse (word_of_int s) room p = (room', p')"
  have s': "s < 2147483647" using s by simp
  note compact = CompactWal_recovers [OF s(1) s' log codec run]
  obtain k where k: "k \<le> length log" "length (segment_bytes ser (take k log)) \<le> room"
    "k < length log \<longrightarrow> room < length (segment_bytes ser (take (Suc k) log))"
    "snd (ReadPersistedLogs parse (word_of_int s) p') = take k log"
    using compact(1) by blast
  have "length (segment_bytes ser (take (Suc k) log)) \<le> length (segment_bytes ser log)"
  proof -
    have "segment_bytes ser log = segment_bytes ser (take (Suc k) log) @ segment_bytes ser (drop (Suc k) log)"
      by (simp add: segment_bytes_def flip: concat_append map_append)
    then show ?thesis by (metis length_append le_add1)
  qed
  then have "length (segment_bytes ser log) \<le> room \<longrightarrow> k = length log"
    using k(1,3) by (cases "k < length log") auto
  then show ?thesis using k compact(2) by auto
qed

text \<open>The directory of a node that has written entries 1 to 3 into its open segment.\<close>

definition sample_wal :: persister where
  "sample_wal = \<lparr>wal_dir = [(openSegmentName 1, segment_bytes sample_ser (map sample_entry [1, 2, 3]))],
     log_fd = Some (openSegmentName 1), fd_offset = 75, m_segmentFirstIndex = 1, m_segmentLastIndex = 3,
     m_segmentEntryCount = 3, m_segmentBytes = 75, m_raftLogsFileSize = 75, m_compactedSnapshotIndex = 0\<rparr>"

lemma sample_bytes_length: "length (segment_bytes sample_ser es) = 25 * length es"
  by (induction es) (simp_all add: segment_bytes_def length_entry_bytes sample_ser_def)

lemma sample_wal_log: "snd (ReadPersistedLogs sample_parse 1 sample_wal) = map sample_entry [2, 3]"
proof -
  have "read_records sample_parse 1 (segment_bytes sample_ser (map sample_entry [1, 2, 3])) =
      (map sample_entry [2, 3], 75)"
    using read_segment_all [of "map sample_entry [1, 2, 3]" sample_ser sample_parse 1]
    by (simp add: sample_codec sample_bytes_length) (simp add: sample_entry_def)
  moreover have "replay 1 (map sample_entry [2, 3]) = map sample_entry [2, 3]"
    using replay_id [of 1 "map sample_entry [2, 3]"]
    by (simp add: contiguous_def sample_entry_def less_Suc_eq numeral_2_eq_2)
  ultimately show ?thesis
    using ReadPersistedLogs_single [of sample_wal "openSegmentName 1"
        "segment_bytes sample_ser (map sample_entry [1, 2, 3])" sample_parse 1]
    by (simp add: sample_wal_def)
qed

text \<open>With room for 30 bytes only entry 2 of the two entries past the snapshot is left.\<close>

theorem CompactWal_spec_witness:
  "snd (ReadPersistedLogs sample_parse 1 (snd (CompactWal sample_ser sample_parse 1 30 sample_wal))) =
     [sample_entry 2]"
proof -
  obtain room' p' where run: "CompactWal sample_ser sample_parse (word_of_int 1) 30 sample_wal = (room', p')"
    by (cases "CompactWal sample_ser sample_parse (word_of_int 1) 30 sample_wal")
  let ?log = "map sample_entry [2, 3]"
  have log: "?log = snd (ReadPersistedLogs sample_parse (word_of_int 1) sample_wal)"
    using sample_wal_log by simp
  have codec: "\<forall>e \<in> set ?log. codec_ok sample_ser sample_parse e" by (simp add: sample_codec)
  have "\<exists>k \<le> length ?log. snd (ReadPersistedLogs sample_parse (word_of_int 1) p') = take k ?log
     \<and> length (segment_bytes sample_ser (take k ?log)) \<le> 30
     \<and> (k < length ?log \<longrightarrow> 30 < length (segment_bytes sample_ser (take (Suc k) ?log)))
     \<and> (length (segment_bytes sample_ser ?log) \<le> 30 \<longrightarrow>
          k = length ?log \<and> m_raftLogsFileSize p' = int (length (segment_bytes sample_ser ?log)))"
    by (rule CompactWal_spec [OF _ _ log codec run]) simp_all
  then obtain k where k: "k \<le> length ?log" "snd (ReadPersistedLogs sample_parse (word_of_int 1) p') = take k ?log"
    "length (segment_bytes sample_ser (take k ?log)) \<le> 30"
    "k < length ?log \<longrightarrow> 30 < length (segment_bytes sample_ser (take (Suc k) ?log))"
    by blast
  have "25 * min k 2 \<le> 30" "k < 2 \<longrightarrow> 30 < 25 * min (Suc k) 2"
    using k(3,4) unfolding sample_bytes_length by (simp_all add: min.commute)
  moreover have "k = 0 \<or> k = 1 \<or> k = 2" using k(1) by auto
  ultimately have "k = 1" by auto
  then show ?thesis using k(2) run by simp
qed

text \<open>A turn of the writer that can write all its batches appends exactly their records, in order, to
  the open segment, and forgets nobody: either it tells everybody who waits, from this turn and
  the earlier ones, the result of the sync, or they all keep waiting for a later turn; they are told now if the
  interval is over and the turn wrote anything.\<close>

lemma writer_turn_stable:
  "log_fd p = Some (openSegmentName (m_segmentFirstIndex p)) \<Longrightarrow>
   length (batch_bytes ser batches) \<le> room \<Longrightarrow>
   writer_turn ser batches room sync_ok time_due w p = (notices, w', p') \<Longrightarrow>
   (\<exists>t. file_content (wal_dir p') t = open_content p @ batch_bytes ser batches)
   \<and> (notices = notify_all (waiters w @ batch_waiters batches) (callbacks w @ batch_callbacks batches) sync_ok
        \<and> waiters w' = [] \<and> callbacks w' = []
      \<or> \<not> (time_due \<and> concat (map lb_logs batches) \<noteq> []) \<and> notices = [] \<and> waiters w' = waiters w @ batch_waiters batches
        \<and> callbacks w' = callbacks w @ batch_callbacks batches)"
proof -
  assume fd: "log_fd p = Some (openSegmentName (m_segmentFirstIndex p))"
    and fit: "length (batch_bytes ser batches) \<le> room"
    and run: "writer_turn ser batches room sync_ok time_due w p = (notices, w', p')"
  have opened: "\<exists>t. file_content (wal_dir q) t = open_content p @ batch_bytes ser batches"
    if "appends (batch_bytes ser batches) p q" for q
    using appendsD(1,2) [OF that] fd by (auto simp: open_content_def)
  show ?thesis
  proof (cases "batches = []")
    case True
    then show ?thesis using run opened [of p]
      by (auto simp: writer_turn_def finish_turn_def appends_def split: if_splits)
  next
    case False
    let ?w0 = "\<lparr>br_room = room, written_bytes = 0, written_count = 0, need_roll = False\<rparr>"
    obtain r p1 where b: "write_batches ser batches ?w0 (waiters w) (callbacks w) p =
        (True, r, waiters w @ batch_waiters batches, callbacks w @ batch_callbacks batches, p1)"
      and app: "appends (batch_bytes ser batches) p p1"
      and count: "written_count r = length (concat (map lb_logs batches))"
    proof -
      have "length (batch_bytes ser batches) \<le> br_room ?w0" using fit by simp
      from write_batches_ok [OF fd this, of "waiters w" "callbacks w"] that show ?thesis by auto
    qed
    have due: "concat (map lb_logs batches) \<noteq> [] \<longrightarrow> 0 < written_count r"
      unfolding count by (rule impI) (rule length_greater_0_conv [THEN iffD2])
    let ?p2 = "p1\<lparr>m_raftLogsFileSize := m_raftLogsFileSize p1 + int (written_bytes r)\<rparr>"
    have app2: "appends (batch_bytes ser batches) p ?p2" using app by simp
    have "log_fd ?p2 = Some (openSegmentName (m_segmentFirstIndex ?p2))"
      using appendsD(1,4) [OF app2] fd by simp
    then obtain t where "file_content (wal_dir (RollSegment ?p2)) t = open_content ?p2"
      using RollSegment_content by blast
    then have "\<exists>t. file_content (wal_dir (RollSegment ?p2)) t = open_content p @ batch_bytes ser batches"
      using appendsD(2) [OF app2] by auto
    moreover have turn: "writer_turn ser batches room sync_ok time_due w p =
        (if need_roll r then
           (notify_all (waiters w @ batch_waiters batches) (callbacks w @ batch_callbacks batches) sync_ok,
            \<lparr>pending_count = 0, pending_bytes = 0, waiters = [], callbacks = []\<rparr>,
            if sync_ok then RollSegment ?p2 else ?p2)
         else finish_turn sync_ok time_due
           \<lparr>pending_count = pending_count w + written_count r,
            pending_bytes = pending_bytes w + written_bytes r,
            waiters = waiters w @ batch_waiters batches,
            callbacks = callbacks w @ batch_callbacks batches\<rparr> ?p2)"
      using False b by (simp add: writer_turn_def Let_def)
    have "p' = RollSegment ?p2 \<or> p' = ?p2"
      using run unfolding turn finish_turn_def by (simp split: if_splits)
    ultimately have "\<exists>t. file_content (wal_dir p') t = open_content p @ batch_bytes ser batches"
      using opened [OF app2] by metis
    moreover have "notices = notify_all (waiters w @ batch_waiters batches) (callbacks w @ batch_callbacks batches) sync_ok
        \<and> waiters w' = [] \<and> callbacks w' = []
      \<or> \<not> (time_due \<and> concat (map lb_logs batches) \<noteq> []) \<and> notices = []
        \<and> waiters w' = waiters w @ batch_waiters batches
        \<and> callbacks w' = callbacks w @ batch_callbacks batches"
      using run due unfolding turn finish_turn_def
      by (auto simp del: concat_eq_Nil_conv split: if_splits)
    ultimately show ?thesis by blast
  qed
qed

definition sample_batch :: "nat \<Rightarrow> LogBatch" where
  "sample_batch n = \<lparr>lb_logs = [sample_entry (int n)], lb_waiter = Some n, lb_callback = None\<rparr>"

theorem writer_turn_stable_witness:
  "\<exists>w' p'. writer_turn sample_ser [sample_batch 4, sample_batch 5] 1000 True True
       \<lparr>pending_count = 0, pending_bytes = 0, waiters = [], callbacks = []\<rparr> sample_wal =
         ([Waiter_done 4 True, Waiter_done 5 True], w', p')
     \<and> (\<exists>t. file_content (wal_dir p') t =
          segment_bytes sample_ser (map sample_entry [1, 2, 3]) @ segment_bytes sample_ser (map sample_entry [4, 5]))"
proof -
  let ?bs = "[sample_batch 4, sample_batch 5]"
  let ?w = "\<lparr>pending_count = 0, pending_bytes = 0, waiters = [], callbacks = []\<rparr>"
  obtain ns w' p' where run: "writer_turn sample_ser ?bs 1000 True True ?w sample_wal = (ns, w', p')"
    by (cases "writer_turn sample_ser ?bs 1000 True True ?w sample_wal")
  have fd: "log_fd sample_wal = Some (openSegmentName (m_segmentFirstIndex sample_wal))"
    by (simp add: sample_wal_def)
  have bytes: "batch_bytes sample_ser ?bs = segment_bytes sample_ser (map sample_entry [4, 5])"
    by (simp add: sample_batch_def segment_bytes_def)
  have content: "open_content sample_wal = segment_bytes sample_ser (map sample_entry [1, 2, 3])"
    by (simp add: sample_wal_def open_content_def file_content_def)
  have fit: "length (batch_bytes sample_ser ?bs) \<le> 1000" unfolding bytes sample_bytes_length by simp
  note stable_turn = writer_turn_stable [OF fd fit run]
  then have "ns = [Waiter_done 4 True, Waiter_done 5 True]"
    by (auto simp: notify_all_def sample_batch_def)
  with run stable_turn bytes content show ?thesis by auto
qed

lemma writer_turn_fails:
  assumes fd: "log_fd p = Some s" and pos: "fd_offset p \<le> length (open_content p)"
    and fit: "length (batch_bytes ser bs1) \<le> room" "room < length (batch_bytes ser (bs1 @ [b]))"
    and run: "writer_turn ser (bs1 @ b # bs2) room sync_ok time_due w p = (notices, w', p')"
  shows "notices = notify_all (waiters w @ batch_waiters (bs1 @ [b])) (callbacks w @ batch_callbacks (bs1 @ [b])) False
    \<and> waiters w' = [] \<and> callbacks w' = []
    \<and> open_content p' = take (fd_offset p) (open_content p) \<and> m_segmentLastIndex p' = m_segmentLastIndex p"
proof -
  let ?w0 = "\<lparr>br_room = room, written_bytes = 0, written_count = 0, need_roll = False\<rparr>"
  have "length (batch_bytes ser bs1) \<le> br_room ?w0" "br_room ?w0 < length (batch_bytes ser (bs1 @ [b]))"
    using fit by simp_all
  from write_batches_fail [OF fd this, of bs2 "waiters w" "callbacks w"] obtain r p1 d where
    b: "write_batches ser (bs1 @ b # bs2) ?w0 (waiters w) (callbacks w) p =
      (False, r, waiters w @ batch_waiters (bs1 @ [b]), callbacks w @ batch_callbacks (bs1 @ [b]), p1)"
    and app: "appends d p p1" by blast
  have "p' = rollback (fd_offset p) p p1"
    "notices = notify_all (waiters w @ batch_waiters (bs1 @ [b])) (callbacks w @ batch_callbacks (bs1 @ [b])) False"
    "waiters w' = []" "callbacks w' = []"
    using run unfolding writer_turn_def Let_def b by auto
  then show ?thesis using rollback_content [OF fd app pos] by simp
qed


lemma sample_batch_bytes: "length (batch_bytes sample_ser (map sample_batch ns)) = 25 * length ns"
  by (induction ns) (simp_all add: sample_batch_def segment_bytes_def length_entry_bytes sample_ser_def)


text \<open>After a restart the position of the reopened segment is its start, although writes go to its
  end. If the first turn then fails, the cut removes every record of the segment.\<close>

lemma failure_after_restart_empties_segment:
  "wal_dir p = [(openSegmentName f, segment_bytes ser es)] \<Longrightarrow> \<forall>e \<in> set es. codec_ok ser parse e \<Longrightarrow>
   room < length (batch_bytes ser [b]) \<Longrightarrow>
   writer_turn ser [b] room sync_ok time_due w (ReopenLatestSegment parse p) = (notices, w', p') \<Longrightarrow>
   open_content (ReopenLatestSegment parse p) = segment_bytes ser es \<and> open_content p' = []"
proof -
  assume dir: "wal_dir p = [(openSegmentName f, segment_bytes ser es)]"
    and codec: "\<forall>e \<in> set es. codec_ok ser parse e" and full: "room < length (batch_bytes ser [b])"
    and run: "writer_turn ser [b] room sync_ok time_due w (ReopenLatestSegment parse p) = (notices, w', p')"
  let ?r = "ReopenLatestSegment parse p"
  have "ReadWalSegment parse 0 (segment_bytes ser es) =
      (segment_bytes ser es, filter (\<lambda>e. (word_of_int (logindex e) :: u64) > 0) es, length (segment_bytes ser es))"
    unfolding ReadWalSegment_def read_segment_all [OF codec] by simp
  then have fd: "log_fd ?r = Some (openSegmentName f)" and pos: "fd_offset ?r = 0"
    and content: "open_content ?r = segment_bytes ser es"
    using dir by (auto simp: ReopenLatestSegment_def ListSegments_def Let_def file_content_def
        openSegmentName_def open_content_def)
  have "open_content p' = take (fd_offset ?r) (open_content ?r)"
    using writer_turn_fails [OF fd, of ser "[]" room b "[]"] pos full run by simp
  with content pos show ?thesis by simp
qed

theorem failure_after_restart_empties_segment_witness:
  "\<exists>ns w' p'. writer_turn sample_ser [sample_batch 4] 0 True True
       \<lparr>pending_count = 0, pending_bytes = 0, waiters = [], callbacks = []\<rparr>
       (ReopenLatestSegment sample_parse sample_wal) = (ns, w', p') \<and> open_content p' = []"
proof -
  let ?w = "\<lparr>pending_count = 0, pending_bytes = 0, waiters = [], callbacks = []\<rparr>"
  obtain ns w' p' where run: "writer_turn sample_ser [sample_batch 4] 0 True True ?w
      (ReopenLatestSegment sample_parse sample_wal) = (ns, w', p')"
    by (cases "writer_turn sample_ser [sample_batch 4] 0 True True ?w (ReopenLatestSegment sample_parse sample_wal)")
  have "0 < length (batch_bytes sample_ser [sample_batch 4])"
    using sample_batch_bytes [of "[4]"] by simp
  moreover have "\<forall>e \<in> set (map sample_entry [1, 2, 3]). codec_ok sample_ser sample_parse e"
    by (simp add: sample_codec)
  moreover have "wal_dir sample_wal = [(openSegmentName 1, segment_bytes sample_ser (map sample_entry [1, 2, 3]))]"
    by (simp add: sample_wal_def)
  ultimately show ?thesis
    using failure_after_restart_empties_segment [OF _ _ _ run] run by blast
qed

end
