(* ===== verification/Storage.thy ===== *)
theory Storage
  imports Wal "HOL-Library.Multiset"
begin

text \<open>
  The persister as a whole (src/persist/Persister.cc): what the segments hold over any number of
  turns of the writer, and what is recovered from them after a restart; the calls that hand entries to
  the writer; the replacement of the snapshot file; and \<open>Save\<close>, which compacts the log once the node record
  names a new snapshot.
\<close>

section \<open>What the segments hold\<close>

text \<open>
  The segments with the entries written to them, in the order of \<open>ListSegments\<close>; the open segment
  is the last one and starts behind every other.
\<close>

definition wal_ok ::
  "(LogEntry \<Rightarrow> u8 list) \<Rightarrow> (u8 list \<Rightarrow> LogEntry option) \<Rightarrow> persister \<Rightarrow>
   (segment \<times> LogEntry list) list \<Rightarrow> LogEntry list \<Rightarrow> bool" where
  "wal_ok ser parse p old es \<longleftrightarrow>
     (let segs = old @ [(openSegmentName (m_segmentFirstIndex p), es)] in
      log_fd p = Some (openSegmentName (m_segmentFirstIndex p))
      \<and> sorted_wrt (<) (map (segment_key \<circ> fst) old)
      \<and> (\<forall>x \<in> set old. segment_key (fst x) < 2 * unat (m_segmentFirstIndex p))
      \<and> mset (map fst (wal_dir p)) = mset (map fst segs)
      \<and> (\<forall>x \<in> set segs. file_content (wal_dir p) (fst x) = segment_bytes ser (snd x))
      \<and> (\<forall>x \<in> set segs. \<forall>e \<in> set (snd x). codec_ok ser parse e)
      \<and> (\<forall>e \<in> set es. int (unat (m_segmentFirstIndex p)) \<le> logindex e)
      \<and> (m_segmentEntryCount p \<noteq> 0 \<longrightarrow>
           es \<noteq> [] \<and> m_segmentLastIndex p = word_of_int (logindex (last es))))"

text \<open>All entries the segments hold, oldest first.\<close>

definition wal_holds ::
  "(LogEntry \<Rightarrow> u8 list) \<Rightarrow> (u8 list \<Rightarrow> LogEntry option) \<Rightarrow> persister \<Rightarrow> LogEntry list \<Rightarrow> bool" where
  "wal_holds ser parse p all \<longleftrightarrow> (\<exists>old es. wal_ok ser parse p old es \<and> all = concat (map snd old) @ es)"

lemma wal_okD:
  assumes "wal_ok ser parse p old es"
  shows "log_fd p = Some (openSegmentName (m_segmentFirstIndex p))"
    "sorted_wrt (<) (map (segment_key \<circ> fst) old)"
    "x \<in> set old \<Longrightarrow> segment_key (fst x) < 2 * unat (m_segmentFirstIndex p)"
    "mset (map fst (wal_dir p)) = mset (map fst (old @ [(openSegmentName (m_segmentFirstIndex p), es)]))"
    "x \<in> set (old @ [(openSegmentName (m_segmentFirstIndex p), es)]) \<Longrightarrow>
       file_content (wal_dir p) (fst x) = segment_bytes ser (snd x)"
    "x \<in> set (old @ [(openSegmentName (m_segmentFirstIndex p), es)]) \<Longrightarrow> e \<in> set (snd x) \<Longrightarrow> codec_ok ser parse e"
    "e \<in> set es \<Longrightarrow> int (unat (m_segmentFirstIndex p)) \<le> logindex e"
    "m_segmentEntryCount p \<noteq> 0 \<Longrightarrow> es \<noteq> [] \<and> m_segmentLastIndex p = word_of_int (logindex (last es))"
  using assms by (auto simp: wal_ok_def Let_def)

lemma segment_key_open [simp]: "segment_key (openSegmentName f) = 2 * unat f + 1"
  and segment_key_closed [simp]: "segment_key (closedSegmentName f l) = 2 * unat f"
  by (simp_all add: segment_key_def openSegmentName_def closedSegmentName_def)

lemma sorted_distinct_key:
  "sorted_wrt (<) (map (k :: 'a \<Rightarrow> nat) xs) \<Longrightarrow> sorted (map k xs) \<and> inj_on k (set xs) \<and> distinct xs"
  by (auto simp: strict_sorted_iff distinct_map)

lemma ListSegments_sorted:
  assumes "mset (map fst d) = mset ss" "sorted_wrt (<) (map segment_key ss)"
  shows "ListSegments d = ss"
proof -
  have "inj_on segment_key (set (map fst d))"
    using sorted_distinct_key [OF assms(2)] mset_eq_setD [OF assms(1)] by simp
  then show ?thesis
    unfolding ListSegments_def
    using sorted_distinct_key [OF assms(2)] assms(1) by (intro sort_key_inj_key_eq) auto
qed

lemma wal_ok_order:
  assumes "wal_ok ser parse p old es"
  shows "ListSegments (wal_dir p) = map fst (old @ [(openSegmentName (m_segmentFirstIndex p), es)])"
proof (rule ListSegments_sorted [OF wal_okD(4) [OF assms]])
  show "sorted_wrt (<) (map segment_key (map fst (old @ [(openSegmentName (m_segmentFirstIndex p), es)])))"
    using wal_okD(2,3) [OF assms] by (fastforce simp: sorted_wrt_append)
qed

section \<open>Recovery\<close>

lemma past_snapshot_filter:
  assumes "\<forall>e \<in> set es. codec_ok ser parse e" "0 \<le> s" "s < 2 ^ 31 - 1"
  shows "filter (\<lambda>e. (word_of_int (logindex e) :: u64) > word_of_int s) es = filter (\<lambda>e. s < logindex e) es"
  using assms index_past_snapshot by (intro filter_cong refl) (auto simp: codec_ok_def)

text \<open>Reading whole segments leaves the files as they are.\<close>

lemma read_segments_all:
  assumes "\<forall>x \<in> set segs. fst x \<in> fst ` set d \<and> file_content d (fst x) = segment_bytes ser (snd x)
      \<and> (\<forall>e \<in> set (snd x). codec_ok ser parse e)" "0 \<le> s" "s < 2 ^ 31 - 1"
  shows "\<exists>d' n. read_segments parse (word_of_int s) (map fst segs) d =
      (d', filter (\<lambda>e. s < logindex e) (concat (map snd segs)), n)
    \<and> map fst d' = map fst d \<and> file_content d' = file_content d"
  using assms(1)
proof (induction segs arbitrary: d)
  case (Cons x segs)
  obtain name es where x: "x = (name, es)" by (cases x)
  have codec: "\<forall>e \<in> set es. codec_ok ser parse e" and mem: "name \<in> fst ` set d"
    using Cons.prems x by auto
  obtain c where c: "map_of d name = Some c" using mem by (metis map_of_eq_None_iff not_Some_eq)
  then have "c = segment_bytes ser es" using Cons.prems x by (simp add: file_content_def)
  then have r: "ReadWalSegment parse (word_of_int s) c = (c, filter (\<lambda>e. s < logindex e) es, length c)"
    by (simp add: ReadWalSegment_def read_segment_all [OF codec] past_snapshot_filter [OF codec assms(2,3)])
  have same: "file_content (AList.update name c d) = file_content d"
    using c by (auto simp: fun_eq_iff file_content_def update_conv')
  have keys: "map fst (AList.update name c d) = map fst d" using mem by (rule Wal.update_keys)
  then have dom: "fst ` set (AList.update name c d) = fst ` set d" by (metis set_map)
  obtain d' n where "read_segments parse (word_of_int s) (map fst segs) (AList.update name c d) =
      (d', filter (\<lambda>e. s < logindex e) (concat (map snd segs)), n)" "map fst d' = map fst d" "file_content d' = file_content d"
    using Cons.IH [of "AList.update name c d"] Cons.prems x same keys dom by auto
  then show ?case using c r by (simp add: x)
qed simp

lemma replay_filter:
  assumes "0 \<le> s" "s < 2 ^ 31 - 1"
  shows "replay (word_of_int s) (filter (\<lambda>e. s < logindex e) es) = replay (word_of_int s) es"
proof (induction es rule: rev_induct)
  case (snoc e es)
  show ?case
  proof (cases "s < logindex e")
    case False
    then have "replay_step (word_of_int s) logs e = logs" for logs
      using assms by (simp add: replay_step_def to_i32_snap)
    then show ?thesis using snoc False by (simp add: replay_snoc)
  qed (use snoc in \<open>simp add: replay_snoc\<close>)
qed simp

lemma wal_holds_recovered:
  assumes "wal_holds ser parse p all" "0 \<le> s" "s < 2 ^ 31 - 1"
  shows "snd (ReadPersistedLogs parse (word_of_int s) p) = replay (word_of_int s) all"
proof -
  obtain old es where ok: "wal_ok ser parse p old es" and all: "all = concat (map snd old) @ es"
    using assms(1) by (auto simp: wal_holds_def)
  let ?segs = "old @ [(openSegmentName (m_segmentFirstIndex p), es)]"
  have keys: "fst ` set (wal_dir p) = fst ` set ?segs"
    using mset_eq_setD [OF wal_okD(4) [OF ok]] by simp
  have "\<forall>x \<in> set ?segs. fst x \<in> fst ` set (wal_dir p) \<and> file_content (wal_dir p) (fst x) = segment_bytes ser (snd x)
      \<and> (\<forall>e \<in> set (snd x). codec_ok ser parse e)"
    unfolding keys using wal_okD(5,6) [OF ok] by blast
  from read_segments_all [OF this assms(2,3)] obtain d' n where
    "read_segments parse (word_of_int s) (map fst ?segs) (wal_dir p) =
      (d', filter (\<lambda>e. s < logindex e) (concat (map snd ?segs)), n)" by blast
  then show ?thesis
    unfolding ReadPersistedLogs_def wal_ok_order [OF ok]
    using replay_filter [OF assms(2,3), of all] by (simp add: all)
qed

section \<open>Writing keeps what the segments hold\<close>

lemma write_fd_counters:
  assumes "write_fd data room p = (ok, room', p')"
  shows "m_segmentLastIndex p' = m_segmentLastIndex p \<and> m_segmentEntryCount p' = m_segmentEntryCount p"
  using assms by (auto simp: write_fd_def Let_def split: option.splits if_splits)

lemma write_entry_counters:
  assumes "write_entry ser e room p = (True, room', p')"
  shows "m_segmentLastIndex p' = word_of_int (logindex e) \<and> m_segmentEntryCount p' = m_segmentEntryCount p + 1"
  using assms by (auto simp: write_entry_def Let_def split: prod.splits if_splits dest!: write_fd_counters)

definition last_index :: "LogEntry list \<Rightarrow> u64 \<Rightarrow> u64" where
  "last_index es i = (if es = [] then i else word_of_int (logindex (last es)))"

lemma last_index_append: "last_index (xs @ ys) i = last_index ys (last_index xs i)"
  by (simp add: last_index_def)

lemma write_logs_counters:
  assumes "write_logs ser es w p = (True, w', p')"
  shows "m_segmentEntryCount p' = m_segmentEntryCount p + length es
    \<and> m_segmentLastIndex p' = last_index es (m_segmentLastIndex p)"
  using assms
proof (induction es arbitrary: w p)
  case Nil
  then show ?case by (simp add: last_index_def)
next
  case (Cons e es)
  obtain ok room1 p1 where w: "write_entry ser e (br_room w) p = (ok, room1, p1)" by (metis prod_cases3)
  with Cons.prems have "ok" by (auto split: if_splits)
  with w have one: "m_segmentLastIndex p1 = word_of_int (logindex e)" "m_segmentEntryCount p1 = m_segmentEntryCount p + 1"
    by (auto dest: write_entry_counters)
  have "m_segmentEntryCount p' = m_segmentEntryCount p1 + length es
      \<and> m_segmentLastIndex p' = last_index es (m_segmentLastIndex p1)"
    by (rule Cons.IH) (use Cons.prems w \<open>ok\<close> in auto)
  then show ?case
    using one last_index_append [of "[e]" es] by (simp add: last_index_def)
qed

lemma write_batches_counters:
  assumes "write_batches ser bs w ws cs p = (True, w', ws', cs', p')"
  shows "m_segmentEntryCount p' = m_segmentEntryCount p + length (concat (map lb_logs bs))
    \<and> m_segmentLastIndex p' = last_index (concat (map lb_logs bs)) (m_segmentLastIndex p)"
  using assms
proof (induction bs arbitrary: w ws cs p)
  case Nil
  then show ?case by (simp add: last_index_def)
next
  case (Cons b bs)
  obtain ok w1 p1 where w: "write_logs ser (lb_logs b) w p = (ok, w1, p1)" by (metis prod_cases3)
  with Cons.prems have "ok" by (auto simp: Let_def split: if_splits)
  then have "m_segmentEntryCount p' = m_segmentEntryCount p1 + length (concat (map lb_logs bs))
      \<and> m_segmentLastIndex p' = last_index (concat (map lb_logs bs)) (m_segmentLastIndex p1)"
    using Cons.prems w by (intro Cons.IH) (auto simp: Let_def)
  moreover have "m_segmentEntryCount p1 = m_segmentEntryCount p + length (lb_logs b)
      \<and> m_segmentLastIndex p1 = last_index (lb_logs b) (m_segmentLastIndex p)"
    using w \<open>ok\<close> by (auto dest: write_logs_counters)
  ultimately show ?case by (simp add: last_index_append)
qed

lemma wal_ok_appends:
  assumes ok: "wal_ok ser parse p old es" and app: "appends (segment_bytes ser new) p p'"
    and new: "\<forall>e \<in> set new. codec_ok ser parse e \<and> int (unat (m_segmentFirstIndex p)) \<le> logindex e"
    and count: "m_segmentEntryCount p' = m_segmentEntryCount p + length new"
      "m_segmentLastIndex p' = last_index new (m_segmentLastIndex p)"
  shows "wal_ok ser parse p' old (es @ new)"
proof -
  let ?f = "m_segmentFirstIndex p"
  let ?open = "openSegmentName ?f"
  note fd = wal_okD(1) [OF ok]
  have keys: "mset (map fst (wal_dir p)) = mset (map fst (old @ [(?open, es)]))" by (rule wal_okD(4) [OF ok])
  then have "?open \<in> fst ` set (wal_dir p)" using mset_eq_setD [OF keys] by auto
  then have same: "map fst (wal_dir p') = map fst (wal_dir p)" by (rule appendsD(3) [OF app fd])
  have fd': "log_fd p' = Some ?open" "m_segmentFirstIndex p' = ?f" using appendsD(1,4) [OF app] fd by simp_all
  have other: "file_content (wal_dir p') t = file_content (wal_dir p) t" if "t \<noteq> ?open" for t
    using appendsD(5) [OF app] fd that by auto
  have "file_content (wal_dir p) ?open = segment_bytes ser es" using wal_okD(5) [OF ok, of "(?open, es)"] by simp
  then have here: "file_content (wal_dir p') ?open = segment_bytes ser (es @ new)"
    using appendsD(2) [OF app] fd fd' by (simp add: open_content_def segment_bytes_def)
  have old: "fst x \<noteq> ?open" if "x \<in> set old" for x
    using wal_okD(3) [OF ok that] by (metis segment_key_open not_add_less1)
  have content: "file_content (wal_dir p') (fst x) = segment_bytes ser (snd x)" if "x \<in> set old" for x
    using wal_okD(5) [OF ok, of x] other [OF old [OF that]] that by simp
  have last_ok: "es @ new \<noteq> [] \<and> m_segmentLastIndex p' = word_of_int (logindex (last (es @ new)))"
    if "m_segmentEntryCount p' \<noteq> 0"
  proof (cases "new = []")
    case True
    then show ?thesis using wal_okD(8) [OF ok] count that by (simp add: last_index_def)
  next
    case False
    then show ?thesis using count by (simp add: last_index_def)
  qed
  have codec: "\<forall>x \<in> set (old @ [(?open, es @ new)]). \<forall>e \<in> set (snd x). codec_ok ser parse e"
    using new wal_okD(6) [OF ok] by fastforce
  have files: "\<forall>x \<in> set (old @ [(?open, es @ new)]). file_content (wal_dir p') (fst x) = segment_bytes ser (snd x)"
    using here content by auto
  have names: "mset (map fst (wal_dir p')) = mset (map fst (old @ [(?open, es @ new)]))"
    using keys same by simp
  have from_first: "\<forall>e \<in> set (es @ new). int (unat ?f) \<le> logindex e"
    using new wal_okD(7) [OF ok] by auto
  have before: "\<forall>x \<in> set old. segment_key (fst x) < 2 * unat ?f" using wal_okD(3) [OF ok] by blast
  show ?thesis
    unfolding wal_ok_def Let_def fd'(2)
    using fd'(1) wal_okD(2) [OF ok] before names files codec from_first last_ok by blast
qed

text \<open>Rolling closes the segment and opens an empty one behind it.\<close>

lemma of_int_succ: "(word_of_int (i + 1) :: u64) = word_of_int i + 1"
  by (rule trans [OF of_int_add]) simp

lemma next_first:
  assumes "int32_range i" "0 \<le> i"
  shows "unat (word_of_int i + 1 :: u64) = nat i + 1"
proof -
  have u: "uint (word_of_int k :: u64) = k mod 2 ^ 64" for k by (simp add: uint_word_of_int)
  have "uint (word_of_int i + 1 :: u64) = (i + 1) mod 2 ^ 64" by (rule trans [OF arg_cong [OF of_int_succ [symmetric], of uint] u])
  also have "\<dots> = i + 1" using assms by (intro mod_pos_pos_trivial) (simp_all add: int32_range_def)
  finally show ?thesis using assms(2) by (simp add: unat_eq_nat_uint nat_add_distrib)
qed

lemma file_content_delete:
  "file_content (AList.delete k d) t = (if t = k then [] else file_content d t)"
  by (simp add: file_content_def delete_conv')

lemma file_content_new: "k \<notin> fst ` set d \<Longrightarrow> file_content d k = []"
  by (simp add: file_content_def map_of_eq_None_iff option.case_eq_if)

lemma update_new_key: "k \<notin> fst ` set d \<Longrightarrow> map fst (AList.update k v d) = map fst d @ [k]"
  by (simp add: AList.update_keys)

lemma delete_names:
  assumes "mset (map fst d) = mset (ks @ [k])" "k \<notin> set ks"
  shows "mset (map fst (AList.delete k d)) = mset ks"
proof -
  have "mset (map fst (AList.delete k d)) = mset (removeAll k (map fst d))" by (simp add: delete_keys)
  also have "\<dots> = filter_mset ((\<noteq>) k) (mset (map fst d))"
    by (simp add: removeAll_filter_not_eq mset_filter)
  also have "\<dots> = mset (filter ((\<noteq>) k) ks)" by (simp only: assms(1)) (simp add: mset_filter)
  also have "filter ((\<noteq>) k) ks = ks" using assms(2) by (auto simp: filter_id_conv)
  finally show ?thesis .
qed

lemma update_names:
  assumes "mset (map fst d) = mset ks" "k \<notin> set ks"
  shows "mset (map fst (AList.update k v d)) = mset (ks @ [k])"
proof -
  have "k \<notin> fst ` set d" using mset_eq_setD [OF assms(1)] assms(2) by (metis set_map)
  then show ?thesis using assms(1) by (simp add: update_new_key del: mset_map)
qed

text \<open>The files after rolling.\<close>

definition rolled :: "segment \<Rightarrow> segment \<Rightarrow> segment \<Rightarrow> wal_files \<Rightarrow> wal_files" where
  "rolled opened closed next_seg d =
     AList.update next_seg [] (AList.update closed (file_content d opened) (AList.delete opened d))"

lemma rolled_files:
  assumes "mset (map fst d) = mset (ks @ [opened])"
    and new: "opened \<notin> set ks" "closed \<notin> set ks" "next_seg \<notin> set ks" "closed \<noteq> next_seg" "closed \<noteq> opened"
  shows "mset (map fst (rolled opened closed next_seg d)) = mset (ks @ [closed, next_seg])"
    "t \<in> set ks \<Longrightarrow> file_content (rolled opened closed next_seg d) t = file_content d t"
    "file_content (rolled opened closed next_seg d) closed = file_content d opened"
    "file_content (rolled opened closed next_seg d) next_seg = []"
    "file_content (AList.update closed (file_content d opened) (AList.delete opened d)) next_seg = []"
proof -
  let ?d = "AList.update closed (file_content d opened) (AList.delete opened d)"
  have one: "mset (map fst ?d) = mset (ks @ [closed])"
    by (rule update_names [OF delete_names [OF assms(1)]]) (use new in auto)
  then show "mset (map fst (rolled opened closed next_seg d)) = mset (ks @ [closed, next_seg])"
    using update_names [OF one, of next_seg "[]"] new by (simp add: rolled_def)
  show "t \<in> set ks \<Longrightarrow> file_content (rolled opened closed next_seg d) t = file_content d t"
    using new by (auto simp: rolled_def file_content_delete)
  show "file_content (rolled opened closed next_seg d) closed = file_content d opened"
    "file_content (rolled opened closed next_seg d) next_seg = []"
    using new by (simp_all add: rolled_def)
  have "next_seg \<notin> fst ` set ?d" using mset_eq_setD [OF one] new by (metis set_map Un_iff set_append insertE set_simps empty_iff)
  then show "file_content ?d next_seg = []" by (rule file_content_new)
qed

lemma wal_ok_roll:
  assumes ok: "wal_ok ser parse p old es"
  shows "wal_holds ser parse (RollSegment p) (concat (map snd old) @ es)"
proof (cases "m_segmentEntryCount p = 0")
  case True
  then show ?thesis using ok by (auto simp: RollSegment_def wal_holds_def)
next
  case False
  let ?f = "m_segmentFirstIndex p" and ?i = "logindex (last es)"
  let ?open = "openSegmentName ?f" and ?closed = "closedSegmentName ?f (m_segmentLastIndex p)"
  let ?next = "openSegmentName (m_segmentLastIndex p + 1)"
  let ?d = "rolled ?open ?closed ?next (wal_dir p)" and ?old = "old @ [(?closed, es)]"
  have es: "es \<noteq> []" "m_segmentLastIndex p = word_of_int ?i" using wal_okD(8) [OF ok False] by auto
  then have last_ok: "codec_ok ser parse (last es)" "int (unat ?f) \<le> ?i"
    using wal_okD(6) [OF ok, of "(?open, es)"] wal_okD(7) [OF ok, of "last es"] by simp_all
  then have "int32_range ?i" "0 \<le> ?i" unfolding codec_ok_def by blast+
  from next_first [OF this] have "unat (m_segmentLastIndex p + 1) = nat ?i + 1" by (simp only: es(2))
  then have first: "unat ?f < unat (m_segmentLastIndex p + 1)" using last_ok(2) by linarith
  have key: "segment_key (fst x) < 2 * unat ?f" if "x \<in> set old" for x using wal_okD(3) [OF ok that] .
  have not_old: "t \<notin> set (map fst old)" if "2 * unat ?f \<le> segment_key t" for t
    using key that by (metis (no_types, lifting) imageE leD set_map)
  have behind: "?open \<notin> set (map fst old)" "?closed \<notin> set (map fst old)" "?next \<notin> set (map fst old)"
    by (rule not_old, use first in simp)+
  have names_differ: "?closed \<noteq> ?next" "?closed \<noteq> ?open" by (simp_all add: closedSegmentName_def openSegmentName_def)
  note new = behind names_differ
  note files = rolled_files [of "wal_dir p" "map fst old", OF _ new]
  have names: "mset (map fst (wal_dir p)) = mset (map fst old @ [?open])" using wal_okD(4) [OF ok] by simp
  let ?q = "RollSegment p"
  have q: "m_segmentFirstIndex ?q = m_segmentLastIndex p + 1" "log_fd ?q = Some ?next" "wal_dir ?q = ?d"
    "m_segmentEntryCount ?q = 0"
    using False wal_okD(1) [OF ok] files(5) [OF names]
    by (simp_all add: RollSegment_def OpenSegment_def Let_def rolled_def)
  have here: "file_content (wal_dir p) ?open = segment_bytes ser es" using wal_okD(5) [OF ok, of "(?open, es)"] by simp
  have before: "file_content (wal_dir p) (fst x) = segment_bytes ser (snd x)" if "x \<in> set old" for x
    using wal_okD(5) [OF ok, of x] that by simp
  have "\<forall>x \<in> set (?old @ [(?next, [])]). file_content ?d (fst x) = segment_bytes ser (snd x)"
    using files(2,3,4) [OF names] here before by (auto simp: segment_bytes_def)
  moreover have "\<forall>x \<in> set (?old @ [(?next, [])]). \<forall>e \<in> set (snd x). codec_ok ser parse e"
    using wal_okD(6) [OF ok] by fastforce
  moreover have "sorted_wrt (<) (map (segment_key \<circ> fst) ?old)"
    using wal_okD(2) [OF ok] key by (auto simp: sorted_wrt_append)
  moreover have "\<forall>x \<in> set ?old. segment_key (fst x) < 2 * unat (m_segmentLastIndex p + 1)"
    using key first by fastforce
  ultimately have "wal_ok ser parse ?q ?old []"
    unfolding wal_ok_def Let_def q using files(1) [OF names] by simp
  then show ?thesis unfolding wal_holds_def by (intro exI [of _ ?old] exI [of _ "[]"]) simp
qed

section \<open>Turns, restarts and compaction\<close>

abbreviation batch_logs :: "LogBatch list \<Rightarrow> LogEntry list" where
  "batch_logs bs \<equiv> concat (map lb_logs bs)"

lemma writer_turn_holds:
  assumes holds: "wal_holds ser parse p all" and fit: "length (batch_bytes ser batches) \<le> room"
    and new: "\<forall>e \<in> set (batch_logs batches). codec_ok ser parse e \<and> int (unat (m_segmentFirstIndex p)) \<le> logindex e"
    and run: "writer_turn ser batches room sync_ok time_due w p = (notices, w', p')"
  shows "wal_holds ser parse p' (all @ batch_logs batches)"
proof (cases "batches = []")
  case True
  then show ?thesis using run holds by (simp add: writer_turn_def finish_turn_def split: if_splits)
next
  case False
  obtain old es where ok: "wal_ok ser parse p old es" and all: "all = concat (map snd old) @ es"
    using holds by (auto simp: wal_holds_def)
  let ?w0 = "\<lparr>br_room = room, written_bytes = 0, written_count = 0, need_roll = False\<rparr>"
  have "length (batch_bytes ser batches) \<le> br_room ?w0" using fit by simp
  from write_batches_ok [OF wal_okD(1) [OF ok] this, of "waiters w" "callbacks w"] obtain r ws cs p1 where
    b: "write_batches ser batches ?w0 (waiters w) (callbacks w) p = (True, r, ws, cs, p1)"
    and app: "appends (batch_bytes ser batches) p p1" by blast
  let ?p2 = "p1\<lparr>m_raftLogsFileSize := m_raftLogsFileSize p1 + int (written_bytes r)\<rparr>"
  have "appends (segment_bytes ser (batch_logs batches)) p ?p2" using app by (simp add: batch_bytes_def)
  then have "wal_ok ser parse ?p2 old (es @ batch_logs batches)"
    by (rule wal_ok_appends [OF ok _ new]) (use write_batches_counters [OF b] in simp_all)
  moreover have "p' = RollSegment ?p2 \<or> p' = ?p2"
    using run False b by (auto simp: writer_turn_def Let_def finish_turn_def split: if_splits)
  ultimately show ?thesis
    using wal_ok_roll [of ser parse ?p2 old "es @ batch_logs batches"] by (auto simp: all wal_holds_def)
qed

lemma OpenSegment_new:
  assumes "wal_dir p = []"
  shows "wal_ok ser parse (OpenSegment f p) [] []"
  using assms by (simp add: wal_ok_def OpenSegment_def Let_def file_content_def segment_bytes_def)

lemma segment_read_back:
  assumes "\<forall>e \<in> set es. codec_ok ser parse e \<and> 0 < logindex e"
  shows "ReadWalSegment parse 0 (segment_bytes ser es) = (segment_bytes ser es, es, length (segment_bytes ser es))"
proof -
  have codec: "\<forall>e \<in> set es. codec_ok ser parse e" using assms by blast
  have "filter (\<lambda>e. (word_of_int (logindex e) :: u64) > word_of_int 0) es = es"
    using past_snapshot_filter [OF codec, of 0] assms by (simp add: filter_id_conv)
  then show ?thesis using read_segment_all [OF codec, of 0] by (simp add: ReadWalSegment_def)
qed

text \<open>Opening the directory again after a restart.\<close>

lemma ReopenLatestSegment_holds:
  assumes holds: "wal_holds ser parse p all" and pos: "\<forall>e \<in> set all. 0 < logindex e"
  shows "wal_holds ser parse (ReopenLatestSegment parse p) all"
    "m_segmentFirstIndex (ReopenLatestSegment parse p) = m_segmentFirstIndex p"
proof -
  obtain old es where ok: "wal_ok ser parse p old es" and all: "all = concat (map snd old) @ es"
    using holds by (auto simp: wal_holds_def)
  let ?open = "openSegmentName (m_segmentFirstIndex p)" and ?p = "ReopenLatestSegment parse p"
  have es: "\<forall>e \<in> set es. codec_ok ser parse e \<and> 0 < logindex e"
    using wal_okD(6) [OF ok, of "(?open, es)"] pos all by auto
  have content: "file_content (wal_dir p) ?open = segment_bytes ser es"
    using wal_okD(5) [OF ok, of "(?open, es)"] by simp
  have mem: "?open \<in> fst ` set (wal_dir p)" using mset_eq_setD [OF wal_okD(4) [OF ok]] by auto
  have p: "wal_dir ?p = AList.update ?open (file_content (wal_dir p) ?open) (wal_dir p)"
    "m_segmentFirstIndex ?p = m_segmentFirstIndex p" "log_fd ?p = Some ?open"
    "m_segmentEntryCount ?p = length es" "es \<noteq> [] \<Longrightarrow> m_segmentLastIndex ?p = word_of_int (logindex (last es))"
    unfolding ReopenLatestSegment_def wal_ok_order [OF ok] Let_def content
    using segment_read_back [OF es] content by (simp_all add: last_conv_nth nth_append openSegmentName_def)
  have same: "file_content (wal_dir ?p) = file_content (wal_dir p)" unfolding p(1) by (auto simp: fun_eq_iff)
  have names: "map fst (wal_dir ?p) = map fst (wal_dir p)" unfolding p(1) by (rule Wal.update_keys [OF mem])
  have "wal_ok ser parse ?p old es"
    using ok unfolding wal_ok_def Let_def p(2) same names p(3,4) using p(5) by auto
  then show "wal_holds ser parse ?p all" by (auto simp: wal_holds_def all)
  show "m_segmentFirstIndex ?p = m_segmentFirstIndex p" by (rule p(2))
qed

lemma rewrite_loop_counters:
  assumes "rewrite_loop ser es room p = (True, room', p')"
  shows "m_segmentLastIndex p' = last_index es (m_segmentLastIndex p)"
  using assms
proof (induction es arbitrary: room p)
  case (Cons e es)
  obtain ok room1 p1 where w: "write_entry ser e room p = (ok, room1, p1)" by (metis prod_cases3)
  let ?p1 = "p1\<lparr>m_raftLogsFileSize := m_raftLogsFileSize p1 + (24 + int (length (ser e)))\<rparr>"
  have "ok" "rewrite_loop ser es room1 ?p1 = (True, room', p')" using Cons.prems w by (auto split: if_splits)
  then show ?case
    using Cons.IH [of room1 ?p1] w last_index_append [of "[e]" es]
    by (auto simp: last_index_def dest!: write_entry_counters)
qed (simp add: last_index_def)

lemma CompactWal_holds:
  assumes s: "0 \<le> s" "s < 2 ^ 31 - 1" and holds: "wal_holds ser parse p all"
    and fit: "length (segment_bytes ser (replay (word_of_int s) all)) \<le> room"
    and codec: "\<forall>e \<in> set (replay (word_of_int s) all). codec_ok ser parse e"
  shows "wal_holds ser parse (snd (CompactWal ser parse (word_of_int s) room p)) (replay (word_of_int s) all)
    \<and> m_compactedSnapshotIndex (snd (CompactWal ser parse (word_of_int s) room p)) = word_of_int s"
proof -
  let ?log = "replay (word_of_int s) all"
  have s': "s < 2147483647" using s(2) by simp
  have con: "contiguous s ?log" by (rule contiguous_replay [OF s(1) s'])
  obtain d es b where read: "read_segments parse (word_of_int s) (ListSegments (wal_dir p)) (wal_dir p) = (d, es, b)"
    by (metis prod_cases3)
  then have log: "replay (word_of_int s) es = ?log"
    using wal_holds_recovered [OF holds s] by (simp add: ReadPersistedLogs_def)
  define first :: u64 where "first = (if ?log = [] then word_of_int s + 1 else word_of_int (logindex (?log ! 0)))"
  let ?p0 = "(OpenSegment first (p\<lparr>wal_dir := d, log_fd := None, wal_dir := []\<rparr>))\<lparr>m_raftLogsFileSize := 0\<rparr>"
  have fd0: "log_fd ?p0 = Some (openSegmentName first)" "wal_dir ?p0 = [(openSegmentName first, [])]"
    "m_segmentFirstIndex ?p0 = first" by (simp_all add: OpenSegment_def Let_def file_content_def)
  obtain room1 p1 where rew: "rewrite_loop ser ?log room ?p0 = (True, room1, p1)"
    and app: "appends (segment_bytes ser ?log) ?p0 p1"
    using rewrite_loop_appends [OF fd0(1), of ser ?log room] fit by auto
  have p': "snd (CompactWal ser parse (word_of_int s) room p) = p1\<lparr>m_compactedSnapshotIndex := word_of_int s\<rparr>"
    by (simp only: CompactWal_def read prod.case Let_def log first_def [symmetric] RewriteWalFrom_def rew snd_conv)
  have names: "map fst (wal_dir p1) = [openSegmentName first]" using appendsD(3) [OF app fd0(1)] fd0(2) by simp
  have p1: "log_fd p1 = Some (openSegmentName first)" "m_segmentFirstIndex p1 = first"
    "file_content (wal_dir p1) (openSegmentName first) = segment_bytes ser ?log"
    using appendsD(1,2,4) [OF app] fd0 by (simp_all add: open_content_def file_content_def)
  have idx: "logindex (?log ! 0) = s + 1" if "?log \<noteq> []" using con that by (simp add: contiguous_def)
  have "int32_range s" using s by (simp add: int32_range_def)
  moreover have "first = word_of_int s + 1" using idx of_int_succ [of s]
    by (cases "?log = []") (simp_all only: first_def simp_thms if_True if_False)
  ultimately have low: "int (unat first) \<le> s + 1" using next_first [of s] s(1) by simp
  have last_ok: "?log \<noteq> [] \<longrightarrow> m_segmentLastIndex p1 = word_of_int (logindex (last ?log))"
    using rewrite_loop_counters [OF rew] by (simp add: last_index_def)
  have none: "m_segmentEntryCount p1 \<noteq> 0 \<longrightarrow> ?log \<noteq> []" using rew by (auto simp: OpenSegment_def Let_def)
  have above: "\<forall>e \<in> set ?log. s + 1 \<le> logindex e" using con by (auto simp: in_set_conv_nth contiguous_def)
  have "wal_ok ser parse (p1\<lparr>m_compactedSnapshotIndex := word_of_int s\<rparr>) [] ?log"
    using names p1 codec low above last_ok none by (auto simp: wal_ok_def Let_def)
  then show ?thesis unfolding p' wal_holds_def by (intro conjI exI [of _ "[]"] exI [of _ ?log]) simp_all
qed

section \<open>Handing entries to the writer\<close>

text \<open>
  \<open>AppendLogAndWaitStable\<close> up to its wait, with the number of the new waiter: \<open>None\<close> while it
  waits. \<open>wait_result\<close> is what it returns then. \<open>AppendLogAsync\<close> returns at once.
\<close>

definition AppendLogAndWaitStable ::
  "LogEntry list \<Rightarrow> nat \<Rightarrow> LogBatch lock_queue \<Rightarrow> bool option \<times> LogBatch lock_queue" where
  "AppendLogAndWaitStable logs waiter q =
     (if logs = [] then (Some True, q)
      else (None, Push \<lparr>lb_logs = logs, lb_waiter = Some waiter, lb_callback = None\<rparr> q))"

fun wait_result :: "nat \<Rightarrow> notice list \<Rightarrow> bool option" where
  "wait_result waiter [] = None"
| "wait_result waiter (Waiter_done w ok # ns) = (if w = waiter then Some ok else wait_result waiter ns)"
| "wait_result waiter (Callback_run c ok # ns) = wait_result waiter ns"

definition AppendLogAsync ::
  "LogEntry list \<Rightarrow> nat \<Rightarrow> LogBatch lock_queue \<Rightarrow> notice list \<times> LogBatch lock_queue" where
  "AppendLogAsync logs callback q =
     (if logs = [] then ([Callback_run callback True], q)
      else ([], Push \<lparr>lb_logs = logs, lb_waiter = None, lb_callback = Some callback\<rparr> q))"

section \<open>The snapshot file\<close>

record snapshot_files =
  snapshot_file :: string
  snapshot_tmp :: "string option"

text \<open>What the system calls return: \<open>open\<close>, the bytes \<open>write\<close> can place, \<open>fdatasync\<close>, \<open>rename\<close>.\<close>

record snapshot_io =
  io_open :: bool
  io_room :: nat
  io_sync :: bool
  io_rename :: bool

text \<open>
  \<open>Save(str, 2)\<close>: the files after every step of it, a byte of a \<open>write\<close> being a step; a crash
  leaves one of these states.
\<close>

definition save_steps :: "string \<Rightarrow> snapshot_io \<Rightarrow> snapshot_files \<Rightarrow> snapshot_files list" where
  "save_steps str io d =
     (if \<not> io_open io then []
      else
        let written = map (\<lambda>k. d\<lparr>snapshot_tmp := Some (take k str)\<rparr>) [0..<Suc (min (io_room io) (length str))];
            ok = (length str \<le> io_room io \<and> io_sync io) in
        if \<not> ok then written @ [d\<lparr>snapshot_tmp := None\<rparr>]
        else if \<not> io_rename io then written @ [d\<lparr>snapshot_tmp := None\<rparr>]
        else written @ [d\<lparr>snapshot_file := str, snapshot_tmp := None\<rparr>])"

definition Save_snapshot :: "string \<Rightarrow> snapshot_io \<Rightarrow> snapshot_files \<Rightarrow> snapshot_files" where
  "Save_snapshot str io d = (if save_steps str io d = [] then d else last (save_steps str io d))"

definition io_ok :: "string \<Rightarrow> snapshot_io \<Rightarrow> bool" where
  "io_ok str io \<longleftrightarrow> io_open io \<and> length str \<le> io_room io \<and> io_sync io \<and> io_rename io"

definition ReadSnapshot :: "snapshot_files \<Rightarrow> string" where
  "ReadSnapshot d = snapshot_file d"

lemma Save_snapshot_file:
  "snapshot_file (Save_snapshot str io d) = (if io_ok str io then str else snapshot_file d)"
  by (simp add: Save_snapshot_def save_steps_def io_ok_def Let_def)

section \<open>Saving the node record\<close>

text \<open>\<open>Save\<close> on the node record: the log is compacted when its snapshot index is past the last compaction.\<close>

definition SaveRaftState ::
  "(LogEntry \<Rightarrow> u8 list) \<Rightarrow> (u8 list \<Rightarrow> LogEntry option) \<Rightarrow> nat \<Rightarrow> u32 \<Rightarrow> persister \<Rightarrow> persister" where
  "SaveRaftState ser parse room snapshot_index p =
     (if ucast snapshot_index > m_compactedSnapshotIndex p
      then snd (CompactWal ser parse (ucast snapshot_index) room p) else p)"

section \<open>Properties\<close>

lemma foldl_replay: "replay s (xs @ ys) = foldl (replay_step s) (replay s xs) ys"
  by (simp add: replay_def)

lemma replay_continues:
  assumes "0 \<le> s" "s < 2 ^ 31 - 1" "contiguous s log" "contiguous (s + int (length log)) new"
  shows "foldl (replay_step (word_of_int s)) log new = log @ new"
proof -
  have s: "s < 2147483647" using assms(2) by simp
  have "contiguous s (log @ new)" using assms(3,4) by (simp add: contiguous_append)
  then show ?thesis
    using replay_id [OF assms(1) s assms(3)] replay_id [OF assms(1) s] foldl_replay [of "word_of_int s" log new] by simp
qed

text \<open>C26: What the writer writes is what a restart recovers. When the segments hold the entries \<open>all\<close>
  and a turn writes all its batches, whose entries are not below the first index of the open segment,
  then they hold \<open>all\<close> followed by the batches' entries, whether or not the turn rolled to a new
  segment. A restart at any snapshot recovers the log it would have recovered before, continued by
  the new entries; entries that continue that log are simply appended to it.\<close>

theorem written_entries_recovered:
  assumes "wal_holds ser parse p all" "\<forall>e \<in> set all. 0 < logindex e"
    and "length (batch_bytes ser batches) \<le> room"
    and "\<forall>e \<in> set (batch_logs batches). codec_ok ser parse e \<and> 0 < logindex e
           \<and> int (unat (m_segmentFirstIndex p)) \<le> logindex e"
    and "writer_turn ser batches room sync_ok time_due w p = (notices, w', p')"
    and "0 \<le> s" "s < 2 ^ 31 - 1"
    and "log = snd (ReadPersistedLogs parse (word_of_int s) p)"
    and "log' = snd (ReadPersistedLogs parse (word_of_int s) (ReopenLatestSegment parse p'))"
  shows "wal_holds ser parse p' (all @ batch_logs batches)
    \<and> log' = foldl (replay_step (word_of_int s)) log (batch_logs batches)
    \<and> (contiguous (s + int (length log)) (batch_logs batches) \<longrightarrow> log' = log @ batch_logs batches)"
proof -
  have holds: "wal_holds ser parse p' (all @ batch_logs batches)"
    using writer_turn_holds [OF assms(1,3) _ assms(5)] assms(4) by blast
  have "\<forall>e \<in> set (all @ batch_logs batches). 0 < logindex e" using assms(2,4) by auto
  from ReopenLatestSegment_holds(1) [OF holds this]
  have "log' = replay (word_of_int s) (all @ batch_logs batches)"
    unfolding assms(9) by (rule wal_holds_recovered [OF _ assms(6,7)])
  moreover have log: "log = replay (word_of_int s) all"
    unfolding assms(8) by (rule wal_holds_recovered [OF assms(1,6,7)])
  ultimately have "log' = foldl (replay_step (word_of_int s)) log (batch_logs batches)" by (simp add: foldl_replay)
  moreover have "contiguous s log" unfolding log by (rule contiguous_replay [OF assms(6)]) (use assms(7) in simp)
  ultimately show ?thesis using holds replay_continues [OF assms(6,7)] by auto
qed

text \<open>The sample directory holds 1 to 3; a turn writes 4 and 5.\<close>

lemma sample_entry_index [simp]: "logindex (sample_entry i) = i"
  by (simp add: sample_entry_def)

lemma sample_wal_holds: "wal_ok sample_ser sample_parse sample_wal [] (map sample_entry [1, 2, 3])"
  by (simp add: wal_ok_def sample_wal_def file_content_def sample_codec)

theorem written_entries_recovered_witness:
  "\<exists>ns w' p'. writer_turn sample_ser [sample_batch 4, sample_batch 5] 1000 True True
       \<lparr>pending_count = 0, pending_bytes = 0, waiters = [], callbacks = []\<rparr> sample_wal = (ns, w', p')
     \<and> snd (ReadPersistedLogs sample_parse (word_of_int 1) (ReopenLatestSegment sample_parse p')) = map sample_entry [2, 3, 4, 5]"
proof -
  let ?bs = "[sample_batch 4, sample_batch 5]"
  obtain ns w' p' where run: "writer_turn sample_ser ?bs 1000 True True
      \<lparr>pending_count = 0, pending_bytes = 0, waiters = [], callbacks = []\<rparr> sample_wal = (ns, w', p')"
    by (metis prod_cases3)
  have logs: "batch_logs ?bs = map sample_entry [4, 5]" by (simp add: sample_batch_def)
  have holds: "wal_holds sample_ser sample_parse sample_wal (map sample_entry [1, 2, 3])"
    unfolding wal_holds_def using sample_wal_holds by force
  have fit: "length (batch_bytes sample_ser ?bs) \<le> 1000"
    unfolding batch_bytes_def sample_bytes_length logs by simp
  have new: "\<forall>e \<in> set (batch_logs ?bs). codec_ok sample_ser sample_parse e \<and> 0 < logindex e
      \<and> int (unat (m_segmentFirstIndex sample_wal)) \<le> logindex e"
    unfolding logs by (simp add: sample_codec) (simp add: sample_wal_def)
  have pos: "\<forall>e \<in> set (map sample_entry [1, 2, 3]). 0 < logindex e" by simp
  have log: "map sample_entry [2, 3] = snd (ReadPersistedLogs sample_parse (word_of_int 1) sample_wal)"
    using sample_wal_log by simp
  have "contiguous (1 + int (length (map sample_entry [2, 3]))) (batch_logs ?bs)"
    unfolding logs by (simp add: contiguous_def less_Suc_eq numeral_2_eq_2)
  then show ?thesis
    using written_entries_recovered [OF holds pos fit new run _ _ log refl] run logs by auto
qed

text \<open>Replacing the snapshot is atomic. Whatever the system calls return and wherever the process
  stops, the snapshot file has the old content or the new one, whole; it has the new one at the end
  exactly when every call succeeded. A temporary file left behind by a crash changes nothing for the next call.\<close>

lemma snapshot_replace_atomic:
  "(\<forall>d' \<in> set (save_steps str io d). ReadSnapshot d' \<in> {ReadSnapshot d, str})
   \<and> ReadSnapshot (Save_snapshot str io d) = (if io_ok str io then str else ReadSnapshot d)
   \<and> ReadSnapshot (Save_snapshot str io (d\<lparr>snapshot_tmp := leftover\<rparr>)) = ReadSnapshot (Save_snapshot str io d)"
proof -
  have "ReadSnapshot (Save_snapshot str io d) = (if io_ok str io then str else ReadSnapshot d)" for d
    by (simp add: ReadSnapshot_def Save_snapshot_file)
  moreover have "\<forall>d' \<in> set (save_steps str io d). ReadSnapshot d' \<in> {ReadSnapshot d, str}"
    by (auto simp: ReadSnapshot_def save_steps_def Let_def)
  ultimately show ?thesis by (simp add: ReadSnapshot_def)
qed

text \<open>A disk that takes two bytes: the old snapshot survives.\<close>

theorem snapshot_replace_atomic_witness:
  "ReadSnapshot (Save_snapshot ''abc'' \<lparr>io_open = True, io_room = 2, io_sync = True, io_rename = True\<rparr>
     \<lparr>snapshot_file = ''old'', snapshot_tmp = None\<rparr>) = ''old''"
  using snapshot_replace_atomic [of "''abc''" "\<lparr>io_open = True, io_room = 2, io_sync = True, io_rename = True\<rparr>"
      "\<lparr>snapshot_file = ''old'', snapshot_tmp = None\<rparr>" None]
  by (simp add: io_ok_def ReadSnapshot_def)

text \<open>
  The directory after a segment whose last entry lies below its first index was rolled, and more was
  written: the new segment is read before the rolled one.
\<close>

lemma misordered_recovery:
  assumes dir: "wal_dir p = [(closedSegmentName g (f - 1), segment_bytes ser es0),
      (openSegmentName f, segment_bytes ser (es @ [e]))]"
    and st: "log_fd p = Some (openSegmentName f)" "m_segmentFirstIndex p = f" "m_segmentEntryCount p \<noteq> 0"
      "m_segmentLastIndex p = word_of_int (logindex e)"
    and below: "int (unat g) \<le> logindex e" "logindex e + 1 < int (unat f)"
    and codec: "\<forall>x \<in> set (es0 @ es @ [e] @ ns). codec_ok ser parse x"
    and run: "write_logs ser ns w (RollSegment p) = (True, w', p')"
    and s: "0 \<le> s" "s < 2 ^ 31 - 1"
  shows "file_content (wal_dir p') (openSegmentName (word_of_int (logindex e) + 1)) = segment_bytes ser ns
    \<and> snd (ReadPersistedLogs parse (word_of_int s) p') = replay (word_of_int s) ((es0 @ ns @ es) @ [e])"
proof -
  let ?cg = "closedSegmentName g (f - 1)" and ?cf = "closedSegmentName f (word_of_int (logindex e))"
  let ?next = "openSegmentName (word_of_int (logindex e) + 1)"
  have "int32_range (logindex e)" "0 \<le> logindex e" using codec by (auto simp: codec_ok_def)
  then have i: "unat (word_of_int (logindex e) + 1 :: u64) = nat (logindex e) + 1" by (rule next_first)
  have gl: "unat g < unat (word_of_int (logindex e) + 1 :: u64)" "unat (word_of_int (logindex e) + 1 :: u64) < unat f"
    using below i by linarith+
  have keys: "segment_key ?cg < segment_key ?next" "segment_key ?next < segment_key ?cf"
    "segment_key ?cf < segment_key (openSegmentName f)"
    using gl by simp_all
  then have ne: "?cg \<noteq> ?next" "?next \<noteq> ?cf" "?cf \<noteq> ?cg" "?cf \<noteq> openSegmentName f" "openSegmentName f \<noteq> ?cg" "openSegmentName f \<noteq> ?next"
    by (metis less_irrefl less_trans)+
  let ?q = "RollSegment p"
  have q: "wal_dir ?q = [(?cg, segment_bytes ser es0), (?cf, segment_bytes ser (es @ [e])), (?next, [])]"
    "log_fd ?q = Some ?next"
    using st ne by (simp_all add: RollSegment_def OpenSegment_def Let_def dir file_content_def AList.delete_eq)
  obtain w1 p1 where w1: "write_logs ser ns w ?q = (length (segment_bytes ser ns) \<le> br_room w, w1, p1)"
    "appends (take (br_room w) (segment_bytes ser ns)) ?q p1" using write_logs_appends [OF q(2)] by blast
  then have app: "appends (segment_bytes ser ns) ?q p'" using run by simp
  have names: "map fst (wal_dir p') = [?cg, ?cf, ?next]" using appendsD(3) [OF app q(2)] q(1) by simp
  have content: "file_content (wal_dir p') ?next = segment_bytes ser ns"
    using appendsD(1,2) [OF app] q ne by (simp add: open_content_def file_content_def)
  have rest: "file_content (wal_dir p') ?cg = segment_bytes ser es0" "file_content (wal_dir p') ?cf = segment_bytes ser (es @ [e])"
    using appendsD(5) [OF app] q ne by (simp_all add: file_content_def)
  let ?segs = "[(?cg, es0), (?next, ns), (?cf, es @ [e])]"
  have order: "ListSegments (wal_dir p') = map fst ?segs"
    by (rule ListSegments_sorted) (use keys names in simp_all)
  have mem: "fst ` set (wal_dir p') = {?cg, ?cf, ?next}" using names by (metis list.simps(15) set_empty set_map)
  have "\<forall>x \<in> set ?segs. fst x \<in> fst ` set (wal_dir p') \<and> file_content (wal_dir p') (fst x) = segment_bytes ser (snd x)
      \<and> (\<forall>e \<in> set (snd x). codec_ok ser parse e)"
    unfolding mem using content rest codec by auto
  from read_segments_all [OF this s] obtain d' n where
    "read_segments parse (word_of_int s) (map fst ?segs) (wal_dir p') =
      (d', filter (\<lambda>e. s < logindex e) (concat (map snd ?segs)), n)" by blast
  then show ?thesis
    unfolding ReadPersistedLogs_def order
    using content replay_filter [OF s, of "(es0 @ ns @ es) @ [e]"] by simp
qed

lemma replay_ends_at:
  assumes "0 \<le> s" "s < 2 ^ 31 - 1" "s < logindex e" "x \<in> set (replay (word_of_int s) (es @ [e]))"
  shows "logindex x \<le> logindex e"
proof -
  let ?L = "replay (word_of_int s) es"
  have s: "s < 2147483647" using assms(2) by simp
  have con: "contiguous s ?L" by (rule contiguous_replay [OF assms(1) s])
  have step: "replay (word_of_int s) (es @ [e]) =
      (if logindex e \<le> s + int (length ?L) + 1 then take (nat (logindex e - s - 1)) ?L @ [e] else ?L)"
    using replay_step_contiguous [OF con assms(1) s, of e] assms(3) by (simp add: replay_snoc)
  have upto: "logindex y \<le> s + int k" if "y \<in> set (take k ?L)" for y k
    using that con by (auto simp: in_set_conv_nth contiguous_def)
  show ?thesis
  proof (cases "logindex e \<le> s + int (length ?L) + 1")
    case True
    then show ?thesis using assms(3,4) step upto [of x "nat (logindex e - s - 1)"] by auto
  next
    case False
    then show ?thesis using assms(4) step upto [of x "length ?L"] by simp
  qed
qed

text \<open>C29: Rolling after an overwrite loses entries. A segment is named by the index of its first entry and
  the next one by the index behind its last. When a follower overwrote an entry below the first index of the open
  segment and the segment is rolled then, the new segment sorts before the rolled one: whatever is
  written to it is on the disk, but a restart replays it first and cuts it off again, so no entry
  above the overwritten index is recovered.\<close>

theorem roll_after_overwrite_loses_entries:
  assumes "wal_dir p = [(closedSegmentName g (f - 1), segment_bytes ser es0),
      (openSegmentName f, segment_bytes ser (es @ [e]))]"
    and "log_fd p = Some (openSegmentName f)" "m_segmentFirstIndex p = f" "m_segmentEntryCount p \<noteq> 0"
      "m_segmentLastIndex p = word_of_int (logindex e)"
    and "int (unat g) \<le> logindex e" "logindex e + 1 < int (unat f)"
    and "\<forall>x \<in> set (es0 @ es @ [e] @ ns). codec_ok ser parse x"
    and "write_logs ser ns w (RollSegment p) = (True, w', p')"
    and "0 \<le> s" "s < 2 ^ 31 - 1" "s < logindex e"
  shows "file_content (wal_dir p') (openSegmentName (word_of_int (logindex e) + 1)) = segment_bytes ser ns
    \<and> (\<forall>x \<in> set (snd (ReadPersistedLogs parse (word_of_int s) p')). logindex x \<le> logindex e)"
proof -
  note disk = misordered_recovery [OF assms(1-11)]
  show ?thesis
    unfolding conjunct2 [OF disk] using conjunct1 [OF disk] replay_ends_at [OF assms(10,11,12)] by blast
qed

text \<open>Entries 1 to 3 and 4, 5, then 2 again; 3 is written after the roll.\<close>

definition overwritten_wal :: persister where
  "overwritten_wal = \<lparr>wal_dir = [(closedSegmentName 1 3, segment_bytes sample_ser (map sample_entry [1, 2, 3])),
       (openSegmentName 4, segment_bytes sample_ser (map sample_entry [4, 5, 2]))],
     log_fd = Some (openSegmentName 4), fd_offset = 75, m_segmentFirstIndex = 4, m_segmentLastIndex = 2,
     m_segmentEntryCount = 3, m_segmentBytes = 75, m_raftLogsFileSize = 150, m_compactedSnapshotIndex = 0\<rparr>"

theorem roll_after_overwrite_loses_entries_witness:
  "\<exists>w' p'. write_logs sample_ser [sample_entry 3] \<lparr>br_room = 100, written_bytes = 0, written_count = 0, need_roll = False\<rparr>
       (RollSegment overwritten_wal) = (True, w', p')
     \<and> sample_entry 3 \<notin> set (snd (ReadPersistedLogs sample_parse (word_of_int 0) p'))"
proof -
  let ?w = "\<lparr>br_room = 100, written_bytes = 0, written_count = 0, need_roll = False\<rparr>"
  have "log_fd (RollSegment overwritten_wal) = Some (openSegmentName 3)"
    by (simp add: RollSegment_def OpenSegment_def overwritten_wal_def Let_def)
  from write_logs_appends [OF this, of sample_ser "[sample_entry 3]" ?w] obtain w' p' where
    run: "write_logs sample_ser [sample_entry 3] ?w (RollSegment overwritten_wal) = (True, w', p')"
    unfolding sample_bytes_length by auto
  have dir: "wal_dir overwritten_wal = [(closedSegmentName 1 (4 - 1), segment_bytes sample_ser (map sample_entry [1, 2, 3])),
      (openSegmentName 4, segment_bytes sample_ser (map sample_entry [4, 5] @ [sample_entry 2]))]"
    by (simp add: overwritten_wal_def)
  have codec: "\<forall>x \<in> set (map sample_entry [1, 2, 3] @ map sample_entry [4, 5] @ [sample_entry 2] @ [sample_entry 3]).
      codec_ok sample_ser sample_parse x"
    by (simp add: sample_codec)
  have lost: "\<forall>x \<in> set (snd (ReadPersistedLogs sample_parse (word_of_int 0) p')). logindex x \<le> logindex (sample_entry 2)"
    using roll_after_overwrite_loses_entries [OF dir _ _ _ _ _ _ codec run, of 0]
    by (simp add: overwritten_wal_def)
  have "sample_entry 3 \<notin> set (snd (ReadPersistedLogs sample_parse (word_of_int 0) p'))"
    using lost by (auto dest!: bspec [of _ _ "sample_entry 3"])
  then show ?thesis using run by blast
qed

end
