(* ===== verification/Node_Disk.thy ===== *)
theory Node_Disk
  imports Storage Raft_Apply
begin

text \<open>
  A raft node together with what it keeps on the disk: the mapped node record is a field of the node,
  the segments and the snapshot file are here. \<open>persist_snapshot\<close> is the end of \<open>raft::Snapshot\<close> and
  \<open>raft::InstallSnapshot\<close> on the disk, and \<open>restart_node\<close> is a process that starts again on what is there.
\<close>

section \<open>Operations\<close>

record node_disk =
  nd_wal :: persister
  nd_files :: snapshot_files

text \<open>\<open>Save(nullptr, nullptr, &snapshot); persistState()\<close> of a node that is in state \<open>r\<close> then.\<close>

definition persist_snapshot ::
  "(LogEntry \<Rightarrow> u8 list) \<Rightarrow> (u8 list \<Rightarrow> LogEntry option) \<Rightarrow> snapshot_io \<Rightarrow> nat \<Rightarrow> string \<Rightarrow> raft \<Rightarrow>
   node_disk \<Rightarrow> node_disk" where
  "persist_snapshot ser parse io room snapshot r d =
     \<lparr>nd_wal = SaveRaftState ser parse room (ni_snapshot_index (fmp (persistState r))) (nd_wal d),
      nd_files = Save_snapshot snapshot io (nd_files d)\<rparr>"

text \<open>
  The constructor of the persister and \<open>init\<close>, with the record \<open>info\<close> of the mapped file.
\<close>

definition restart_node ::
  "(u8 list \<Rightarrow> LogEntry option) \<Rightarrow> int \<Rightarrow> int \<Rightarrow> nat \<Rightarrow> NodeInfo \<Rightarrow> node_disk \<Rightarrow> ApplyMsg lock_queue \<Rightarrow> raft" where
  "restart_node parse now me n info d ch =
     (let p = ReopenLatestSegment parse (nd_wal d) in
      raft_init now me n info (\<lambda>s. snd (ReadPersistedLogs parse (word_of_int s) p)) (ReadSnapshot (nd_files d)) ch)"

section \<open>The log recovered at a later snapshot\<close>

lemma contiguous_filter:
  assumes "contiguous s0 all" "s0 \<le> s"
  shows "filter (\<lambda>e. s < logindex e) all = drop (nat (s - s0)) all" "contiguous s (filter (\<lambda>e. s < logindex e) all)"
proof -
  show eq: "filter (\<lambda>e. s < logindex e) all = drop (nat (s - s0)) all"
    using assms
  proof (induction all rule: rev_induct)
    case (snoc e all)
    then have "contiguous s0 all" "logindex e = s0 + 1 + int (length all)" by (auto simp: contiguous_snoc)
    then show ?case using snoc by (auto simp: nat_le_iff)
  qed simp
  show "contiguous s (filter (\<lambda>e. s < logindex e) all)"
  proof (cases "nat (s - s0) \<le> length all")
    case True
    from contiguous_drop [OF assms(1) True] show ?thesis using assms(2) by (simp add: eq)
  qed (simp add: eq)
qed

lemma replay_contiguous:
  assumes "contiguous s0 all" "s0 \<le> s" "0 \<le> s" "s < 2 ^ 31 - 1"
  shows "replay (word_of_int s) all = filter (\<lambda>e. s < logindex e) all"
  using replay_filter [OF assms(3,4), of all] replay_id [OF assms(3) _ contiguous_filter(2) [OF assms(1,2)]] assms(4)
  by simp

lemma snapshot_index_word:
  assumes "0 \<le> i" "i < 2 ^ 31 - 1"
  shows "(ucast (to_u32 i) :: u64) = word_of_int i" "of_u32 (to_u32 i) = i"
proof -
  show "of_u32 (to_u32 i) = i" using assms by (intro of_to_u32) (simp add: int32_range_def)
  have "uint (ucast (to_u32 i) :: u64) = uint (word_of_int i :: u64)"
    using assms by (simp add: to_u32_def uint_up_ucast is_up uint_word_of_int)
  then show "(ucast (to_u32 i) :: u64) = word_of_int i" by (simp only: word_uint_eq_iff)
qed

text \<open>What the segments hold after \<open>Save\<close> on the node record recovers the same log.\<close>

lemma SaveRaftState_recovers:
  assumes holds: "wal_holds ser parse p all" and con: "contiguous s0 all" "0 \<le> s0" "s0 \<le> s" "s < 2 ^ 31 - 1"
    and fit: "length (segment_bytes ser (filter (\<lambda>e. s < logindex e) all)) \<le> room"
    and codec: "\<forall>e \<in> set all. codec_ok ser parse e"
  shows "\<exists>all' s1. wal_holds ser parse (SaveRaftState ser parse room (to_u32 s) p) all'
    \<and> contiguous s1 all' \<and> 0 \<le> s1 \<and> s1 \<le> s
    \<and> filter (\<lambda>e. s < logindex e) all' = filter (\<lambda>e. s < logindex e) all"
proof -
  have s: "0 \<le> s" using con by simp
  note log = replay_contiguous [OF con(1,3) s con(4)]
  show ?thesis
  proof (cases "ucast (to_u32 s) > m_compactedSnapshotIndex p")
    case False
    then have "SaveRaftState ser parse room (to_u32 s) p = p" unfolding SaveRaftState_def by (simp only: if_False)
    then show ?thesis using holds con by auto
  next
    case True
    then have "SaveRaftState ser parse room (to_u32 s) p = snd (CompactWal ser parse (word_of_int s) room p)"
      unfolding SaveRaftState_def by (simp only: if_True snapshot_index_word(1) [OF s con(4)])
    moreover have "wal_holds ser parse (snd (CompactWal ser parse (word_of_int s) room p)) (filter (\<lambda>e. s < logindex e) all)"
      using CompactWal_holds [OF s con(4) holds] fit codec by (simp add: log)
    ultimately show ?thesis
      using contiguous_filter(2) [OF con(1,3)] s
      by (intro exI [of _ "filter (\<lambda>e. s < logindex e) all"] exI [of _ s]) simp
  qed
qed

lemma contiguous_positive: "contiguous s all \<Longrightarrow> 0 \<le> s \<Longrightarrow> \<forall>e \<in> set all. 0 < logindex e"
  by (auto simp: in_set_conv_nth contiguous_def)

lemma Snapshot_persisted:
  assumes "Snapshot index snapshot r = Inr r'" "m_lastSnapshotIndex r < index" "index \<le> m_commitIndex r"
  shows "fmp r' = fmp (persistState r')"
  using assms by (auto simp: Snapshot_def Let_def result_simps persistState_def)

text \<open>A snapshot taken, saved and followed by a restart.\<close>

lemma restart_after_Snapshot:
  assumes ok: "raft_ok r" and run: "Snapshot index snapshot r = Inr r'"
    and idx: "m_lastSnapshotIndex r < index" "index \<le> m_commitIndex r" "index < 2 ^ 31 - 1"
    and snap: "0 \<le> m_lastSnapshotIndex r"
    and holds: "wal_holds ser parse (nd_wal d) all" and codec: "\<forall>e \<in> set all. codec_ok ser parse e"
    and con: "contiguous s0 all" "0 \<le> s0" "s0 \<le> m_lastSnapshotIndex r"
    and mem: "m_logs r = filter (\<lambda>e. m_lastSnapshotIndex r < logindex e) all"
    and rng: "int32_range (m_commitIndex r)" "int32_range (m_currentTerm r)" "int32_range (m_voteForId r)"
    and fit: "length (segment_bytes ser (m_logs r')) \<le> room"
    and d': "d' = persist_snapshot ser parse io room snapshot r' d"
    and q: "q = restart_node parse now me n (fmp r') d' ch"
  shows "m_logs q = m_logs r' \<and> m_lastSnapshotIndex q = index \<and> m_lastSnapshotTerm q = m_lastSnapshotTerm r'
    \<and> m_currentTerm q = m_currentTerm r' \<and> m_voteForId q = m_voteForId r' \<and> m_commitIndex q = m_commitIndex r'
    \<and> m_lastApplied q = index \<and> m_logs r' = filter (\<lambda>e. index < logindex e) all
    \<and> m_snapshotFile q = (if io_ok snapshot io then snapshot else ReadSnapshot (nd_files d))"
proof -
  obtain r2 where r2: "Snapshot index snapshot r = Inr r2" "quiet_step r r2" "m_logs r2 = log_above r index"
    "m_lastSnapshotIndex r2 = index" "m_commitIndex r2 = m_commitIndex r" "m_lastSnapshotTerm r2 = term_at r index"
    using Snapshot_cut [OF ok idx(1,2), of snapshot] by metis
  have fields: "m_currentTerm r' = m_currentTerm r" "m_voteForId r' = m_voteForId r"
    using run idx by (auto simp: Snapshot_def Let_def result_simps)
  have r': "r2 = r'" using r2(1) run by simp
  have low: "0 \<le> index" using snap idx(1) by simp
  have logs: "m_logs r' = filter (\<lambda>e. index < logindex e) all"
  proof -
    have "m_logs r' = drop (nat (index - m_lastSnapshotIndex r)) (drop (nat (m_lastSnapshotIndex r - s0)) all)"
      using r2(3) mem contiguous_filter(1) [OF con(1,3)] by (simp add: r' log_above_def)
    also have "\<dots> = drop (nat (index - s0)) all"
      using idx(1) con(3) by (simp add: drop_drop flip: nat_add_distrib)
    also have "\<dots> = filter (\<lambda>e. index < logindex e) all"
      using contiguous_filter(1) [OF con(1), of index] con(3) idx(1) by simp
    finally show ?thesis .
  qed
  have mapped: "fmp r' = fmp (persistState r')" by (rule Snapshot_persisted [OF run idx(1,2)])
  have trm: "int32_range (m_lastSnapshotTerm r')"
  proof -
    have "nat (index - m_lastSnapshotIndex r - 1) < length (m_logs r)"
      using ok idx(1,2) last_index_contiguous [of r] by (auto simp: raft_ok_defs nat_less_iff)
    then have "m_logs r ! nat (index - m_lastSnapshotIndex r - 1) \<in> set (m_logs r)" by (rule nth_mem)
    moreover have "set (m_logs r) \<subseteq> set all" unfolding mem by auto
    ultimately have "m_logs r ! nat (index - m_lastSnapshotIndex r - 1) \<in> set all" by blast
    then show ?thesis using codec r2(6) idx(1) by (simp add: r' term_at_def entry_at_def codec_ok_def)
  qed
  have info: "of_u32 (ni_snapshot_index (fmp r')) = index" "of_u32 (ni_snapshot_term (fmp r')) = m_lastSnapshotTerm r'"
    "of_u32 (ni_term (fmp r')) = m_currentTerm r'" "of_u32 (ni_votedFor (fmp r')) = m_voteForId r'"
    "of_u32 (ni_commit_index (fmp r')) = m_commitIndex r'"
    using r2(4,5) rng fields trm low idx(3) unfolding mapped
    by (simp_all add: persistState_def r' snapshot_index_word)
  obtain all' s1 where save: "wal_holds ser parse (nd_wal d') all'" "contiguous s1 all'" "0 \<le> s1" "s1 \<le> index"
    "filter (\<lambda>e. index < logindex e) all' = m_logs r'"
    using SaveRaftState_recovers [OF holds con(1,2) _ idx(3), of room] con(3) idx(1) fit codec r2(4)
    by (auto simp: d' persist_snapshot_def persistState_def r' logs)
  have reopen: "wal_holds ser parse (ReopenLatestSegment parse (nd_wal d')) all'"
    by (rule ReopenLatestSegment_holds(1) [OF save(1) contiguous_positive [OF save(2,3)]])
  have "snd (ReadPersistedLogs parse (word_of_int index) (ReopenLatestSegment parse (nd_wal d'))) = m_logs r'"
    using wal_holds_recovered [OF reopen low idx(3)] replay_contiguous [OF save(2,4) low idx(3)] save(5) by simp
  moreover have "ReadSnapshot (nd_files d') = (if io_ok snapshot io then snapshot else ReadSnapshot (nd_files d))"
    by (simp add: d' persist_snapshot_def ReadSnapshot_def Save_snapshot_file)
  moreover have "0 < index" using snap idx(1) by simp
  ultimately show ?thesis
    unfolding q restart_node_def raft_init_def Let_def info logs [symmetric] by (simp add: info logs)
qed

section \<open>Properties\<close>

text \<open>C27: A snapshot, the log behind it and the node record survive a restart together. When the segments
  hold a contiguous log of which the node has the part past its snapshot in memory, the node takes a
  snapshot, and the disk takes the snapshot and the compacted log, then a node that starts on
  what is on the disk has the same log, snapshot, snapshot position, term, vote and commit index as
  the node that stopped, and applies from the snapshot on.\<close>

theorem snapshot_survives_restart:
  assumes "raft_ok r" "Snapshot index snapshot r = Inr r'"
    and "m_lastSnapshotIndex r < index" "index \<le> m_commitIndex r" "index < 2 ^ 31 - 1"
    and "0 \<le> m_lastSnapshotIndex r"
    and "wal_holds ser parse (nd_wal d) all" "\<forall>e \<in> set all. codec_ok ser parse e"
    and "contiguous s0 all" "0 \<le> s0" "s0 \<le> m_lastSnapshotIndex r"
    and "m_logs r = filter (\<lambda>e. m_lastSnapshotIndex r < logindex e) all"
    and "int32_range (m_commitIndex r)" "int32_range (m_currentTerm r)" "int32_range (m_voteForId r)"
    and "length (segment_bytes ser (m_logs r')) \<le> room" "io_ok snapshot io"
    and "q = restart_node parse now me n (fmp r') (persist_snapshot ser parse io room snapshot r' d) ch"
  shows "m_logs q = m_logs r' \<and> m_snapshotFile q = snapshot \<and> m_lastSnapshotIndex q = index
    \<and> m_lastSnapshotTerm q = m_lastSnapshotTerm r' \<and> m_currentTerm q = m_currentTerm r'
    \<and> m_voteForId q = m_voteForId r' \<and> m_commitIndex q = m_commitIndex r' \<and> m_lastApplied q = index"
  using restart_after_Snapshot [OF assms(1-16) refl assms(18)] assms(17) by simp

text \<open>A node with the entries of the sample directory, the first two of them committed.\<close>

definition sample_node :: raft where
  "sample_node = (fresh_node 1 3)\<lparr>m_currentTerm := 2, m_commitIndex := 2, m_lastApplied := 2,
     m_logs := map sample_entry [1, 2, 3]\<rparr>"

definition sample_disk :: node_disk where
  "sample_disk = \<lparr>nd_wal = sample_wal, nd_files = \<lparr>snapshot_file = ''old'', snapshot_tmp = None\<rparr>\<rparr>"

lemma sample_node_facts:
  "raft_ok sample_node" "m_lastSnapshotIndex sample_node = 0" "m_commitIndex sample_node = 2"
  "wal_holds sample_ser sample_parse (nd_wal sample_disk) (map sample_entry [1, 2, 3])"
  "\<forall>e \<in> set (map sample_entry [1, 2, 3]). codec_ok sample_ser sample_parse e"
  "contiguous 0 (map sample_entry [1, 2, 3])"
  "m_logs sample_node = filter (\<lambda>e. m_lastSnapshotIndex sample_node < logindex e) (map sample_entry [1, 2, 3])"
  "int32_range (m_commitIndex sample_node)" "int32_range (m_currentTerm sample_node)" "int32_range (m_voteForId sample_node)"
proof -
  show con: "contiguous 0 (map sample_entry [1, 2, 3])" by (simp add: contiguous_def less_Suc_eq numeral_3_eq_3)
  then show "raft_ok sample_node"
    by (simp add: raft_ok_defs log_ok_def sample_node_def fresh_node_eq getLastLogIndex_def getLastLogIndexandTerm_def
        numeral_2_eq_2)
  show "wal_holds sample_ser sample_parse (nd_wal sample_disk) (map sample_entry [1, 2, 3])"
    unfolding wal_holds_def sample_disk_def using sample_wal_holds by force
qed (simp_all add: sample_node_def fresh_node_eq sample_codec int32_range_def)

lemma sample_snapshot:
  obtains r' where "Snapshot 2 ''new'' sample_node = Inr r'" "m_logs r' = [sample_entry 3]" "m_currentTerm r' = 2"
proof -
  have "m_lastSnapshotIndex sample_node < 2" "2 \<le> m_commitIndex sample_node" by (simp_all add: sample_node_facts)
  from Snapshot_cut [OF sample_node_facts(1) this, of "''new''"] obtain r' where
    r': "Snapshot 2 ''new'' sample_node = Inr r'" "m_logs r' = log_above sample_node 2" by metis
  moreover have "m_currentTerm r' = 2"
    using r'(1) by (auto simp: Snapshot_def Let_def result_simps sample_node_def fresh_node_eq split: if_splits)
  ultimately show ?thesis
    using that by (simp add: log_above_def sample_node_def fresh_node_eq numeral_2_eq_2)
qed

theorem snapshot_survives_restart_witness:
  "\<exists>r' q. Snapshot 2 ''new'' sample_node = Inr r'
     \<and> q = restart_node sample_parse 0 1 3 (fmp r')
         (persist_snapshot sample_ser sample_parse \<lparr>io_open = True, io_room = 3, io_sync = True, io_rename = True\<rparr> 25 ''new'' r' sample_disk)
         empty_queue
     \<and> m_logs q = [sample_entry 3] \<and> m_snapshotFile q = ''new'' \<and> m_lastSnapshotIndex q = 2 \<and> m_currentTerm q = 2"
proof -
  let ?io = "\<lparr>io_open = True, io_room = 3, io_sync = True, io_rename = True\<rparr>"
  obtain r' where r': "Snapshot 2 ''new'' sample_node = Inr r'" "m_logs r' = [sample_entry 3]" "m_currentTerm r' = 2"
    by (rule sample_snapshot)
  define q where "q = restart_node sample_parse 0 1 3 (fmp r')
      (persist_snapshot sample_ser sample_parse ?io 25 ''new'' r' sample_disk) empty_queue"
  have "length (segment_bytes sample_ser (m_logs r')) \<le> 25" unfolding r'(2) sample_bytes_length by simp
  note restart = snapshot_survives_restart [OF sample_node_facts(1) r'(1) _ _ _ _ sample_node_facts(4,5,6) _ _
      sample_node_facts(7-10) this _ q_def]
  have "m_logs q = [sample_entry 3] \<and> m_snapshotFile q = ''new'' \<and> m_lastSnapshotIndex q = 2 \<and> m_currentTerm q = 2"
    using restart r'(2,3) by (simp add: sample_node_facts(2,3) io_ok_def)
  then show ?thesis using r'(1) q_def by blast
qed

text \<open>C28: A snapshot that could not be written loses committed commands. \<open>Save\<close> reports nothing when
  it fails, and the node goes on to cut its log: a node that starts on the disk then has the old snapshot
  under the new snapshot's index, and neither the log nor that file has the commands between the
  two, which it will never apply.\<close>

theorem failed_snapshot_loses_commands:
  assumes "raft_ok r" "Snapshot index snapshot r = Inr r'"
    and "m_lastSnapshotIndex r < index" "index \<le> m_commitIndex r" "index < 2 ^ 31 - 1"
    and "0 \<le> m_lastSnapshotIndex r"
    and "wal_holds ser parse (nd_wal d) all" "\<forall>e \<in> set all. codec_ok ser parse e"
    and "contiguous s0 all" "0 \<le> s0" "s0 \<le> m_lastSnapshotIndex r"
    and "m_logs r = filter (\<lambda>e. m_lastSnapshotIndex r < logindex e) all"
    and "int32_range (m_commitIndex r)" "int32_range (m_currentTerm r)" "int32_range (m_voteForId r)"
    and "length (segment_bytes ser (m_logs r')) \<le> room" "\<not> io_ok snapshot io"
    and "q = restart_node parse now me n (fmp r') (persist_snapshot ser parse io room snapshot r' d) ch"
  shows "m_snapshotFile q = ReadSnapshot (nd_files d) \<and> m_lastSnapshotIndex q = index \<and> m_lastApplied q = index
    \<and> (\<forall>e \<in> set (m_logs q). index < logindex e)"
  using restart_after_Snapshot [OF assms(1-16) refl assms(18)] assms(17) by simp

text \<open>There is no room for the snapshot: the commands 1 and 2 are gone.\<close>

theorem failed_snapshot_loses_commands_witness:
  "\<exists>r' q. Snapshot 2 ''new'' sample_node = Inr r'
     \<and> q = restart_node sample_parse 0 1 3 (fmp r')
         (persist_snapshot sample_ser sample_parse \<lparr>io_open = True, io_room = 2, io_sync = True, io_rename = True\<rparr> 25 ''new'' r' sample_disk)
         empty_queue
     \<and> m_snapshotFile q = ''old'' \<and> m_lastApplied q = 2 \<and> sample_entry 1 \<notin> set (m_logs q)"
proof -
  let ?io = "\<lparr>io_open = True, io_room = 2, io_sync = True, io_rename = True\<rparr>"
  obtain r' where r': "Snapshot 2 ''new'' sample_node = Inr r'" "m_logs r' = [sample_entry 3]" "m_currentTerm r' = 2"
    by (rule sample_snapshot)
  define q where "q = restart_node sample_parse 0 1 3 (fmp r')
      (persist_snapshot sample_ser sample_parse ?io 25 ''new'' r' sample_disk) empty_queue"
  have "length (segment_bytes sample_ser (m_logs r')) \<le> 25" unfolding r'(2) sample_bytes_length by simp
  note restart = failed_snapshot_loses_commands [OF sample_node_facts(1) r'(1) _ _ _ _ sample_node_facts(4,5,6) _ _
      sample_node_facts(7-10) this _ q_def]
  have lost: "m_snapshotFile q = ''old'' \<and> m_lastApplied q = 2 \<and> (\<forall>e \<in> set (m_logs q). 2 < logindex e)"
    using restart by (simp add: sample_node_facts(2,3) io_ok_def sample_disk_def ReadSnapshot_def)
  then have "sample_entry 1 \<notin> set (m_logs q)" by (auto dest!: bspec [of _ _ "sample_entry 1"])
  then show ?thesis using r'(1) q_def lost by blast
qed

end
