(* ===== verification/Wal_Writer.thy ===== *)
theory Wal_Writer
  imports Node_Disk
begin

text \<open>
  The life of the persister (src/persist/Persister.cc): its constructor on the files it finds, the
  loop of the writer thread over the queue of batches, and its end. The theory of the log has one
  turn of the loop; here the turns are put together with the queue they take their batches from.
\<close>

section \<open>Start and end\<close>

definition RecalculateWalSize :: "persister \<Rightarrow> persister" where
  "RecalculateWalSize p =
     p\<lparr>m_raftLogsFileSize := int (sum_list (map (\<lambda>f. length (snd f)) (wal_dir p)))\<rparr>"

text \<open>The constructor, as far as the segments are concerned; the members have the initial values of the class.\<close>

definition Persister :: "(u8 list \<Rightarrow> LogEntry option) \<Rightarrow> wal_files \<Rightarrow> persister" where
  "Persister parse files =
     RecalculateWalSize (ReopenLatestSegment parse
       \<lparr>wal_dir = files, log_fd = None, fd_offset = 0, m_segmentFirstIndex = 1, m_segmentLastIndex = 0,
        m_segmentEntryCount = 0, m_segmentBytes = 0, m_raftLogsFileSize = 0, m_compactedSnapshotIndex = 0\<rparr>)"

definition new_writer :: writer where
  "new_writer = \<lparr>pending_count = 0, pending_bytes = 0, waiters = [], callbacks = []\<rparr>"

section \<open>The loop\<close>

text \<open>
  What a turn meets: the batches pushed since the last one (also those that end its wait for the first
  batch), the room on the disk, the result of the sync, and whether the interval is over.
\<close>

record turn_env =
  te_pushed :: "LogBatch list"
  te_room :: nat
  te_sync_ok :: bool
  te_time_due :: bool

definition no_batch :: LogBatch where
  "no_batch = \<lparr>lb_logs = [], lb_waiter = None, lb_callback = None\<rparr>"

definition take_batches :: "LogBatch lock_queue \<Rightarrow> LogBatch list \<times> LogBatch lock_queue" where
  "take_batches q =
     (case timeOutPop [] no_batch q of (ok, batch, q1) \<Rightarrow>
        if \<not> ok then ([], q1)
        else (case TryPopBulk [batch] (64 - 1) q1 of (_, batches, q2) \<Rightarrow> (batches, q2)))"

fun writer_loop ::
  "(LogEntry \<Rightarrow> u8 list) \<Rightarrow> turn_env list \<Rightarrow> LogBatch lock_queue \<Rightarrow> writer \<Rightarrow> persister \<Rightarrow>
   notice list \<times> LogBatch lock_queue \<times> writer \<times> persister" where
  "writer_loop ser [] q w p = ([], q, w, p)"
| "writer_loop ser (env # envs) q w p =
     (case take_batches (fold Push (te_pushed env) q) of (batches, q1) \<Rightarrow>
      case writer_turn ser batches (te_room env) (te_sync_ok env) (te_time_due env) w p of (ns, w1, p1) \<Rightarrow>
      case writer_loop ser envs q1 w1 p1 of (ns', q2, w2, p2) \<Rightarrow> (ns @ ns', q2, w2, p2))"

text \<open>Behind the loop, when \<open>m_isRunning\<close> was found false: the records not yet synced are.\<close>

definition writer_end :: "bool \<Rightarrow> writer \<Rightarrow> notice list" where
  "writer_end sync_ok w =
     (if pending_count w > 0 then notify_all (waiters w) (callbacks w) sync_ok else [])"

definition writer_task ::
  "(LogEntry \<Rightarrow> u8 list) \<Rightarrow> turn_env list \<Rightarrow> bool \<Rightarrow> LogBatch lock_queue \<Rightarrow> persister \<Rightarrow>
   notice list \<times> LogBatch lock_queue \<times> persister" where
  "writer_task ser envs sync_ok q p =
     (case writer_loop ser envs q new_writer p of (ns, q', w, p') \<Rightarrow> (ns @ writer_end sync_ok w, q', p'))"

text \<open>The destructor: the thread has ended, the descriptor is closed; the queue goes as it is.\<close>

definition delete_Persister :: "persister \<Rightarrow> persister" where
  "delete_Persister p = p\<lparr>log_fd := None\<rparr>"

section \<open>Who is told\<close>

definition told_waiters :: "notice list \<Rightarrow> nat list" where
  "told_waiters ns = List.map_filter (\<lambda>n. case n of Waiter_done w _ \<Rightarrow> Some w | _ \<Rightarrow> None) ns"

definition told_callbacks :: "notice list \<Rightarrow> nat list" where
  "told_callbacks ns = List.map_filter (\<lambda>n. case n of Callback_run c _ \<Rightarrow> Some c | _ \<Rightarrow> None) ns"

lemma map_filter_append [simp]: "List.map_filter f (xs @ ys) = List.map_filter f xs @ List.map_filter f ys"
  by (induction xs) (simp_all add: List.map_filter_simps split: option.split)

lemma told_append [simp]:
  "told_waiters (ms @ ns) = told_waiters ms @ told_waiters ns"
  "told_callbacks (ms @ ns) = told_callbacks ms @ told_callbacks ns"
  by (simp_all add: told_waiters_def told_callbacks_def)

lemma told_Nil [simp]: "told_waiters [] = []" "told_callbacks [] = []"
  by (simp_all add: told_waiters_def told_callbacks_def List.map_filter_simps)

lemma told_notify_all [simp]:
  "told_waiters (notify_all ws cs ok) = ws" "told_callbacks (notify_all ws cs ok) = cs"
proof -
  have "List.map_filter (\<lambda>n. case n of Waiter_done w _ \<Rightarrow> Some w | _ \<Rightarrow> None) (map (\<lambda>w. Waiter_done w ok) ws) = ws"
    "List.map_filter (\<lambda>n. case n of Waiter_done w _ \<Rightarrow> Some w | _ \<Rightarrow> None) (map (\<lambda>c. Callback_run c ok) cs) = []"
    by (induction ws, simp_all add: List.map_filter_simps) (induction cs, simp_all add: List.map_filter_simps)
  then show "told_waiters (notify_all ws cs ok) = ws" by (simp add: told_waiters_def notify_all_def)
  have "List.map_filter (\<lambda>n. case n of Callback_run c _ \<Rightarrow> Some c | _ \<Rightarrow> None) (map (\<lambda>w. Waiter_done w ok) ws) = []"
    "List.map_filter (\<lambda>n. case n of Callback_run c _ \<Rightarrow> Some c | _ \<Rightarrow> None) (map (\<lambda>c. Callback_run c ok) cs) = cs"
    by (induction ws, simp_all add: List.map_filter_simps) (induction cs, simp_all add: List.map_filter_simps)
  then show "told_callbacks (notify_all ws cs ok) = cs" by (simp add: told_callbacks_def notify_all_def)
qed

lemma batch_append [simp]:
  "batch_waiters (xs @ ys) = batch_waiters xs @ batch_waiters ys"
  "batch_callbacks (xs @ ys) = batch_callbacks xs @ batch_callbacks ys"
  by (simp_all add: batch_waiters_def batch_callbacks_def)

text \<open>A turn takes the first batches of the queue, at most 64.\<close>

lemma take_batches_eq: "take_batches q = (take 64 (m_queue q), q\<lparr>m_queue := drop 64 (m_queue q)\<rparr>)"
proof (cases "m_queue q")
  case Nil
  then have "timeOutPop [] no_batch q = (False, no_batch, q)" by (simp add: timeOutPop_spec)
  then show ?thesis using Nil by (cases q) (simp add: take_batches_def)
next
  case (Cons b bs)
  then show ?thesis
    by (simp add: take_batches_def timeOutPop_spec TryPopBulk_moves_prefix take_Cons' drop_Cons')
qed

text \<open>Whether it fails or not, a turn keeps or tells a beginning of those who wait, in their order.\<close>

lemma write_batches_prefix:
  "write_batches ser bs r ws cs p = (ok, r', ws', cs', p') \<Longrightarrow>
   \<exists>k. ws' = ws @ batch_waiters (take k bs) \<and> cs' = cs @ batch_callbacks (take k bs)"
proof (induction bs arbitrary: r ws cs p)
  case Nil
  then show ?case by auto
next
  case (Cons b bs)
  let ?ws = "ws @ (case lb_waiter b of None \<Rightarrow> [] | Some x \<Rightarrow> [x])"
  let ?cs = "cs @ (case lb_callback b of None \<Rightarrow> [] | Some x \<Rightarrow> [x])"
  obtain okl r1 p1 where w: "write_logs ser (lb_logs b) r p = (okl, r1, p1)" by (metis prod_cases3)
  show ?case
  proof (cases okl)
    case True
    then have "write_batches ser bs r1 ?ws ?cs p1 = (ok, r', ws', cs', p')"
      using Cons.prems w by (simp add: Let_def add_tag)
    from Cons.IH [OF this] obtain k where
      "ws' = ?ws @ batch_waiters (take k bs)" "cs' = ?cs @ batch_callbacks (take k bs)" by blast
    then show ?thesis by (intro exI [of _ "Suc k"]) simp
  next
    case False
    then have "ws' = ?ws \<and> cs' = ?cs" using Cons.prems w by (simp add: Let_def add_tag)
    then show ?thesis by (intro exI [of _ 1]) simp
  qed
qed

lemma writer_turn_tells:
  assumes "writer_turn ser batches room sync_ok time_due w p = (ns, w', p')"
  shows "\<exists>k. told_waiters ns @ waiters w' = waiters w @ batch_waiters (take k batches)
    \<and> told_callbacks ns @ callbacks w' = callbacks w @ batch_callbacks (take k batches)"
proof (cases "batches = []")
  case True
  then show ?thesis using assms by (auto simp: writer_turn_def finish_turn_def split: if_splits)
next
  case False
  obtain ok r ws cs p1 where b: "write_batches ser batches
      \<lparr>br_room = room, written_bytes = 0, written_count = 0, need_roll = False\<rparr> (waiters w) (callbacks w) p
      = (ok, r, ws, cs, p1)" by (metis prod_cases5)
  obtain k where k: "ws = waiters w @ batch_waiters (take k batches)"
    "cs = callbacks w @ batch_callbacks (take k batches)"
    using write_batches_prefix [OF b] by blast
  have "told_waiters ns @ waiters w' = ws \<and> told_callbacks ns @ callbacks w' = cs"
    using assms False b by (auto simp: writer_turn_def finish_turn_def Let_def split: if_splits)
  then show ?thesis using k by auto
qed

section \<open>What is on the disk\<close>

text \<open>The segments hold \<open>all\<close>, which follows the index \<open>b\<close>, and the open segment does not start behind it.\<close>

definition wal_at ::
  "(LogEntry \<Rightarrow> u8 list) \<Rightarrow> (u8 list \<Rightarrow> LogEntry option) \<Rightarrow> int \<Rightarrow> persister \<Rightarrow> LogEntry list \<Rightarrow> bool" where
  "wal_at ser parse b p all \<longleftrightarrow> wal_holds ser parse p all \<and> contiguous b all
     \<and> int (unat (m_segmentFirstIndex p)) \<le> b + int (length all) + 1"

lemma wal_at_fd: "wal_at ser parse b p all \<Longrightarrow> log_fd p = Some (openSegmentName (m_segmentFirstIndex p))"
  by (auto simp: wal_at_def wal_holds_def dest: wal_okD(1))

lemma contiguous_index: "contiguous b es \<Longrightarrow> e \<in> set es \<Longrightarrow> b < logindex e"
  by (auto simp: contiguous_def in_set_conv_nth)

lemma roll_first:
  assumes ok: "wal_ok ser parse p old es" and cont: "contiguous b (concat (map snd old) @ es)"
    and first: "int (unat (m_segmentFirstIndex p)) \<le> b + int (length (concat (map snd old) @ es)) + 1"
  shows "int (unat (m_segmentFirstIndex (RollSegment p))) \<le> b + int (length (concat (map snd old) @ es)) + 1"
proof (cases "m_segmentEntryCount p = 0")
  case True
  then show ?thesis using first by (simp add: RollSegment_def)
next
  case False
  let ?all = "concat (map snd old) @ es"
  have es: "es \<noteq> []" "m_segmentLastIndex p = word_of_int (logindex (last es))" using wal_okD(8) [OF ok False] by auto
  have "codec_ok ser parse (last es)"
    using wal_okD(6) [OF ok, of "(openSegmentName (m_segmentFirstIndex p), es)"] es(1) by simp
  then have "int32_range (logindex (last es))" "0 \<le> logindex (last es)" unfolding codec_ok_def by blast+
  from next_first [OF this] have "int (unat (m_segmentLastIndex p + 1)) = logindex (last es) + 1"
    using \<open>0 \<le> logindex (last es)\<close> by (simp only: es(2))
  moreover have "m_segmentFirstIndex (RollSegment p) = m_segmentLastIndex p + 1"
    using wal_okD(1) [OF ok] False by (simp add: RollSegment_def OpenSegment_def Let_def)
  moreover have "logindex (last es) = b + int (length ?all)"
  proof -
    have "?all = butlast ?all @ [last es]" using es(1) by (metis append_butlast_last_id append_is_Nil_conv last_appendR)
    then have "logindex (last es) = b + 1 + int (length (butlast ?all))"
      using cont by (metis contiguous_snoc)
    moreover have "0 < length ?all" using es(1) by simp
    then have "int (length (butlast ?all)) = int (length ?all) - 1"
      unfolding length_butlast by linarith
    ultimately show ?thesis by simp
  qed
  ultimately show ?thesis by simp
qed

lemma writer_turn_at:
  assumes at: "wal_at ser parse b p all" and fit: "length (batch_bytes ser batches) \<le> room"
    and codec: "\<forall>e \<in> set (batch_logs batches). codec_ok ser parse e"
    and cont: "contiguous (b + int (length all)) (batch_logs batches)"
    and run: "writer_turn ser batches room sync_ok time_due w p = (ns, w', p')"
  shows "wal_at ser parse b p' (all @ batch_logs batches)"
proof -
  have holds: "wal_holds ser parse p all" and old: "contiguous b all"
    and first: "int (unat (m_segmentFirstIndex p)) \<le> b + int (length all) + 1"
    using at by (auto simp: wal_at_def)
  have new: "\<forall>e \<in> set (batch_logs batches). codec_ok ser parse e \<and> int (unat (m_segmentFirstIndex p)) \<le> logindex e"
  proof
    fix e assume e: "e \<in> set (batch_logs batches)"
    then have "codec_ok ser parse e" using codec by blast
    moreover have "b + int (length all) < logindex e" by (rule contiguous_index [OF cont e])
    ultimately show "codec_ok ser parse e \<and> int (unat (m_segmentFirstIndex p)) \<le> logindex e"
      using first by linarith
  qed
  have whole: "contiguous b (all @ batch_logs batches)" using old cont by (simp add: contiguous_append)
  have "int (unat (m_segmentFirstIndex p')) \<le> b + int (length (all @ batch_logs batches)) + 1"
  proof (cases "batches = []")
    case True
    then show ?thesis using run first by (simp add: writer_turn_def finish_turn_def split: if_splits)
  next
    case False
    obtain old es where ok: "wal_ok ser parse p old es" and all: "all = concat (map snd old) @ es"
      using holds by (auto simp: wal_holds_def)
    let ?w0 = "\<lparr>br_room = room, written_bytes = 0, written_count = 0, need_roll = False\<rparr>"
    have "length (batch_bytes ser batches) \<le> br_room ?w0" using fit by simp
    from write_batches_ok [OF wal_okD(1) [OF ok] this, of "waiters w" "callbacks w"] obtain r ws cs p1 where
      b: "write_batches ser batches ?w0 (waiters w) (callbacks w) p = (True, r, ws, cs, p1)"
      and app: "appends (batch_bytes ser batches) p p1" by blast
    let ?p2 = "p1\<lparr>m_raftLogsFileSize := m_raftLogsFileSize p1 + int (written_bytes r)\<rparr>"
    have app2: "appends (segment_bytes ser (batch_logs batches)) p ?p2" using app by (simp add: batch_bytes_def)
    have ok2: "wal_ok ser parse ?p2 old (es @ batch_logs batches)"
      by (rule wal_ok_appends [OF ok app2 new]) (use write_batches_counters [OF b] in simp_all)
    have first2: "int (unat (m_segmentFirstIndex ?p2)) \<le> b + int (length (all @ batch_logs batches)) + 1"
      using appendsD(4) [OF app2] first by simp
    have eq: "concat (map snd old) @ es @ batch_logs batches = all @ batch_logs batches" by (simp add: all)
    have "int (unat (m_segmentFirstIndex (RollSegment ?p2))) \<le> b + int (length (all @ batch_logs batches)) + 1"
      using roll_first [OF ok2, of b] whole first2 unfolding eq by blast
    moreover have "p' = RollSegment ?p2 \<or> p' = ?p2"
      using run False b by (auto simp: writer_turn_def Let_def finish_turn_def split: if_splits)
    ultimately show ?thesis using first2 by auto
  qed
  then show ?thesis
    using writer_turn_holds [OF holds fit new run] whole by (simp add: wal_at_def)
qed

section \<open>The whole loop\<close>

text \<open>A writer that waits for a sync has written something to sync.\<close>

definition writer_ok :: "writer \<Rightarrow> bool" where
  "writer_ok w \<longleftrightarrow> (pending_count w = 0 \<longrightarrow> waiters w = [] \<and> callbacks w = [])"

lemma writer_turn_fits:
  assumes fd: "log_fd p = Some s" and fit: "length (batch_bytes ser batches) \<le> room"
    and run: "writer_turn ser batches room sync_ok time_due w p = (ns, w', p')"
  shows "told_waiters ns @ waiters w' = waiters w @ batch_waiters batches"
    "told_callbacks ns @ callbacks w' = callbacks w @ batch_callbacks batches"
    "writer_ok w \<Longrightarrow> \<forall>b \<in> set batches. lb_logs b \<noteq> [] \<Longrightarrow> writer_ok w'"
proof -
  let ?w0 = "\<lparr>br_room = room, written_bytes = 0, written_count = 0, need_roll = False\<rparr>"
  have "length (batch_bytes ser batches) \<le> br_room ?w0" using fit by simp
  from write_batches_ok [OF fd this, of "waiters w" "callbacks w"] obtain r p1 where
    b: "write_batches ser batches ?w0 (waiters w) (callbacks w) p =
      (True, r, waiters w @ batch_waiters batches, callbacks w @ batch_callbacks batches, p1)"
    and count: "written_count r = length (batch_logs batches)"
    by (metis (no_types, lifting) add_0 batch_run.select_convs(3))
  show "told_waiters ns @ waiters w' = waiters w @ batch_waiters batches"
    "told_callbacks ns @ callbacks w' = callbacks w @ batch_callbacks batches"
    using run b by (auto simp: writer_turn_def finish_turn_def Let_def split: if_splits)
  assume ok: "writer_ok w" and full: "\<forall>b \<in> set batches. lb_logs b \<noteq> []"
  have "0 < written_count r" if "batches \<noteq> []"
    using that full count by (cases batches) (auto simp: length_greater_0_conv [symmetric] simp del: length_greater_0_conv)
  then show "writer_ok w'"
    using run b ok by (auto simp: writer_ok_def writer_turn_def finish_turn_def Let_def split: if_splits)
qed

lemma fold_Push: "fold Push xs q = q\<lparr>m_queue := m_queue q @ xs\<rparr>"
  by (induction xs arbitrary: q) (simp_all add: Push_def)

lemma batch_bytes_append: "batch_bytes ser (xs @ ys) = batch_bytes ser xs @ batch_bytes ser ys"
  by (simp add: batch_bytes_def segment_bytes_def)

lemma writer_loop_run:
  assumes "wal_at ser parse b p all" "writer_ok w"
    and "\<forall>x \<in> set (m_queue q @ concat (map te_pushed envs)). lb_logs x \<noteq> []"
    and "\<forall>e \<in> set (batch_logs (m_queue q @ concat (map te_pushed envs))). codec_ok ser parse e"
    and "contiguous (b + int (length all)) (batch_logs (m_queue q @ concat (map te_pushed envs)))"
    and "\<forall>env \<in> set envs. length (batch_bytes ser (m_queue q @ concat (map te_pushed envs))) \<le> te_room env"
    and "writer_loop ser envs q w p = (ns, q', w', p')"
  shows "\<exists>taken. m_queue q @ concat (map te_pushed envs) = taken @ m_queue q'
    \<and> told_waiters ns @ waiters w' = waiters w @ batch_waiters taken
    \<and> told_callbacks ns @ callbacks w' = callbacks w @ batch_callbacks taken
    \<and> writer_ok w' \<and> wal_at ser parse b p' (all @ batch_logs taken)"
  using assms
proof (induction envs arbitrary: q w p all ns)
  case Nil
  then show ?case by (intro exI [of _ "[]"]) auto
next
  case (Cons env envs)
  let ?rest = "concat (map te_pushed envs)"
  define avail where "avail = m_queue q @ te_pushed env"
  define batches where "batches = take 64 avail"
  define left where "left = drop 64 avail"
  let ?q1 = "q\<lparr>m_queue := left\<rparr>"
  have split: "avail @ ?rest = batches @ left @ ?rest" by (simp add: batches_def left_def)
  have taken: "take_batches (fold Push (te_pushed env) q) = (batches, ?q1)"
    by (simp add: take_batches_eq fold_Push avail_def batches_def left_def)
  obtain ns1 w1 p1 where turn: "writer_turn ser batches (te_room env) (te_sync_ok env) (te_time_due env) w p
      = (ns1, w1, p1)" by (metis prod_cases3)
  obtain ns2 where loop: "writer_loop ser envs ?q1 w1 p1 = (ns2, q', w', p')" and ns: "ns = ns1 @ ns2"
    using Cons.prems(7) taken turn by (auto split: prod.splits)
  have bytes: "batch_bytes ser (avail @ ?rest) = batch_bytes ser batches @ batch_bytes ser (left @ ?rest)"
    by (subst split) (simp only: batch_bytes_append)
  have room: "length (batch_bytes ser (avail @ ?rest)) \<le> te_room e" if "e \<in> set (env # envs)" for e
    using Cons.prems(6) that by (auto simp: avail_def)
  have fit: "length (batch_bytes ser batches) \<le> te_room env"
    using room [of env] unfolding bytes by simp
  have logs: "batch_logs (avail @ ?rest) = batch_logs batches @ batch_logs (left @ ?rest)"
    by (subst split) simp
  have mem: "set (avail @ ?rest) = set batches \<union> set (left @ ?rest)"
    by (subst split) simp
  have full: "\<forall>x \<in> set (avail @ ?rest). lb_logs x \<noteq> []" using Cons.prems(3) by (simp add: avail_def)
  have codec: "\<forall>e \<in> set (batch_logs (avail @ ?rest)). codec_ok ser parse e" using Cons.prems(4) by (simp add: avail_def)
  have cont: "contiguous (b + int (length all)) (batch_logs (avail @ ?rest))" using Cons.prems(5) by (simp add: avail_def)
  have at1: "wal_at ser parse b p1 (all @ batch_logs batches)"
    using writer_turn_at [OF Cons.prems(1) fit _ _ turn] codec cont unfolding logs contiguous_append by simp
  note tells = writer_turn_fits [OF wal_at_fd [OF Cons.prems(1)] fit turn]
  have "\<exists>taken. m_queue ?q1 @ ?rest = taken @ m_queue q'
      \<and> told_waiters ns2 @ waiters w' = waiters w1 @ batch_waiters taken
      \<and> told_callbacks ns2 @ callbacks w' = callbacks w1 @ batch_callbacks taken
      \<and> writer_ok w' \<and> wal_at ser parse b p' ((all @ batch_logs batches) @ batch_logs taken)"
  proof (rule Cons.IH [OF at1 _ _ _ _ _ loop])
    show "writer_ok w1" using tells(3) [OF Cons.prems(2)] full mem by blast
    show "\<forall>x \<in> set (m_queue ?q1 @ ?rest). lb_logs x \<noteq> []" using full unfolding mem by simp
    show "\<forall>e \<in> set (batch_logs (m_queue ?q1 @ ?rest)). codec_ok ser parse e"
      using codec unfolding logs by simp
    show "contiguous (b + int (length (all @ batch_logs batches))) (batch_logs (m_queue ?q1 @ ?rest))"
      using cont unfolding logs contiguous_append by (simp add: add.assoc)
    show "\<forall>e \<in> set envs. length (batch_bytes ser (m_queue ?q1 @ ?rest)) \<le> te_room e"
    proof
      fix e assume "e \<in> set envs"
      then show "length (batch_bytes ser (m_queue ?q1 @ ?rest)) \<le> te_room e"
        using room [of e] unfolding bytes by simp
    qed
  qed
  then obtain taken where t: "left @ ?rest = taken @ m_queue q'"
    "told_waiters ns2 @ waiters w' = waiters w1 @ batch_waiters taken"
    "told_callbacks ns2 @ callbacks w' = callbacks w1 @ batch_callbacks taken"
    "writer_ok w'" "wal_at ser parse b p' (all @ batch_logs (batches @ taken))"
    by auto
  have "told_waiters ns @ waiters w' = waiters w @ batch_waiters (batches @ taken)"
    using t(2) tells(1) unfolding ns told_append batch_append append_assoc by (metis append_assoc)
  moreover have "told_callbacks ns @ callbacks w' = callbacks w @ batch_callbacks (batches @ taken)"
    using t(3) tells(2) unfolding ns told_append batch_append append_assoc by (metis append_assoc)
  moreover have "m_queue q @ concat (map te_pushed (env # envs)) = (batches @ taken) @ m_queue q'"
  proof -
    have "m_queue q @ concat (map te_pushed (env # envs)) = avail @ ?rest" by (simp add: avail_def)
    also have "\<dots> = batches @ left @ ?rest" by (rule split)
    finally show ?thesis by (simp only: t(1) append_assoc)
  qed
  ultimately show ?case using t(4,5) by blast
qed

section \<open>Restarting\<close>

text \<open>What the segments hold is a matter of the files and of the members the reopening sets.\<close>

lemma wal_ok_cong:
  "wal_dir p' = wal_dir p \<Longrightarrow> log_fd p' = log_fd p \<Longrightarrow> m_segmentFirstIndex p' = m_segmentFirstIndex p \<Longrightarrow>
   m_segmentLastIndex p' = m_segmentLastIndex p \<Longrightarrow> m_segmentEntryCount p' = m_segmentEntryCount p \<Longrightarrow>
   wal_ok ser parse p' old es = wal_ok ser parse p old es"
  by (simp add: wal_ok_def)

lemma reopened_fields:
  assumes "wal_dir p' = wal_dir p"
  shows "wal_dir (ReopenLatestSegment parse p') = wal_dir (ReopenLatestSegment parse p)"
    "log_fd (ReopenLatestSegment parse p') = log_fd (ReopenLatestSegment parse p)"
    "m_segmentFirstIndex (ReopenLatestSegment parse p') = m_segmentFirstIndex (ReopenLatestSegment parse p)"
    "m_segmentLastIndex (ReopenLatestSegment parse p') = m_segmentLastIndex (ReopenLatestSegment parse p)"
    "m_segmentEntryCount (ReopenLatestSegment parse p') = m_segmentEntryCount (ReopenLatestSegment parse p)"
  using assms by (simp_all add: ReopenLatestSegment_def OpenSegment_def Let_def split: prod.splits)

lemma Persister_holds:
  assumes "wal_holds ser parse p all" "\<forall>e \<in> set all. 0 < logindex e" "files = wal_dir p"
  shows "wal_holds ser parse (Persister parse files) all"
    "m_segmentFirstIndex (Persister parse files) = m_segmentFirstIndex p"
proof -
  let ?p0 = "\<lparr>wal_dir = files, log_fd = None, fd_offset = 0, m_segmentFirstIndex = 1, m_segmentLastIndex = 0,
        m_segmentEntryCount = 0, m_segmentBytes = 0, m_raftLogsFileSize = 0, m_compactedSnapshotIndex = 0\<rparr>"
  have dir: "wal_dir ?p0 = wal_dir p" using assms(3) by simp
  note fields = reopened_fields [OF dir, of parse]
  have "wal_ok ser parse (Persister parse files) old es = wal_ok ser parse (ReopenLatestSegment parse p) old es"
    for old es
    using fields by (intro wal_ok_cong) (simp_all add: Persister_def RecalculateWalSize_def)
  then show "wal_holds ser parse (Persister parse files) all"
    using ReopenLatestSegment_holds(1) [OF assms(1,2)] by (simp add: wal_holds_def)
  show "m_segmentFirstIndex (Persister parse files) = m_segmentFirstIndex p"
    using fields(3) ReopenLatestSegment_holds(2) [OF assms(1,2)]
    by (simp add: Persister_def RecalculateWalSize_def)
qed

section \<open>Properties\<close>

text \<open>C30: The life of the persister. It is started on the files of an earlier one whose segments hold the
  entries \<open>all\<close>, contiguous from \<open>b\<close> on; batches are pushed at any time, their entries continue \<open>all\<close>, and
  there is room for them. However the loop cuts the queue into turns, when it rolls, and whatever the
  syncs return: the batches taken from the queue are a first part of it, everybody who waits for one of
  them is told exactly once and in the order of the queue, and nobody else; and the next start
  recovers, at any snapshot, the old entries followed by those of the batches taken.\<close>

theorem writer_life:
  assumes "wal_holds ser parse p all" "contiguous b all" "0 \<le> b"
    and "int (unat (m_segmentFirstIndex p)) \<le> b + int (length all) + 1"
    and "offered = m_queue q @ concat (map te_pushed envs)"
    and "\<forall>x \<in> set offered. lb_logs x \<noteq> []" "\<forall>e \<in> set (batch_logs offered). codec_ok ser parse e"
    and "contiguous (b + int (length all)) (batch_logs offered)"
    and "\<forall>env \<in> set envs. length (batch_bytes ser offered) \<le> te_room env"
    and "writer_task ser envs sync_ok q (Persister parse (wal_dir p)) = (ns, q', p')"
    and "b \<le> s" "s < 2 ^ 31 - 1"
  shows "\<exists>taken. offered = taken @ m_queue q'
    \<and> told_waiters ns = batch_waiters taken \<and> told_callbacks ns = batch_callbacks taken
    \<and> snd (ReadPersistedLogs parse (word_of_int s) (Persister parse (wal_dir (delete_Persister p'))))
        = filter (\<lambda>e. s < logindex e) (all @ batch_logs taken)"
proof -
  have pos: "\<forall>e \<in> set all. 0 < logindex e" using contiguous_index [OF assms(2)] assms(3) by fastforce
  have at: "wal_at ser parse b (Persister parse (wal_dir p)) all"
    using Persister_holds [OF assms(1) pos refl] assms(2,4) by (simp add: wal_at_def)
  obtain ns1 q1 w1 p1 where loop: "writer_loop ser envs q new_writer (Persister parse (wal_dir p)) = (ns1, q1, w1, p1)"
    by (metis prod_cases4)
  then have res: "ns = ns1 @ writer_end sync_ok w1" "q' = q1" "p' = p1"
    using assms(10) by (simp_all add: writer_task_def)
  have "writer_ok new_writer" by (simp add: writer_ok_def new_writer_def)
  from writer_loop_run [OF at this _ _ _ _ loop] assms(6-9) obtain taken where
    t: "offered = taken @ m_queue q1" "told_waiters ns1 @ waiters w1 = batch_waiters taken"
      "told_callbacks ns1 @ callbacks w1 = batch_callbacks taken" "writer_ok w1"
      "wal_at ser parse b p1 (all @ batch_logs taken)"
    unfolding assms(5) by (auto simp: new_writer_def)
  have told: "told_waiters ns = batch_waiters taken" "told_callbacks ns = batch_callbacks taken"
    using t(2-4) by (auto simp: res(1) writer_end_def writer_ok_def)
  have holds: "wal_holds ser parse p1 (all @ batch_logs taken)" and cont: "contiguous b (all @ batch_logs taken)"
    using t(5) by (auto simp: wal_at_def)
  have "\<forall>e \<in> set (all @ batch_logs taken). 0 < logindex e"
    using contiguous_index [OF cont] assms(3) by fastforce
  from Persister_holds(1) [OF holds this]
  have "snd (ReadPersistedLogs parse (word_of_int s) (Persister parse (wal_dir (delete_Persister p'))))
      = replay (word_of_int s) (all @ batch_logs taken)"
    using assms(3,11,12) by (intro wal_holds_recovered) (simp_all add: delete_Persister_def res)
  also have "\<dots> = filter (\<lambda>e. s < logindex e) (all @ batch_logs taken)"
    using assms(3,11,12) by (intro replay_contiguous [OF cont]) auto
  finally show ?thesis using t(1) told res(2) by blast
qed

text \<open>Two turns: the fourth entry is pushed for the first, the fifth for the second, whose sync fails.\<close>

definition sample_turn :: "nat \<Rightarrow> bool \<Rightarrow> turn_env" where
  "sample_turn n sync_ok = \<lparr>te_pushed = [sample_batch n], te_room = 1000, te_sync_ok = sync_ok, te_time_due = True\<rparr>"

theorem writer_life_witness:
  "\<exists>ns q' p'. writer_task sample_ser [sample_turn 4 True, sample_turn 5 False] True empty_queue
       (Persister sample_parse (wal_dir sample_wal)) = (ns, q', p')
     \<and> told_waiters ns = [4, 5]
     \<and> snd (ReadPersistedLogs sample_parse (word_of_int 1) (Persister sample_parse (wal_dir (delete_Persister p'))))
         = map sample_entry [2, 3, 4, 5]"
proof -
  let ?envs = "[sample_turn 4 True, sample_turn 5 False]"
  obtain ns q' p' where run: "writer_task sample_ser ?envs True empty_queue
      (Persister sample_parse (wal_dir sample_wal)) = (ns, q', p')" by (metis prod_cases3)
  have empty: "m_queue q' = []"
    using run by (auto simp: writer_task_def take_batches_eq Push_def sample_turn_def empty_queue_def split: prod.splits)
  let ?offered = "m_queue empty_queue @ concat (map te_pushed ?envs)"
  have offered: "?offered = [sample_batch 4, sample_batch 5]" by (simp add: sample_turn_def empty_queue_def)
  have logs: "batch_logs ?offered = map sample_entry [4, 5]" unfolding offered by (simp add: sample_batch_def)
  have holds: "wal_holds sample_ser sample_parse sample_wal (map sample_entry [1, 2, 3])"
    unfolding wal_holds_def using sample_wal_holds by force
  have old: "contiguous 0 (map sample_entry [1, 2, 3])"
    by (simp add: contiguous_def less_Suc_eq numeral_3_eq_3)
  have first: "int (unat (m_segmentFirstIndex sample_wal)) \<le> 0 + int (length (map sample_entry [1, 2, 3])) + 1"
    by (simp add: sample_wal_def)
  have full: "\<forall>x \<in> set ?offered. lb_logs x \<noteq> []" unfolding offered by (simp add: sample_batch_def)
  have codec: "\<forall>e \<in> set (batch_logs ?offered). codec_ok sample_ser sample_parse e"
    unfolding logs by (simp add: sample_codec)
  have cont: "contiguous (0 + int (length (map sample_entry [1, 2, 3]))) (batch_logs ?offered)"
    unfolding logs by (simp add: contiguous_def less_Suc_eq numeral_2_eq_2)
  have fit: "\<forall>env \<in> set ?envs. length (batch_bytes sample_ser ?offered) \<le> te_room env"
    unfolding batch_bytes_def sample_bytes_length logs by (simp add: sample_turn_def)
  have bounds: "(0::int) \<le> 1" "(1::int) < 2 ^ 31 - 1" by simp_all
  from writer_life [OF holds old order_refl first refl full codec cont fit run bounds] empty
  have told: "told_waiters ns = batch_waiters ?offered"
    and log: "snd (ReadPersistedLogs sample_parse (word_of_int 1) (Persister sample_parse (wal_dir (delete_Persister p'))))
      = filter (\<lambda>e. 1 < logindex e) (map sample_entry [1, 2, 3] @ batch_logs ?offered)" by auto
  have "batch_waiters ?offered = [4, 5]"
    unfolding offered by (simp add: batch_waiters_def sample_batch_def List.map_filter_simps)
  then show ?thesis using run told log unfolding logs by auto
qed

end
