(* ===== verification/Config.thy ===== *)
theory Config
  imports KV_Prelude
begin

text \<open>
  The configuration file that lists the nodes: \<open>MrpcConfig\<close> (src/rpc/mrpcconfig.cc) reads it,
  \<open>RpcProvider::Run\<close> (src/rpc/rpcprovider.cc) appends a node's address to it, and the constructors
  of the server and \<open>Clerk::Init\<close> collect the addresses. The file is its content; the
  standard library's \<open>to_string\<close> and \<open>atoi\<close> are written out on decimal digits.
\<close>

section \<open>Numbers\<close>

definition digit :: "nat \<Rightarrow> char" where
  "digit d = char_of (48 + d)"

definition is_digit :: "char \<Rightarrow> bool" where
  "is_digit c \<longleftrightarrow> 48 \<le> (of_char c :: nat) \<and> (of_char c :: nat) \<le> 57"

fun to_string :: "nat \<Rightarrow> string" where
  "to_string n = (if n < 10 then [digit n] else to_string (n div 10) @ [digit (n mod 10)])"

declare to_string.simps [simp del]

definition to_string_int :: "int \<Rightarrow> string" where
  "to_string_int i = (if i < 0 then CHR ''-'' # to_string (nat (- i)) else to_string (nat i))"

definition digits_value :: "string \<Rightarrow> nat" where
  "digits_value ds = foldl (\<lambda>a c. 10 * a + (of_char c - 48)) 0 ds"

text \<open>The blanks \<open>atoi\<close> skips are those of \<open>isspace\<close>.\<close>

definition is_space :: "char \<Rightarrow> bool" where
  "is_space c \<longleftrightarrow> c = CHR '' '' \<or> (9 \<le> (of_char c :: nat) \<and> (of_char c :: nat) \<le> 13)"

definition atoi :: "string \<Rightarrow> int" where
  "atoi s =
     (let t = dropWhile is_space s in
      case t of
        [] \<Rightarrow> 0
      | c # r \<Rightarrow>
          if c = CHR ''-'' then - int (digits_value (takeWhile is_digit r))
          else if c = CHR ''+'' then int (digits_value (takeWhile is_digit r))
          else int (digits_value (takeWhile is_digit t)))"

text \<open>The conversion of an \<open>int\<close> to \<open>short\<close>.\<close>

definition to_short :: "int \<Rightarrow> int" where
  "to_short i = sint (word_of_int i :: 16 word)"

section \<open>Reading the file\<close>

type_synonym config_map = "string \<Rightarrow> string option"

text \<open>A string of blanks only is left as it is.\<close>

definition Trim :: "string \<Rightarrow> string" where
  "Trim s =
     (let s1 = (if \<exists>c \<in> set s. c \<noteq> CHR '' '' then dropWhile (\<lambda>c. c = CHR '' '') s else s) in
      if \<exists>c \<in> set s1. c \<noteq> CHR '' '' then rev (dropWhile (\<lambda>c. c = CHR '' '') (rev s1)) else s1)"

text \<open>\<open>fgets(buf, n + 1)\<close>: what it reads and what is left.\<close>

fun fgets :: "nat \<Rightarrow> string \<Rightarrow> string \<times> string" where
  "fgets 0 s = ([], s)"
| "fgets (Suc n) [] = ([], [])"
| "fgets (Suc n) (c # s) =
     (if c = CHR 0x0A then ([c], s) else case fgets n s of (l, r) \<Rightarrow> (c # l, r))"

definition insert_new :: "string \<Rightarrow> string \<Rightarrow> config_map \<Rightarrow> config_map" where
  "insert_new key v m = (if m key = None then m(key \<mapsto> v) else m)"

definition config_line :: "string \<Rightarrow> config_map \<Rightarrow> config_map" where
  "config_line buf m =
     (let read_buf = Trim (takeWhile (\<lambda>c. c \<noteq> CHR 0x00) buf) in
      if read_buf = [] \<or> read_buf ! 0 = CHR ''#'' then m
      else if CHR ''='' \<notin> set read_buf then m
      else
        let key = Trim (takeWhile (\<lambda>c. c \<noteq> CHR ''='') read_buf);
            rest = tl (dropWhile (\<lambda>c. c \<noteq> CHR ''='') read_buf) in
        insert_new key (Trim (takeWhile (\<lambda>c. c \<noteq> CHR 0x0A) rest)) m)"

lemma fgets_length: "fgets n s = (l, r) \<Longrightarrow> 0 < n \<Longrightarrow> s \<noteq> [] \<Longrightarrow> length r < length s"
proof (induction n s arbitrary: l rule: fgets.induct)
  case (3 n c s)
  have "length (snd (fgets k t)) \<le> length t" for k t
    by (induction k t rule: fgets.induct) (auto split: prod.splits)
  from this [of n s] show ?case using 3 by (auto split: if_splits prod.splits)
qed auto

text \<open>The round after the last line reads nothing and changes nothing.\<close>

function load_lines :: "string \<Rightarrow> config_map \<Rightarrow> config_map" where
  "load_lines content m =
     (if content = [] then m
      else case fgets 511 content of (buf, rest) \<Rightarrow> load_lines rest (config_line buf m))"
  by pat_completeness auto
termination
  by (relation "measure (\<lambda>(c, m). length c)") (simp, metis fgets_length case_prod_conv in_measure zero_less_numeral)

declare load_lines.simps [simp del]

definition LoadConfigFile :: "string \<Rightarrow> config_map" where
  "LoadConfigFile content = load_lines content (\<lambda>_. None)"

definition Load :: "config_map \<Rightarrow> string \<Rightarrow> string" where
  "Load m key = (case m key of None \<Rightarrow> [] | Some v \<Rightarrow> v)"

section \<open>The nodes\<close>

definition ip_key :: "nat \<Rightarrow> string" where
  "ip_key i = ''node'' @ to_string i @ ''ip''"

definition port_key :: "nat \<Rightarrow> string" where
  "port_key i = ''node'' @ to_string i @ ''port''"

text \<open>What a node appends to the file when it starts.\<close>

definition config_entry :: "nat \<times> string \<times> int \<Rightarrow> string" where
  "config_entry x = (case x of (i, ip, port) \<Rightarrow>
     ip_key i @ ''='' @ ip @ [CHR 0x0A] @ port_key i @ ''='' @ to_string_int port @ [CHR 0x0A])"

text \<open>The loop over the nodes, from node \<open>i\<close> on.\<close>

function node_list :: "config_map \<Rightarrow> nat \<Rightarrow> (string \<times> int) list" where
  "node_list m i =
     (if i < 2147483646 then
        let nodeIp = Load m (ip_key i); nodePortStr = Load m (port_key i) in
        if nodeIp = [] then [] else (nodeIp, to_short (atoi nodePortStr)) # node_list m (i + 1)
      else [])"
  by pat_completeness auto
termination by (relation "measure (\<lambda>(m, i). 2147483646 - i)") auto

declare node_list.simps [simp del]

section \<open>Numbers read back\<close>

lemma of_char_digit: "d < 10 \<Longrightarrow> (of_char (digit d) :: nat) = 48 + d"
  by (simp add: digit_def)

lemma is_digit_digit: "d < 10 \<Longrightarrow> is_digit (digit d)"
  by (simp add: is_digit_def of_char_digit)

lemma to_string_digits: "\<forall>c \<in> set (to_string n). is_digit c" "to_string n \<noteq> []"
proof -
  show "\<forall>c \<in> set (to_string n). is_digit c"
  proof (induction n rule: to_string.induct)
    case (1 n)
    then show ?case by (cases "n < 10") (auto simp: to_string.simps [of n] is_digit_digit)
  qed
  show "to_string n \<noteq> []" by (simp add: to_string.simps [of n])
qed

lemma digits_value_to_string: "digits_value (to_string n) = n"
proof (induction n rule: to_string.induct)
  case (1 n)
  then show ?case by (cases "n < 10") (simp_all add: to_string.simps [of n] digits_value_def of_char_digit)
qed

lemma to_string_inj: "to_string i = to_string j \<Longrightarrow> i = j"
  by (metis digits_value_to_string)

lemma digit_plain:
  assumes "is_digit c"
  shows "c \<noteq> CHR '' ''" "c \<noteq> CHR ''-''" "c \<noteq> CHR ''+''" "c \<noteq> CHR ''=''" "c \<noteq> CHR 0x0A" "c \<noteq> CHR 0x00"
    "c \<noteq> CHR ''#''" "\<not> is_space c"
  using assms by (auto simp: is_digit_def is_space_def)

lemma atoi_to_string: "atoi (to_string_int i) = i"
proof -
  have all: "takeWhile is_digit (to_string n) = to_string n" for n using to_string_digits by simp
  obtain c r where cr: "to_string (nat i) = c # r" using to_string_digits(2) by (cases "to_string (nat i)") auto
  then have "is_digit c" using to_string_digits(1) [of "nat i"] by simp
  note plain = digit_plain [OF this]
  have "int (digits_value (takeWhile is_digit (c # r))) = int (nat i)"
    using digits_value_to_string [of "nat i"] all [of "nat i"] by (simp add: cr)
  moreover have "int (digits_value (takeWhile is_digit (to_string (nat (- i))))) = int (nat (- i))"
    by (simp only: all digits_value_to_string)
  moreover have "\<not> is_space (CHR ''-'')" by (simp add: is_space_def)
  ultimately show ?thesis
    using plain by (auto simp: atoi_def to_string_int_def cr Let_def)
qed

lemma to_short_id: "- (2 ^ 15) \<le> i \<Longrightarrow> i < 2 ^ 15 \<Longrightarrow> to_short i = i"
  by (simp add: to_short_def int_word_sint)

section \<open>Lines read back\<close>

definition plain :: "string \<Rightarrow> bool" where
  "plain s \<longleftrightarrow> (\<forall>c \<in> set s. c \<noteq> CHR '' '' \<and> c \<noteq> CHR ''='' \<and> c \<noteq> CHR 0x0A \<and> c \<noteq> CHR 0x00)"

lemma plain_simps [simp]:
  "plain []" "plain (s @ t) \<longleftrightarrow> plain s \<and> plain t"
  "plain (c # s) \<longleftrightarrow> c \<noteq> CHR '' '' \<and> c \<noteq> CHR ''='' \<and> c \<noteq> CHR 0x0A \<and> c \<noteq> CHR 0x00 \<and> plain s"
  by (auto simp: plain_def)

lemma Trim_id:
  assumes "s \<noteq> [] \<Longrightarrow> s ! 0 \<noteq> CHR '' '' \<and> last s \<noteq> CHR '' ''"
  shows "Trim s = s"
proof (cases "s = []")
  case False
  then have "dropWhile (\<lambda>c. c = CHR '' '') s = s" using assms by (cases s) auto
  moreover have "dropWhile (\<lambda>c. c = CHR '' '') (rev s) = rev s"
    using False assms by (cases s rule: rev_cases) auto
  ultimately show ?thesis by (simp add: Trim_def)
qed (simp add: Trim_def)

lemma Trim_plain: "plain s \<Longrightarrow> Trim s = s"
  by (rule Trim_id) (auto simp: plain_def nth_mem dest: last_in_set)

lemma config_line_entry:
  assumes "plain k" "k \<noteq> []" "k ! 0 \<noteq> CHR ''#''" "plain v"
  shows "config_line (k @ CHR ''='' # v @ [CHR 0x0A]) m = insert_new k v m"
proof -
  let ?line = "k @ CHR ''='' # v @ [CHR 0x0A]"
  have "takeWhile (\<lambda>c. c \<noteq> CHR 0x00) ?line = ?line"
    using assms(1,4) by (auto simp: plain_def takeWhile_append)
  moreover have "?line ! 0 = k ! 0" using assms(2) by (simp add: nth_append)
  moreover have "k ! 0 \<noteq> CHR '' ''" using assms(1,2) by (simp add: plain_def)
  ultimately have read: "Trim (takeWhile (\<lambda>c. c \<noteq> CHR 0x00) ?line) = ?line" "?line ! 0 \<noteq> CHR ''#''"
    using assms(3) by (simp_all add: Trim_id)
  have "takeWhile (\<lambda>c. c \<noteq> CHR ''='') ?line = k" "dropWhile (\<lambda>c. c \<noteq> CHR ''='') ?line = CHR ''='' # v @ [CHR 0x0A]"
    using assms(1) by (auto simp: plain_def takeWhile_append dropWhile_append)
  moreover have "takeWhile (\<lambda>c. c \<noteq> CHR 0x0A) (v @ [CHR 0x0A]) = v"
    using assms(4) by (auto simp: plain_def takeWhile_append)
  ultimately show ?thesis
    using read assms(1,4) by (simp add: config_line_def Trim_plain del: nth_append)
qed

lemma fgets_line:
  "CHR 0x0A \<notin> set l \<Longrightarrow> length l < n \<Longrightarrow> fgets n (l @ CHR 0x0A # r) = (l @ [CHR 0x0A], r)"
proof (induction l arbitrary: n)
  case Nil
  then show ?case by (cases n) auto
next
  case (Cons c l)
  then show ?case by (cases n) auto
qed

lemma load_line:
  assumes "plain k" "k \<noteq> []" "k ! 0 \<noteq> CHR ''#''" "plain v" "length k + length v < 510"
  shows "load_lines (k @ CHR ''='' # v @ CHR 0x0A # r) m = load_lines r (insert_new k v m)"
proof -
  have "fgets 511 ((k @ CHR ''='' # v) @ CHR 0x0A # r) = ((k @ CHR ''='' # v) @ [CHR 0x0A], r)"
    by (rule fgets_line) (use assms in \<open>auto simp: plain_def\<close>)
  then show ?thesis
    by (subst load_lines.simps) (simp add: config_line_entry [OF assms(1-4)])
qed

lemma length_to_string: "n < 10 ^ k \<Longrightarrow> 0 < k \<Longrightarrow> length (to_string n) \<le> k"
proof (induction k arbitrary: n)
  case (Suc k)
  show ?case
  proof (cases "n < 10")
    case False
    then have "0 < k" using Suc.prems(1) by (cases k) auto
    moreover have "n div 10 < 10 ^ k" using Suc.prems(1) by (simp add: less_mult_imp_div_less)
    ultimately show ?thesis using Suc.IH False by (simp add: to_string.simps [of n])
  qed (simp add: to_string.simps [of n])
qed simp

text \<open>An entry a node can write: an address without blanks, and a port of type \<open>short\<close>.\<close>

definition entry_ok :: "nat \<times> string \<times> int \<Rightarrow> bool" where
  "entry_ok x \<longleftrightarrow> (case x of (i, ip, port) \<Rightarrow>
     i < 2147483646 \<and> plain ip \<and> ip \<noteq> [] \<and> length ip \<le> 400 \<and> - (2 ^ 15) \<le> port \<and> port < 2 ^ 15)"

lemma plain_to_string: "plain (to_string n)" "plain (to_string_int i)"
proof -
  show n: "plain (to_string n)" for n
    using to_string_digits(1) [of n] digit_plain by (auto simp: plain_def)
  show "plain (to_string_int i)" using n by (simp add: to_string_int_def)
qed

lemma keys_plain: "plain (ip_key i)" "plain (port_key i)"
  using plain_to_string(1) [of i] by (simp_all add: ip_key_def port_key_def)

lemma load_entry:
  assumes "entry_ok (i, ip, port)"
  shows "load_lines (config_entry (i, ip, port) @ r) m =
    load_lines r (insert_new (port_key i) (to_string_int port) (insert_new (ip_key i) ip m))"
proof -
  have ok: "i < 2147483646" "plain ip" "length ip \<le> 400" "- (2 ^ 15) \<le> port" "port < 2 ^ 15"
    using assms by (auto simp: entry_ok_def)
  have i: "length (to_string i) \<le> 10" using ok(1) by (intro length_to_string) simp_all
  have "nat \<bar>port\<bar> < 10 ^ 5" using ok(4,5) by simp
  then have "length (to_string (nat port)) \<le> 5" "length (to_string (nat (- port))) \<le> 5"
    by (intro length_to_string; simp)+
  then have port: "length (to_string_int port) \<le> 6" by (simp add: to_string_int_def)
  have keys: "length (ip_key i) \<le> 20" "length (port_key i) \<le> 20" "ip_key i \<noteq> []" "port_key i \<noteq> []"
    "ip_key i ! 0 \<noteq> CHR ''#''" "port_key i ! 0 \<noteq> CHR ''#''"
    using i by (simp_all add: ip_key_def port_key_def)
  have "load_lines (ip_key i @ CHR ''='' # ip @ CHR 0x0A # port_key i @ CHR ''='' # to_string_int port @ CHR 0x0A # r) m =
      load_lines (port_key i @ CHR ''='' # to_string_int port @ CHR 0x0A # r) (insert_new (ip_key i) ip m)"
    by (rule load_line) (use keys ok keys_plain in auto)
  also have "\<dots> = load_lines r (insert_new (port_key i) (to_string_int port) (insert_new (ip_key i) ip m))"
    by (rule load_line) (use keys port keys_plain plain_to_string in auto)
  finally show ?thesis by (simp add: config_entry_def)
qed

section \<open>The whole file\<close>

lemma keys_inj [simp]: "ip_key i = ip_key j \<longleftrightarrow> i = j" "port_key i = port_key j \<longleftrightarrow> i = j"
  by (auto simp: ip_key_def port_key_def dest: to_string_inj)

lemma keys_differ [simp]: "ip_key i \<noteq> port_key j" "port_key j \<noteq> ip_key i"
proof -
  have "last (ip_key i) = CHR ''p''" "last (port_key j) = CHR ''t''" by (simp_all add: ip_key_def port_key_def)
  then show "ip_key i \<noteq> port_key j" "port_key j \<noteq> ip_key i" by auto
qed

lemma insert_new_keeps: "m k = Some v \<Longrightarrow> insert_new k' v' m k = Some v"
  by (auto simp: insert_new_def)

text \<open>The first entry of a key is the one that counts, whatever else the file holds.\<close>

lemma load_lines_keeps: "m k = Some v \<Longrightarrow> load_lines content m k = Some v"
proof (induction content m rule: load_lines.induct)
  case (1 content m)
  have "config_line buf m k = Some v" for buf
    using "1.prems" by (simp add: config_line_def Let_def insert_new_keeps)
  then show ?case
    using "1.IH" "1.prems" by (subst load_lines.simps) (auto split: prod.splits)
qed

lemma load_entries:
  assumes "\<forall>x \<in> set ns. entry_ok x" "distinct (map fst ns)"
  shows "(\<forall>i. i \<notin> fst ` set ns \<longrightarrow> load_lines (concat (map config_entry ns)) m (ip_key i) = m (ip_key i))
    \<and> (\<forall>x \<in> set ns. m (ip_key (fst x)) = None \<and> m (port_key (fst x)) = None \<longrightarrow>
         load_lines (concat (map config_entry ns)) m (ip_key (fst x)) = Some (fst (snd x))
         \<and> load_lines (concat (map config_entry ns)) m (port_key (fst x)) = Some (to_string_int (snd (snd x))))"
  using assms
proof (induction ns arbitrary: m)
  case Nil
  then show ?case by (simp add: load_lines.simps)
next
  case (Cons x ns)
  obtain i ip port where x: "x = (i, ip, port)" by (cases x)
  let ?m = "insert_new (port_key i) (to_string_int port) (insert_new (ip_key i) ip m)"
  have "entry_ok (i, ip, port)" using Cons.prems(1) x by simp
  from load_entry [OF this] have step: "load_lines (concat (map config_entry (x # ns))) m =
      load_lines (concat (map config_entry ns)) ?m" by (simp add: x)
  have other: "?m (ip_key j) = m (ip_key j)" "?m (port_key j) = m (port_key j)" if "j \<noteq> i" for j
    using that by (simp_all add: insert_new_def)
  have here: "?m (ip_key i) = Some ip" "?m (port_key i) = Some (to_string_int port)"
    if "m (ip_key i) = None" "m (port_key i) = None" using that by (simp_all add: insert_new_def)
  have "\<forall>y \<in> set ns. entry_ok y" "distinct (map fst ns)" using Cons.prems by auto
  note ih = Cons.IH [OF this, of ?m]
  have new: "i \<notin> fst ` set ns" using Cons.prems(2) x by simp
  show ?case
    unfolding step
  proof (intro conjI allI ballI impI)
    fix j assume "j \<notin> fst ` set (x # ns)"
    then show "load_lines (concat (map config_entry ns)) ?m (ip_key j) = m (ip_key j)"
      using ih other(1) [of j] x by simp
  next
    fix y assume y: "y \<in> set (x # ns)" and none: "m (ip_key (fst y)) = None \<and> m (port_key (fst y)) = None"
    have both: "load_lines (concat (map config_entry ns)) ?m (ip_key (fst y)) = Some (fst (snd y))
        \<and> load_lines (concat (map config_entry ns)) ?m (port_key (fst y)) = Some (to_string_int (snd (snd y)))"
    proof (cases "y = x")
      case True
      then show ?thesis using here none load_lines_keeps x by simp
    next
      case False
      then have "y \<in> set ns" "fst y \<noteq> i" using y new by (auto simp: image_iff)
      then show ?thesis using ih other none by simp
    qed
    then show "load_lines (concat (map config_entry ns)) ?m (ip_key (fst y)) = Some (fst (snd y))"
      "load_lines (concat (map config_entry ns)) ?m (port_key (fst y)) = Some (to_string_int (snd (snd y)))" by blast+
  qed
qed

lemma node_list_from:
  assumes "\<forall>i < n. f i \<noteq> [] \<and> Load m (ip_key i) = f i \<and> to_short (atoi (Load m (port_key i))) = g i"
    "Load m (ip_key n) = []" "n < 2147483646" "i \<le> n"
  shows "node_list m i = map (\<lambda>i. (f i, g i)) [i..<n]"
  using assms(4)
proof (induction "n - i" arbitrary: i)
  case 0
  then show ?case using assms(2,3) by (simp add: node_list.simps [of m i])
next
  case (Suc k)
  then have "i < n" "node_list m (i + 1) = map (\<lambda>i. (f i, g i)) [i + 1..<n]" by simp_all
  then show ?case using assms(1,3) by (simp add: node_list.simps [of m i] upt_rec [of i n])
qed

section \<open>Properties\<close>

text \<open>However many nodes have appended their entries, a reader finds those before the first that has not.\<close>

lemma node_list_entries:
  assumes "\<forall>x \<in> set ns. entry_ok x" "distinct (map fst ns)"
    and "\<forall>i < k. i \<in> fst ` set ns" "k \<notin> fst ` set ns" "k < 2147483646"
  shows "node_list (LoadConfigFile (concat (map config_entry ns))) 0 = map (\<lambda>i. the (map_of ns i)) [0..<k]"
proof -
  let ?m = "LoadConfigFile (concat (map config_entry ns))"
  note load = load_entries [OF assms(1,2), of "\<lambda>_. None"]
  have node: "\<exists>ip port. map_of ns i = Some (ip, port) \<and> ip \<noteq> [] \<and> Load ?m (ip_key i) = ip
      \<and> to_short (atoi (Load ?m (port_key i))) = port" if i: "i < k" for i
  proof -
    have "i \<in> fst ` set ns" using assms(3) i by simp
    then obtain ip port where mem: "(i, ip, port) \<in> set ns" by auto
    then have "map_of ns i = Some (ip, port)" using assms(2) by simp
    moreover have "entry_ok (i, ip, port)" using assms(1) mem by blast
    moreover have "?m (ip_key i) = Some ip" "?m (port_key i) = Some (to_string_int port)"
      using load mem by (auto simp: LoadConfigFile_def)
    ultimately show ?thesis by (auto simp: Load_def entry_ok_def atoi_to_string to_short_id)
  qed
  have none: "Load ?m (ip_key k) = []" using load assms(4) by (simp add: LoadConfigFile_def Load_def)
  have "node_list ?m 0 = map (\<lambda>i. (fst (the (map_of ns i)), snd (the (map_of ns i)))) [0..<k]"
    by (rule node_list_from [OF _ none assms(5)]) (use node in fastforce)+
  then show ?thesis by simp
qed

text \<open>The nodes find each other. When the nodes 0 to n - 1 have appended their entries to an empty file, in
  any order, everybody who reads it gets exactly the address and the port of each node, in the order of
  the nodes.\<close>

lemma config_roundtrip:
  assumes "\<forall>x \<in> set ns. entry_ok x" "distinct (map fst ns)" "fst ` set ns = {0..<n}" "n < 2147483646"
  shows "node_list (LoadConfigFile (concat (map config_entry ns))) 0 = map (\<lambda>i. the (map_of ns i)) [0..<n]"
  using assms by (intro node_list_entries) auto

text \<open>Node 1 started before node 0.\<close>

theorem config_roundtrip_witness:
  "node_list (LoadConfigFile (concat (map config_entry [(1, ''10.0.0.2'', 8001), (0, ''10.0.0.1'', 8000)]))) 0
     = [(''10.0.0.1'', 8000), (''10.0.0.2'', 8001)]"
proof -
  let ?ns = "[(1, ''10.0.0.2'', 8001), (0, ''10.0.0.1'', 8000)] :: (nat \<times> string \<times> int) list"
  have ok: "\<forall>x \<in> set ?ns. entry_ok x" by (simp add: entry_ok_def)
  have nodes: "fst ` set ?ns = {0..<2}" by auto
  have "[0..<2] = [0, 1 :: nat]" by (simp add: upt_rec)
  then show ?thesis using config_roundtrip [OF ok _ nodes] by simp
qed

text \<open>The entry of an earlier run counts: nothing the nodes append later changes the address of a node
  that the file already names.\<close>

lemma stale_entry_wins:
  "LoadConfigFile content (ip_key i) = Some ip \<Longrightarrow> load_lines more (LoadConfigFile content) (ip_key i) = Some ip"
  by (rule load_lines_keeps)

end
