(* ===== verification/Launch.thy ===== *)
theory Launch
  imports Config
begin

text \<open>
  Starting a cluster: the program src/example/server.cc clears the configuration file and forks one
  process per node, the provider of each node (src/rpc/rpcprovider.cc) appends the node's address to
  \<open>test.conf\<close>, and the node's server (src/kvserver/KvServer.cc) reads the file it was given. The command
  line is parsed by a library: its result is the record \<open>options\<close>. What \<open>fork\<close> returns is a list.
\<close>

section \<open>The program\<close>

type_synonym file_system = "string \<Rightarrow> string option"

record options =
  opt_help :: bool
  opt_nodeNum :: int
  opt_configFileName :: string

text \<open>Opened for appending, which creates it, and then truncated.\<close>

definition clear_config :: "bool \<Rightarrow> string \<Rightarrow> file_system \<Rightarrow> file_system result" where
  "clear_config is_open name fs = (if is_open then Inr (fs(name \<mapsto> [])) else Inl (Exit_called 1))"

text \<open>\<open>startPort\<close> is an \<open>unsigned short\<close>; the sum is an \<open>int\<close> and goes into a \<open>short\<close>.\<close>

definition node_port :: "nat \<Rightarrow> nat \<Rightarrow> int" where
  "node_port startPort i = to_short (int startPort + to_short (int i))"

text \<open>The children forked, and whether no \<open>fork\<close> failed.\<close>

fun fork_loop :: "nat \<Rightarrow> int \<Rightarrow> nat \<Rightarrow> bool list \<Rightarrow> (nat \<times> int) list \<times> bool" where
  "fork_loop startPort nodeNum i [] = ([], True)"
| "fork_loop startPort nodeNum i (forked # forks) =
     (if \<not> int i < nodeNum then ([], True)
      else if \<not> forked then ([], False)
      else (case fork_loop startPort nodeNum (i + 1) forks of
              (children, ok) \<Rightarrow> ((i, node_port startPort i) # children, ok)))"

text \<open>The files when the children start, the children with their numbers and ports, and how the parent ends if it does.\<close>

definition server_main ::
  "nat \<Rightarrow> options \<Rightarrow> nat \<Rightarrow> bool \<Rightarrow> bool list \<Rightarrow> file_system \<Rightarrow> file_system \<times> (nat \<times> int) list \<times> int option" where
  "server_main argc opt startPort is_open forks fs =
     (if argc < 2 then (fs, [], Some 1)
      else if opt_help opt then (fs, [], Some 0)
      else (case clear_config is_open (opt_configFileName opt) fs of
              Inl _ \<Rightarrow> (fs, [], Some 1)
            | Inr fs1 \<Rightarrow>
                (case fork_loop startPort (opt_nodeNum opt) 0 forks of
                   (children, ok) \<Rightarrow> (fs1, children, if ok then None else Some 1))))"

section \<open>The nodes\<close>

text \<open>The beginning of \<open>Run\<close>: the last address of the host, which is not initialized when there is none.\<close>

definition Run_append :: "string list \<Rightarrow> nat \<times> int \<Rightarrow> file_system \<Rightarrow> file_system result" where
  "Run_append addrs node fs =
     (if addrs = [] then Inl (Bad_pointer 68)
      else Inr (fs(''test.conf'' \<mapsto> (case fs ''test.conf'' of None \<Rightarrow> [] | Some c \<Rightarrow> c)
                   @ config_entry (fst node, last addrs, snd node))))"

fun run_nodes :: "string list \<Rightarrow> (nat \<times> int) list \<Rightarrow> file_system \<Rightarrow> file_system result" where
  "run_nodes addrs [] fs = Inr fs"
| "run_nodes addrs (node # nodes) fs = rbind (Run_append addrs node fs) (run_nodes addrs nodes)"

text \<open>The server reads the file it was given; a file that is not there ends the process.\<close>

definition read_nodes :: "string \<Rightarrow> file_system \<Rightarrow> (string \<times> int) list result" where
  "read_nodes name fs =
     (case fs name of None \<Rightarrow> Inl (Exit_called 1) | Some content \<Rightarrow> Inr (node_list (LoadConfigFile content) 0))"

section \<open>What they find\<close>

lemma fork_loop_children:
  "x \<in> set (fst (fork_loop startPort nodeNum i forks)) \<Longrightarrow>
   i \<le> fst x \<and> int (fst x) < nodeNum \<and> snd x = node_port startPort (fst x)"
  by (induction startPort nodeNum i forks rule: fork_loop.induct)
    (fastforce split: if_splits prod.splits)+

lemma run_nodes_files:
  assumes "addrs \<noteq> []"
  shows "run_nodes addrs nodes fs = Inr (if nodes = [] then fs
     else fs(''test.conf'' \<mapsto> (case fs ''test.conf'' of None \<Rightarrow> [] | Some c \<Rightarrow> c)
       @ concat (map (\<lambda>x. config_entry (fst x, last addrs, snd x)) nodes)))"
  using assms by (induction nodes arbitrary: fs) (auto simp: Run_append_def)

lemma node_port_range: "- (2 ^ 15) \<le> node_port startPort i \<and> node_port startPort i < 2 ^ 15"
proof -
  have "- (2 ^ (LENGTH(16) - 1)) \<le> sint (w :: 16 word) \<and> sint w < 2 ^ (LENGTH(16) - 1)" for w
    using sint_range_size [of w] by (simp add: word_size)
  then show ?thesis unfolding node_port_def to_short_def by simp
qed

text \<open>The entries of the nodes that have started, read back.\<close>

lemma started_list:
  assumes child: "\<forall>x \<in> set started. int (fst x) < nodeNum \<and> snd x = node_port startPort (fst x)"
    and dist: "distinct (map fst started)" and num: "nodeNum < 2 ^ 31 - 2"
    and ip: "plain ip" "ip \<noteq> []" "length ip \<le> 400"
    and k: "\<forall>i < k. i \<in> fst ` set started" "k \<notin> fst ` set started"
  shows "node_list (LoadConfigFile (concat (map config_entry (map (\<lambda>x. (fst x, ip, snd x)) started)))) 0
    = map (\<lambda>i. (ip, node_port startPort i)) [0..<k]"
proof -
  let ?ns = "map (\<lambda>x. (fst x, ip, snd x)) started"
  have ok: "\<forall>x \<in> set ?ns. entry_ok x"
  proof
    fix x assume "x \<in> set ?ns"
    then obtain y where y: "y \<in> set started" "x = (fst y, ip, snd y)" by auto
    then have "int (fst y) < nodeNum" "snd y = node_port startPort (fst y)" using child by blast+
    then show "entry_ok x" using num ip node_port_range [of startPort "fst y"] y(2) by (simp add: entry_ok_def)
  qed
  have "k < 2147483646"
  proof (cases k)
    case (Suc j)
    then obtain x where "x \<in> set started" "fst x = j" using k(1) by auto
    then have "int j < nodeNum" using child by blast
    then show ?thesis using num Suc by simp
  qed simp
  from node_list_entries [OF ok _ _ _ this] dist k
  have list: "node_list (LoadConfigFile (concat (map config_entry ?ns))) 0 = map (\<lambda>i. the (map_of ?ns i)) [0..<k]"
    by (simp add: comp_def image_image)
  have "map_of ?ns i = Some (ip, node_port startPort i)" if "i < k" for i
  proof -
    have "i \<in> fst ` set started" using k(1) that by blast
    then obtain x where x: "x \<in> set started" "fst x = i" by auto
    then have "snd x = node_port startPort i" using child by blast
    then have "(i, ip, node_port startPort i) \<in> set ?ns" using x by force
    then show ?thesis using dist by (intro map_of_is_SomeI) (simp_all add: comp_def)
  qed
  then show ?thesis using list by simp
qed

section \<open>Properties\<close>

text \<open>Who finds whom. The program has cleared the configuration file and forked nodes; when a node reads
  its file, some of them have appended their addresses, in any order. If the file is
  \<open>test.conf\<close>, the node finds exactly the nodes before the first one that has not appended yet, with the ports
  they were started with, in the order of their numbers; otherwise it finds nobody, whoever has started.\<close>

lemma launched_nodes_find_each_other:
  assumes "server_main argc opt startPort is_open forks fs = (fs1, children, None)"
    and "set started \<subseteq> set children" "distinct (map fst started)" "opt_nodeNum opt < 2 ^ 31 - 2"
    and "addrs \<noteq> []" "plain (last addrs)" "last addrs \<noteq> []" "length (last addrs) \<le> 400"
    and "run_nodes addrs started fs1 = Inr fs2"
    and "\<forall>i < k. i \<in> fst ` set started" "k \<notin> fst ` set started"
  shows "read_nodes (opt_configFileName opt) fs2
    = Inr (if opt_configFileName opt = ''test.conf'' then map (\<lambda>i. (last addrs, node_port startPort i)) [0..<k] else [])"
proof -
  let ?ns = "map (\<lambda>x. (fst x, last addrs, snd x)) started"
  have main: "fs1 = fs(opt_configFileName opt \<mapsto> [])" "children = fst (fork_loop startPort (opt_nodeNum opt) 0 forks)"
    using assms(1) by (auto simp: server_main_def clear_config_def split: if_splits prod.splits)
  have child: "int (fst x) < opt_nodeNum opt \<and> snd x = node_port startPort (fst x)" if "x \<in> set started" for x
    using fork_loop_children [of x startPort "opt_nodeNum opt" 0 forks] that assms(2) main(2) by auto
  have fs2: "fs2 = (if started = [] then fs1 else fs1(''test.conf'' \<mapsto> (case fs1 ''test.conf'' of None \<Rightarrow> [] | Some c \<Rightarrow> c)
      @ concat (map config_entry ?ns)))"
    using assms(9) run_nodes_files [OF assms(5), of started fs1] by (auto simp: comp_def split: if_splits)
  show ?thesis
  proof (cases "opt_configFileName opt = ''test.conf''")
    case False
    then have "fs2 (opt_configFileName opt) = Some []" by (simp add: fs2 main(1))
    moreover have "node_list (LoadConfigFile []) 0 = []"
      by (subst node_list.simps) (simp add: LoadConfigFile_def load_lines.simps Load_def)
    ultimately show ?thesis using False by (simp add: read_nodes_def)
  next
    case True
    then have "fs2 ''test.conf'' = Some (concat (map config_entry ?ns))" by (simp add: fs2 main(1))
    then show ?thesis
      using True started_list [OF _ assms(3-4,6-8,10-11), of startPort] child by (simp add: read_nodes_def)
  qed
qed

text \<open>Three nodes are forked; the second and the first have appended their addresses when one of them reads.\<close>

theorem launched_nodes_find_each_other_witness:
  "\<exists>fs1 fs2. server_main 3 \<lparr>opt_help = False, opt_nodeNum = 3, opt_configFileName = ''test.conf''\<rparr> 12000 True
       [True, True, True] [''test.conf'' \<mapsto> ''old''] = (fs1, [(0, 12000), (1, 12001), (2, 12002)], None)
     \<and> run_nodes [''127.0.0.1'', ''10.0.0.7''] [(1, 12001), (0, 12000)] fs1 = Inr fs2
     \<and> read_nodes ''test.conf'' fs2 = Inr [(''10.0.0.7'', 12000), (''10.0.0.7'', 12001)]"
proof -
  let ?opt = "\<lparr>opt_help = False, opt_nodeNum = 3, opt_configFileName = ''test.conf''\<rparr>"
  let ?started = "[(1, 12001), (0, 12000)] :: (nat \<times> int) list" and ?addrs = "[''127.0.0.1'', ''10.0.0.7'']"
  have port: "node_port 12000 0 = 12000" "node_port 12000 1 = 12001" "node_port 12000 2 = 12002"
    by (simp_all add: node_port_def to_short_id)
  have main: "server_main 3 ?opt 12000 True [True, True, True] [''test.conf'' \<mapsto> ''old'']
      = ([''test.conf'' \<mapsto> []], [(0, 12000), (1, 12001), (2, 12002)], None)"
    using port by (simp add: server_main_def clear_config_def numeral_2_eq_2)
  obtain fs2 where run: "run_nodes ?addrs ?started [''test.conf'' \<mapsto> []] = Inr fs2"
    using run_nodes_files [of ?addrs ?started] by simp
  have two: "[0..<2] = [0, 1 :: nat]" by (simp add: upt_rec)
  have "read_nodes (opt_configFileName ?opt) fs2 = Inr [(''10.0.0.7'', 12000), (''10.0.0.7'', 12001)]"
    using launched_nodes_find_each_other [OF main _ _ _ _ _ _ _ run, of 2] port two by (simp add: less_2_cases_iff)
  then show ?thesis using main run by auto
qed

end
