(* ===== verification/Startup.thy ===== *)
theory Startup
  imports Launch Kv_Server Rpc_Channel
begin

text \<open>
  The start of one node: the constructor of \<open>KvServer\<close> (src/kvserver/KvServer.cc) reads the addresses,
  makes a stub with a connected channel for every other node (src/raft/RaftRpcUtil.cc, the
  constructor and \<open>newConnect\<close> of src/rpc/MrpcchannelMultiReq.cc), and starts the raft node on the
  peers it found. What \<open>socket\<close> and \<open>connect\<close> return are arguments.
\<close>

section \<open>Connecting to the others\<close>

datatype attempt = No_socket | Refused_by_peer | Connected

text \<open>The result, the descriptor that is left open (if any), and the message.\<close>

definition multi_newConnect :: "attempt \<Rightarrow> bool \<times> bool \<times> string" where
  "multi_newConnect res =
     (case res of
        No_socket \<Rightarrow> (False, False, ''create socket error!'')
      | Refused_by_peer \<Rightarrow> (False, False, ''connect fail!'')
      | Connected \<Rightarrow> (True, True, []))"

text \<open>\<open>while (!rt && retry-- > 0)\<close>; without a further attempt in the list the loop is still in it.\<close>

fun multi_connect_loop :: "bool \<Rightarrow> int \<Rightarrow> attempt list \<Rightarrow> bool" where
  "multi_connect_loop rt retry [] = rt"
| "multi_connect_loop rt retry (res # results) =
     (if \<not> rt \<and> retry > 0 then multi_connect_loop (fst (multi_newConnect res)) (retry - 1) results else rt)"

definition MrpcchannelMultiReq :: "bool \<Rightarrow> int \<Rightarrow> attempt list \<Rightarrow> 'req multi_channel" where
  "MrpcchannelMultiReq connectNow retry results =
     (if \<not> connectNow then new_channel False
      else case results of [] \<Rightarrow> new_channel False
           | res # rest \<Rightarrow> new_channel (multi_connect_loop (fst (multi_newConnect res)) retry rest))"

definition RaftRpcUtil :: "attempt list \<Rightarrow> 'req multi_channel" where
  "RaftRpcUtil results = MrpcchannelMultiReq True 3 results"

text \<open>The peers: a null pointer for the node itself.\<close>

fun connect_peers ::
  "int \<Rightarrow> nat \<Rightarrow> (string \<times> int) list \<Rightarrow> (string \<times> int \<Rightarrow> attempt list) \<Rightarrow> 'req multi_channel option list" where
  "connect_peers me i [] results = []"
| "connect_peers me i (peer # peers) results =
     (if int i = me then None else Some (RaftRpcUtil (results peer))) # connect_peers me (i + 1) peers results"

text \<open>\<open>sleep(ipPort.size() - m_id)\<close>: a \<open>size_t\<close> that becomes an \<open>unsigned int\<close>.\<close>

definition sleep_seconds :: "nat \<Rightarrow> int \<Rightarrow> u32" where
  "sleep_seconds n me = ucast (of_nat n - word_of_int me :: u64)"

record 'req started_node =
  sn_servers :: "'req multi_channel option list"
  sn_sleep :: u32
  sn_raft :: raft
  sn_server :: kv_server

definition start_server ::
  "archives \<Rightarrow> bool list list \<Rightarrow> int \<Rightarrow> int \<Rightarrow> int \<Rightarrow> string \<Rightarrow> file_system \<Rightarrow> (string \<times> int \<Rightarrow> attempt list) \<Rightarrow>
   NodeInfo \<Rightarrow> (int \<Rightarrow> LogEntry list) \<Rightarrow> string \<Rightarrow> 'req started_node result" where
  "start_server A flipss now me maxraftstate name fs results info logs snapshot =
     rbind (read_nodes name fs) (\<lambda>ipPort.
     let servers = connect_peers me 0 ipPort results;
         r = raft_init now me (length servers) info logs snapshot empty_queue in
     rbind (KvServer A flipss maxraftstate snapshot) (\<lambda>s.
     Inr \<lparr>sn_servers = servers, sn_sleep = sleep_seconds (length ipPort) me, sn_raft = r, sn_server = s\<rparr>))"

section \<open>What the node starts with\<close>

lemma connect_peers_length [simp]: "length (connect_peers me i peers results) = length peers"
  by (induction me i peers results rule: connect_peers.induct) simp_all

lemma connect_peers_nth:
  "j < length peers \<Longrightarrow> connect_peers me i peers results ! j =
     (if int (i + j) = me then None else Some (RaftRpcUtil (results (peers ! j))))"
proof (induction me i peers results arbitrary: j rule: connect_peers.induct)
  case (2 me i peer peers results)
  then show ?case by (cases j) auto
qed simp

text \<open>A channel is connected exactly when one of its first four attempts succeeds.\<close>

lemma multi_connect_loop_iff:
  "multi_connect_loop rt retry results \<longleftrightarrow> rt \<or> Connected \<in> set (take (nat retry) results)"
proof (induction rt retry results rule: multi_connect_loop.induct)
  case (2 rt retry res results)
  show ?case
  proof (cases "\<not> rt \<and> retry > 0")
    case True
    then have "nat retry = Suc (nat (retry - 1))" by linarith
    moreover have "fst (multi_newConnect res) \<longleftrightarrow> res = Connected"
      by (simp add: multi_newConnect_def split: attempt.split)
    ultimately show ?thesis using 2 True by auto
  qed auto
qed simp

lemma RaftRpcUtil_connected: "connected (RaftRpcUtil results) \<longleftrightarrow> Connected \<in> set (take 4 results)"
proof (cases results)
  case (Cons res rest)
  have "fst (multi_newConnect res) \<longleftrightarrow> res = Connected"
    by (simp add: multi_newConnect_def split: attempt.split)
  then show ?thesis
    using Cons by (auto simp: RaftRpcUtil_def MrpcchannelMultiReq_def new_channel_def multi_connect_loop_iff
        numeral_Bit0 numeral_3_eq_3)
qed (simp add: RaftRpcUtil_def MrpcchannelMultiReq_def new_channel_def)

lemma sleep_seconds_eq:
  assumes "0 \<le> me" "me < 2 ^ 31" "n < 2 ^ 31"
  shows "uint (sleep_seconds n me) = (if me \<le> int n then int n - me else 2 ^ 32 - (me - int n))"
proof -
  have "uint (of_nat n - word_of_int me :: u64) = (int n - me) mod 2 ^ 64"
  proof -
    have w: "(of_nat n - word_of_int me :: u64) = word_of_int (int n - me)" by (rule trans [OF _ of_int_diff [symmetric]]) simp
    show ?thesis unfolding w by (subst uint_word_of_int) simp
  qed
  then have "uint (sleep_seconds n me) = (int n - me) mod 2 ^ 64 mod 2 ^ 32"
    by (simp add: sleep_seconds_def unsigned_ucast_eq take_bit_eq_mod)
  also have "\<dots> = (int n - me) mod 2 ^ 32" by (simp add: mod_mod_cancel)
  also have "\<dots> = (if me \<le> int n then int n - me else 2 ^ 32 - (me - int n))"
  proof (cases "me \<le> int n")
    case False
    have "(int n - me) mod 2 ^ 32 = (int n - me + 2 ^ 32) mod 2 ^ 32" by (rule mod_add_self2 [symmetric])
    also have "\<dots> = int n - me + 2 ^ 32" using False assms by (intro mod_pos_pos_trivial) simp_all
    finally show ?thesis using False by simp
  qed (use assms in simp)
  finally show ?thesis .
qed

section \<open>Properties\<close>

text \<open>C38: How a node starts. The start program has cleared \<open>test.conf\<close> and forked nodes, and some of them have appended
  their addresses when a node reads the file; \<open>k\<close> is the first that has not. The node takes the
  nodes below \<open>k\<close> as its peers and counts majorities among them, with a null pointer where it finds
  itself and a channel that is connected if one of the first four attempts succeeds everywhere else. It then
  sleeps for the nodes behind it, but if it is itself behind \<open>k\<close> the difference wraps around and it sleeps for
  more than a century.\<close>

theorem node_starts:
  assumes "server_main argc opt startPort is_open forks fs = (fs1, children, None)"
    and "opt_configFileName opt = ''test.conf''" "opt_nodeNum opt < 2 ^ 31 - 2"
    and "set started \<subseteq> set children" "distinct (map fst started)"
    and "addrs \<noteq> []" "plain (last addrs)" "last addrs \<noteq> []" "length (last addrs) \<le> 400"
    and "run_nodes addrs started fs1 = Inr fs2"
    and "\<forall>i < k. i \<in> fst ` set started" "k \<notin> fst ` set started"
    and "0 \<le> me" "me < 2 ^ 31" "k < 2 ^ 31"
  shows "\<exists>st. start_server A flipss now me maxraftstate (opt_configFileName opt) fs2 results info logs []
      = Inr (st :: 'req started_node)
    \<and> m_id (sn_raft st) = me \<and> m_peers_size (sn_raft st) = k \<and> majority (sn_raft st) = int (k div 2 + 1)
    \<and> length (sn_servers st) = k
    \<and> (\<forall>i < k. case sn_servers st ! i of None \<Rightarrow> int i = me
         | Some ch \<Rightarrow> int i \<noteq> me \<and> (connected ch \<longleftrightarrow> Connected \<in> set (take 4 (results (last addrs, node_port startPort i)))))
    \<and> uint (sn_sleep st) = (if me \<le> int k then int k - me else 2 ^ 32 - (me - int k))"
proof -
  have "read_nodes (opt_configFileName opt) fs2 = Inr (map (\<lambda>i. (last addrs, node_port startPort i)) [0..<k])"
    using launched_nodes_find_each_other [OF assms(1,4,5,3,6-12)] assms(2) by simp
  then show ?thesis
    using assms(13-15)
    by (simp add: start_server_def KvServer_def raft_init_def Let_def majority_def connect_peers_nth
        sleep_seconds_eq RaftRpcUtil_connected)
qed

text \<open>Three nodes are forked, and node 2 reads the file when only node 0 is in it; the other addresses refuse.\<close>

theorem node_starts_witness:
  "\<exists>fs1 fs2 st. server_main 3 \<lparr>opt_help = False, opt_nodeNum = 3, opt_configFileName = ''test.conf''\<rparr> 12000 True
       [True, True, True] [''test.conf'' \<mapsto> ''old''] = (fs1, [(0, 12000), (1, 12001), (2, 12002)], None)
     \<and> run_nodes [''10.0.0.7''] [(0, 12000)] fs1 = Inr fs2
     \<and> start_server sample_archives [] 5 2 5000000 ''test.conf'' fs2 (\<lambda>_. [Refused_by_peer, Connected]) zero_NodeInfo (\<lambda>_. []) []
         = Inr (st :: nat started_node)
     \<and> majority (sn_raft st) = 1 \<and> uint (sn_sleep st) = 4294967295"
proof -
  let ?opt = "\<lparr>opt_help = False, opt_nodeNum = 3, opt_configFileName = ''test.conf''\<rparr>"
  let ?started = "[(0, 12000)] :: (nat \<times> int) list" and ?addrs = "[''10.0.0.7'']"
  have port: "node_port 12000 0 = 12000" "node_port 12000 1 = 12001" "node_port 12000 2 = 12002"
    by (simp_all add: node_port_def to_short_id)
  have main: "server_main 3 ?opt 12000 True [True, True, True] [''test.conf'' \<mapsto> ''old'']
      = ([''test.conf'' \<mapsto> []], [(0, 12000), (1, 12001), (2, 12002)], None)"
    using port by (simp add: server_main_def clear_config_def numeral_2_eq_2)
  obtain fs2 where run: "run_nodes ?addrs ?started [''test.conf'' \<mapsto> []] = Inr fs2"
    using run_nodes_files [of ?addrs ?started] by simp
  have plain: "plain ''10.0.0.7''" by (simp add: plain_def)
  have "\<exists>st :: nat started_node. start_server sample_archives [] 5 2 5000000 (opt_configFileName ?opt) fs2
      (\<lambda>_. [Refused_by_peer, Connected]) zero_NodeInfo (\<lambda>_. []) [] = Inr st
    \<and> majority (sn_raft st) = 1 \<and> uint (sn_sleep st) = 4294967295"
    using node_starts [OF main _ _ _ _ _ _ _ _ run, of 1 2 sample_archives "[]" 5 5000000
        "\<lambda>_. [Refused_by_peer, Connected]" zero_NodeInfo "\<lambda>_. []"] plain
    by auto
  then show ?thesis using main run by auto
qed

end
