(* ===== verification/Raft_Views.thy ===== *)
theory Raft_Views
  imports Raft_Cluster
begin

text \<open>
  Elections when the nodes do not agree on how many they are. A node takes its peers from the file it
  reads at its start, and the size of a majority from the number of its peers.
\<close>

definition start_views :: "(int \<Rightarrow> nat) \<Rightarrow> cluster" where
  "start_views view = \<lparr>node = (\<lambda>i. fresh_node i (view i)), calls = (\<lambda>_. Idle), votedNum = (\<lambda>_. 0), ballots = {}\<rparr>"

lemma start_views_same: "start_views (\<lambda>_. n) = start_cluster n"
  by (simp add: start_views_def start_cluster_def)

definition first_ask :: "int \<Rightarrow> RequestVoteArgs" where
  "first_ask i = \<lparr>rv_term = 1, rv_candidateid = i, rv_lastlogindex = 0, rv_lastlogterm = 0\<rparr>"

section \<open>Collecting votes\<close>

text \<open>What a step for candidate \<open>i\<close> and voters in \<open>Q\<close> leaves alone.\<close>

definition leaves_others :: "int \<Rightarrow> int set \<Rightarrow> cluster \<Rightarrow> cluster \<Rightarrow> bool" where
  "leaves_others i Q C D \<longleftrightarrow> (\<forall>p. p \<notin> insert i Q \<longrightarrow> node D p = node C p)
     \<and> (\<forall>c p t. c \<noteq> i \<or> p \<notin> Q \<longrightarrow> calls D (c, p, t) = calls C (c, p, t))
     \<and> (\<forall>c t. c \<noteq> i \<longrightarrow> votedNum D (c, t) = votedNum C (c, t))"

lemma fresh_votes:
  obtains r rep where "RequestVote now (first_ask i) (fresh_node p k) = Inr (r, rep)"
    "rvr_votegranted rep" "rvr_term rep = 1"
proof -
  obtain r rep where v: "RequestVote now (first_ask i) (fresh_node p k) = Inr (r, rep)" "rvr_votegranted rep"
    using RequestVote_grant [of now "first_ask i" "fresh_node p k"]
    by (auto simp: last_position_def less_eq_log_position_def first_ask_def fresh_node_eq getLastLogIndex_def
        getLastLogTerm_def getLastLogIndexandTerm_def)
  moreover have "rvr_term rep = 1"
    using RequestVote_cases(1,2) [OF v(1)] by (simp add: first_ask_def fresh_node_eq)
  ultimately show thesis by (rule that)
qed

lemma one_vote:
  assumes fresh: "node C p = fresh_node p k" and call: "calls C (i, p, 1) = Requested (first_ask i)" and "p \<noteq> i"
    and count: "\<And>rep. rvr_votegranted rep \<Longrightarrow> rvr_term rep = 1 \<Longrightarrow>
      handleRequestVoteResponse (first_ask i) rep (votedNum C (i, 1)) True (node C i) = Inr (c', v')"
  shows "\<exists>D. (cluster_step n)\<^sup>*\<^sup>* C D \<and> node D i = c' \<and> votedNum D (i, 1) = v' \<and> leaves_others i {p} C D"
proof -
  obtain r rep where vote: "RequestVote 0 (first_ask i) (node C p) = Inr (r, rep)"
    "rvr_votegranted rep" "rvr_term rep = 1"
    unfolding fresh by (rule fresh_votes)
  define C1 where "C1 = C\<lparr>node := (node C)(p := r), calls := (calls C)((i, p, 1) := Replied (first_ask i) rep),
      ballots := (if rvr_votegranted rep then insert (p, m_currentTerm r, m_voteForId r) (ballots C) else ballots C)\<rparr>"
  have s1: "cluster_step n C C1" unfolding C1_def by (rule request [OF call vote(1)])
  have C1: "node C1 i = node C i" "votedNum C1 = votedNum C" "calls C1 (i, p, 1) = Replied (first_ask i) rep"
    using assms(3) by (simp_all add: C1_def)
  then have run: "handleRequestVoteResponse (first_ask i) rep (votedNum C1 (i, 1)) True (node C1 i) = Inr (c', v')"
    using count vote(2,3) by simp
  let ?D = "C1\<lparr>node := (node C1)(i := c'), votedNum := (votedNum C1)((i, 1) := v'),
      calls := (calls C1)((i, p, 1) := (if v' = votedNum C1 (i, 1) + 1 then Counted else Dropped))\<rparr>"
  have "cluster_step n C1 ?D" by (rule answer [OF C1(3) run])
  moreover have "leaves_others i {p} C ?D" using assms(3) by (auto simp: leaves_others_def C1_def)
  ultimately show ?thesis
    using s1 by (intro exI [of _ ?D]) (auto intro: rtranclp.rtrancl_into_rtrancl)
qed

lemma leaves_others_trans:
  "leaves_others i Q C D \<Longrightarrow> leaves_others i P D E \<Longrightarrow> leaves_others i (Q \<union> P) C E"
  by (simp add: leaves_others_def)

text \<open>A candidate of the first term, as \<open>doElection\<close> leaves it.\<close>

definition first_candidate :: "nat \<Rightarrow> raft \<Rightarrow> bool" where
  "first_candidate k c \<longleftrightarrow> m_state c = candidate \<and> m_currentTerm c = 1 \<and> m_peers_size c = k
     \<and> length (m_nextIndex c) = k \<and> length (m_matchIndex c) = k"

lemma collect_votes:
  assumes "finite Q" "first_candidate k (node C i)" "votedNum C (i, 1) + int (card Q) < int (k div 2 + 1)"
    and "\<forall>p \<in> Q. p \<noteq> i \<and> (\<exists>l. node C p = fresh_node p l) \<and> calls C (i, p, 1) = Requested (first_ask i)"
  shows "\<exists>D. (cluster_step n)\<^sup>*\<^sup>* C D \<and> node D i = node C i \<and> votedNum D (i, 1) = votedNum C (i, 1) + int (card Q)
    \<and> leaves_others i Q C D"
  using assms
proof (induction Q)
  case empty
  then show ?case by (intro exI [of _ C]) (simp add: leaves_others_def)
next
  case (insert p Q)
  then obtain D where D: "(cluster_step n)\<^sup>*\<^sup>* C D" "node D i = node C i"
    "votedNum D (i, 1) = votedNum C (i, 1) + int (card Q)" "leaves_others i Q C D"
    by auto
  have p: "p \<noteq> i" "calls D (i, p, 1) = Requested (first_ask i)" "\<exists>l. node D p = fresh_node p l"
    using insert.prems(3) insert.hyps(2) D(4) by (auto simp: leaves_others_def)
  have "handleRequestVoteResponse (first_ask i) rep (votedNum D (i, 1)) True (node D i)
      = Inr (node D i, votedNum D (i, 1) + 1)" if "rvr_votegranted rep" "rvr_term rep = 1" for rep
    using that insert.prems(1,2) insert.hyps D(2,3)
    by (simp add: handleRequestVoteResponse_def first_candidate_def majority_def first_ask_def)
  with p obtain E where E: "(cluster_step n)\<^sup>*\<^sup>* D E" "node E i = node D i" "votedNum E (i, 1) = votedNum D (i, 1) + 1"
    "leaves_others i {p} D E"
    using one_vote [of D p _ i] by metis
  show ?case
    using D E insert.hyps leaves_others_trans [OF D(4) E(4)]
    by (intro exI [of _ E]) (auto simp: insert_commute)
qed

lemma first_vote_wins:
  assumes "first_candidate k c" "int (k div 2 + 1) \<le> v + 1"
  obtains c' where "\<And>rep. rvr_votegranted rep \<Longrightarrow> rvr_term rep = 1 \<Longrightarrow>
      handleRequestVoteResponse (first_ask i) rep v True c = Inr (c', v + 1)"
    "m_state c' = leader" "m_currentTerm c' = 1"
proof -
  have ok: "length (m_nextIndex (c\<lparr>m_state := leader\<rparr>)) = k" "length (m_matchIndex (c\<lparr>m_state := leader\<rparr>)) = k"
    using assms(1) by (simp_all add: first_candidate_def)
  obtain s where s: "reset_peers (m_id c) (getLastLogIndex c + 1) (map int [0..<k]) (c\<lparr>m_state := leader\<rparr>) = Inr s"
    using reset_peers_ok [OF ok map_int_upt_subset] by blast
  have "m_state s = leader \<and> m_currentTerm s = m_currentTerm c" using reset_peers_frame [OF s] by auto
  then show thesis
    using s assms by (intro that [of "persistState s"])
      (simp_all add: handleRequestVoteResponse_def first_candidate_def majority_def first_ask_def)
qed

text \<open>
  A node that has not seen any term, and a set of such nodes that makes a majority of its peers with
  it: it can become the leader of the first term, and nobody else notices.
\<close>

lemma wins_with:
  assumes i: "node C i = fresh_node i k" "0 \<le> i" "i < int n" "i < 2 ^ 31"
    and Q: "Q \<subseteq> {0..<int k} - {i}" "Q \<noteq> {}" "card Q = k div 2" "\<forall>p \<in> Q. \<exists>l. node C p = fresh_node p l"
  shows "\<exists>D. (cluster_step n)\<^sup>*\<^sup>* C D \<and> m_state (node D i) = leader \<and> m_currentTerm (node D i) = 1
    \<and> (\<forall>p. p \<notin> insert i Q \<longrightarrow> node D p = node C p)"
proof -
  have st: "m_state (node C i) \<noteq> leader" by (simp add: i(1) fresh_node_eq)
  obtain c es where e: "doElection 0 (node C i) = (c, es)" by (cases "doElection 0 (node C i)")
  note sent = doElection_send_votes [OF st e]
  have cand: "first_candidate k c" "m_voteForId c = i"
    using e by (auto simp: first_candidate_def i(1) doElection_def doElection_locked_def Let_def fresh_node_eq)
  have fit: "ints_fit c" using cand i(2,4) by (simp add: ints_fit_def int32_range_def first_candidate_def)
  define C1 where "C1 = C\<lparr>node := (node C)(i := c), calls := send_votes i es (calls C),
      votedNum := (votedNum C)((i, m_currentTerm c) := 1),
      ballots := insert (i, m_currentTerm c, m_voteForId c) (ballots C)\<rparr>"
  have s1: "cluster_step n C C1" unfolding C1_def by (rule elect [OF i(2,3) st e fit])
  have calls: "calls C1 (i, p, 1) = Requested (first_ask i)" if "p \<in> Q" for p
    using that Q(1) by (auto simp: C1_def sent(1) i(1) other_peers_set first_ask_def fresh_node_eq
        getLastLogIndex_def getLastLogTerm_def getLastLogIndexandTerm_def)
  obtain q where q: "q \<in> Q" using Q(2) by blast
  have fin: "finite Q" using Q(1) by (rule finite_subset) simp
  have size: "1 + int (card (Q - {q})) = int (k div 2)"
    using q fin Q(2,3) by (simp add: card_Diff_singleton card_gt_0_iff)
      (metis Q(3) Suc_pred card_gt_0_iff fin of_nat_Suc)
  have one: "votedNum C1 (i, 1) = 1" "node C1 i = c"
    using cand by (simp_all add: C1_def first_candidate_def)
  obtain C2 where C2: "(cluster_step n)\<^sup>*\<^sup>* C1 C2" "node C2 i = c" "votedNum C2 (i, 1) = int (k div 2)"
    "leaves_others i (Q - {q}) C1 C2"
  proof -
    have "\<forall>p \<in> Q - {q}. p \<noteq> i \<and> (\<exists>l. node C1 p = fresh_node p l) \<and> calls C1 (i, p, 1) = Requested (first_ask i)"
      using Q(1,4) calls by (auto simp: C1_def)
    from collect_votes [OF _ _ _ this, of k n] fin size one cand(1) show thesis
      by (auto intro: that)
  qed
  have last: "calls C2 (i, q, 1) = Requested (first_ask i)" "\<exists>l. node C2 q = fresh_node q l" "q \<noteq> i"
    using C2(4) calls [OF q] q Q(1,4) by (auto simp: leaves_others_def C1_def)
  have "int (k div 2 + 1) \<le> int (k div 2) + 1" by simp
  then obtain c' where c': "\<And>rep. rvr_votegranted rep \<Longrightarrow> rvr_term rep = 1 \<Longrightarrow>
      handleRequestVoteResponse (first_ask i) rep (int (k div 2)) True c = Inr (c', int (k div 2) + 1)"
    "m_state c' = leader" "m_currentTerm c' = 1"
    by (rule first_vote_wins [OF cand(1), where i = i]) (rule that)
  obtain D where D: "(cluster_step n)\<^sup>*\<^sup>* C2 D" "node D i = c'" "leaves_others i {q} C2 D"
    using one_vote [of C2 q _ i c' "int (k div 2) + 1" n] last c'(1) C2(2,3) by auto
  have "\<forall>p. p \<notin> insert i Q \<longrightarrow> node D p = node C p"
    using leaves_others_trans [OF C2(4) D(3)] q by (auto simp: leaves_others_def C1_def)
  then show ?thesis
    using s1 C2(1) D(1,2) c'(2,3)
    by (intro exI [of _ D]) (auto intro: converse_rtranclp_into_rtranclp rtranclp_trans)
qed

text \<open>A majority with the candidate in it, cut to the size the candidate needs.\<close>

lemma wins_with_majority:
  assumes "node C i = fresh_node i k" "0 \<le> i" "i < int n" "i < 2 ^ 31" "2 \<le> k"
    and Q: "is_majority k A" "i \<in> A" "\<forall>p \<in> A. \<exists>l. node C p = fresh_node p l"
  shows "\<exists>D. (cluster_step n)\<^sup>*\<^sup>* C D \<and> m_state (node D i) = leader \<and> m_currentTerm (node D i) = 1
    \<and> (\<forall>p. p \<notin> A \<longrightarrow> node D p = node C p)"
proof -
  have fin: "finite A" using Q(1) by (auto simp: is_majority_def intro: finite_subset)
  then have "k div 2 \<le> card (A - {i})" using Q(1,2) by (simp add: is_majority_def) linarith
  then obtain B where B: "B \<subseteq> A - {i}" "card B = k div 2" by (rule obtain_subset_with_card_n)
  have "B \<noteq> {}" using B(2) assms(5) by auto
  then obtain D where "(cluster_step n)\<^sup>*\<^sup>* C D" "m_state (node D i) = leader" "m_currentTerm (node D i) = 1"
    "\<forall>p. p \<notin> insert i B \<longrightarrow> node D p = node C p"
    using wins_with [OF assms(1-4), of B] B Q by (auto simp: is_majority_def)
  moreover have "insert i B \<subseteq> A" using B(1) Q(2) by blast
  ultimately show ?thesis by (intro exI [of _ D]) auto
qed

section \<open>Properties\<close>

text \<open>C5: Two leaders of one term. Election safety needs nodes that count the same peers, and a node counts those it finds
  in a file while others are still being started: when two nodes count differently and each has a majority
  of what it counts that does not meet the other's, both can be elected in the first term.\<close>

theorem partial_views_two_leaders:
  assumes "0 \<le> i" "i < int n" "i < 2 ^ 31" "0 \<le> j" "j < int n" "j < 2 ^ 31" "2 \<le> view i" "2 \<le> view j"
    and "is_majority (view i) A" "i \<in> A" "is_majority (view j) B" "j \<in> B" "A \<inter> B = {}"
  shows "\<exists>C. (cluster_step n)\<^sup>*\<^sup>* (start_views view) C \<and> i \<noteq> j
    \<and> m_state (node C i) = leader \<and> m_state (node C j) = leader
    \<and> m_currentTerm (node C i) = m_currentTerm (node C j)"
proof -
  have start: "node (start_views view) p = fresh_node p (view p)" for p by (simp add: start_views_def)
  obtain C where C: "(cluster_step n)\<^sup>*\<^sup>* (start_views view) C" "m_state (node C i) = leader"
    "m_currentTerm (node C i) = 1" "\<forall>p. p \<notin> A \<longrightarrow> node C p = fresh_node p (view p)"
    using wins_with_majority [OF start assms(1-3,7,9,10)] start by auto
  have "j \<notin> A" "\<forall>p \<in> B. node C p = fresh_node p (view p)" using C(4) assms(12,13) by blast+
  then obtain D where D: "(cluster_step n)\<^sup>*\<^sup>* C D" "m_state (node D j) = leader" "m_currentTerm (node D j) = 1"
    "\<forall>p. p \<notin> B \<longrightarrow> node D p = node C p"
    using wins_with_majority [OF _ assms(4-6,8,11,12), of C] C(4) by blast
  have "i \<noteq> j" "node D i = node C i" using D(4) assms(10,12,13) by auto
  then show ?thesis using C D(2,3) rtranclp_trans [OF C(1) D(1)] by (intro exI [of _ D]) auto
qed

text \<open>
  Nine nodes are started one per second and each reads the file six seconds after its start, while
  the next one is not in it yet: node 0 counts six, and all but the first three count nine.
\<close>

theorem partial_views_two_leaders_witness:
  "\<exists>C. (cluster_step 9)\<^sup>*\<^sup>* (start_views (\<lambda>i. min 9 (nat i + 6))) C
     \<and> m_state (node C 0) = leader \<and> m_state (node C 8) = leader
     \<and> m_currentTerm (node C 0) = m_currentTerm (node C 8)"
proof -
  have "is_majority 6 {0, 1, 2, 3}" "is_majority 9 {4, 5, 6, 7, 8}" by (simp_all add: is_majority_def)
  then show ?thesis
    using partial_views_two_leaders [of 0 9 8 "\<lambda>i. min 9 (nat i + 6)" "{0, 1, 2, 3}" "{4, 5, 6, 7, 8}"]
    by auto
qed

end
