(* ===== verification/Clerk.thy ===== *)
theory Clerk
  imports Kv_Server Rpc_Channel Config
begin

text \<open>
  The client (src/clerk/clerk.cc): one operation is sent to one server after the other until one of
  them has executed it. The stub of a server (src/clerk/raftServerRpcUtil.cc) makes a call on the channel
  that waits. The answers of the calls an operation makes are a list; when it ends the operation is
  still waiting for an answer. Every call is recorded with the server and the request.
\<close>

section \<open>Operations\<close>

record clerk =
  m_servers :: nat
  m_clientId :: string
  m_requestId :: int
  m_recentLeaderId :: nat

definition Clerk :: "nat \<Rightarrow> string \<Rightarrow> clerk" where
  "Clerk servers uuid = \<lparr>m_servers = servers, m_clientId = uuid, m_requestId = 0, m_recentLeaderId = 0\<rparr>"

text \<open>The stub: the reply keeps its default content when the call failed.\<close>

definition stub_call :: "'rsp \<Rightarrow> 'rsp sync_outcome \<Rightarrow> bool \<times> 'rsp" where
  "stub_call fresh out = (so_failure out = None, case so_response out of None \<Rightarrow> fresh | Some rsp \<Rightarrow> rsp)"

type_synonym get_reply = "string \<times> string"

text \<open>
  The loop of \<open>Get\<close>: the servers asked, and, once it returns, the new leader if one answered
  with a value, and the value.
\<close>

fun Get_loop :: "nat \<Rightarrow> nat \<Rightarrow> (bool \<times> get_reply) list \<Rightarrow> nat list \<times> (nat option \<times> string) option" where
  "Get_loop servers server [] = ([server], None)"
| "Get_loop servers server ((ok, err, val) # answers) =
     (let again = (\<lambda>s. case Get_loop servers s answers of (asked, r) \<Rightarrow> (server # asked, r)) in
      if \<not> ok \<or> err = ErrWrongLeader then again ((server + 1) mod servers)
      else if err = ErrNoKey then ([server], Some (None, []))
      else if err = OK then ([server], Some (Some server, val))
      else again server)"

fun PutAppend_loop :: "nat \<Rightarrow> nat \<Rightarrow> (bool \<times> string) list \<Rightarrow> nat list \<times> nat option" where
  "PutAppend_loop servers server [] = ([server], None)"
| "PutAppend_loop servers server ((ok, err) # answers) =
     (let again = (\<lambda>s. case PutAppend_loop servers s answers of (asked, r) \<Rightarrow> (server # asked, r)) in
      if \<not> ok \<or> err = ErrWrongLeader then again ((server + 1) mod servers)
      else if err = OK then ([server], Some server)
      else again server)"

text \<open>
  The operations: the calls made with their requests (as the server reads them), what is returned, if
  anything, and the clerk. Without servers the first access is outside the vector.
\<close>

definition clerk_Get ::
  "string \<Rightarrow> (bool \<times> get_reply) list \<Rightarrow> clerk \<Rightarrow> ((nat \<times> Op) list \<times> string option \<times> clerk) result" where
  "clerk_Get key answers c =
     (let c1 = c\<lparr>m_requestId := m_requestId c + 1\<rparr>;
          args = get_op key (m_clientId c1) (m_requestId c1) in
      if \<not> m_recentLeaderId c1 < m_servers c1 then Inl (Out_of_range 25)
      else
        (case Get_loop (m_servers c1) (m_recentLeaderId c1) answers of
           (asked, r) \<Rightarrow>
             let calls = map (\<lambda>s. (s, args)) asked in
             Inr (case r of
                    None \<Rightarrow> (calls, None, c1)
                  | Some (None, v) \<Rightarrow> (calls, Some v, c1)
                  | Some (Some s, v) \<Rightarrow> (calls, Some v, c1\<lparr>m_recentLeaderId := s\<rparr>))))"

definition clerk_PutAppend ::
  "string \<Rightarrow> string \<Rightarrow> string \<Rightarrow> (bool \<times> string) list \<Rightarrow> clerk \<Rightarrow> ((nat \<times> Op) list \<times> bool \<times> clerk) result" where
  "clerk_PutAppend key val opr answers c =
     (let c1 = c\<lparr>m_requestId := m_requestId c + 1\<rparr>;
          args = put_append_op opr key val (m_clientId c1) (m_requestId c1) in
      if \<not> m_recentLeaderId c1 < m_servers c1 then Inl (Out_of_range 59)
      else
        (case PutAppend_loop (m_servers c1) (m_recentLeaderId c1) answers of
           (asked, r) \<Rightarrow>
             let calls = map (\<lambda>s. (s, args)) asked in
             Inr (case r of
                    None \<Rightarrow> (calls, False, c1)
                  | Some s \<Rightarrow> (calls, True, c1\<lparr>m_recentLeaderId := s\<rparr>))))"

definition Put ::
  "string \<Rightarrow> string \<Rightarrow> (bool \<times> string) list \<Rightarrow> clerk \<Rightarrow> ((nat \<times> Op) list \<times> bool \<times> clerk) result" where
  "Put key val answers c = clerk_PutAppend key val ''Put'' answers c"

definition Append ::
  "string \<Rightarrow> string \<Rightarrow> (bool \<times> string) list \<Rightarrow> clerk \<Rightarrow> ((nat \<times> Op) list \<times> bool \<times> clerk) result" where
  "Append key val answers c = clerk_PutAppend key val ''Append'' answers c"

text \<open>\<open>Init\<close>: one stub for each node of the configuration.\<close>

definition clerk_Init :: "string \<Rightarrow> clerk \<Rightarrow> (string \<times> int) list \<times> clerk" where
  "clerk_Init content c =
     (let ipPortVt = node_list (LoadConfigFile content) 0 in
      (ipPortVt, c\<lparr>m_servers := m_servers c + length ipPortVt\<rparr>))"

section \<open>Which servers are asked\<close>

text \<open>The answers that send the clerk to the next server, and the first that ends the operation.\<close>

definition refused :: "bool \<times> string \<Rightarrow> bool" where
  "refused a \<longleftrightarrow> \<not> fst a \<or> snd a = ErrWrongLeader"

definition accepted :: "bool \<times> string \<Rightarrow> bool" where
  "accepted a \<longleftrightarrow> fst a \<and> snd a = OK"

definition asked_after :: "nat \<Rightarrow> nat \<Rightarrow> (bool \<times> string) list \<Rightarrow> nat" where
  "asked_after servers server answers = (server + length (filter refused answers)) mod servers"

lemma err_distinct: "ErrWrongLeader \<noteq> OK" "ErrNoKey \<noteq> OK" "ErrNoKey \<noteq> ErrWrongLeader"
  by (simp_all add: ErrWrongLeader_def ErrNoKey_def OK_def)

lemma not_refused_accepted: "accepted a \<Longrightarrow> \<not> refused a"
  by (simp add: accepted_def refused_def err_distinct(1) [symmetric])

text \<open>The answers before the one that ends the operation.\<close>

lemma PutAppend_loop_spec:
  assumes "server < servers"
  shows "PutAppend_loop servers server answers =
    (let tried = takeWhile (\<lambda>a. \<not> accepted a) answers in
     (map (\<lambda>i. asked_after servers server (take i tried)) [0..<Suc (length tried)],
      if length tried < length answers then Some (asked_after servers server tried) else None))"
  using assms
proof (induction servers server answers rule: PutAppend_loop.induct)
  case (1 servers server)
  then show ?case by (simp add: asked_after_def)
next
  case (2 servers server ok err answers)
  let ?a = "(ok, err)" and ?tried = "takeWhile (\<lambda>a. \<not> accepted a) answers"
  have upt: "[0..<Suc (Suc k)] = 0 # map Suc [0..<Suc k]" for k
    by (subst upt_conv_Cons) (simp_all only: map_Suc_upt zero_less_Suc)
  show ?case
  proof (cases "accepted ?a")
    case True
    then show ?thesis
      using "2.prems" not_refused_accepted [OF True] by (simp add: accepted_def refused_def asked_after_def)
  next
    case not: False
    define next_server where "next_server = (if refused ?a then (server + 1) mod servers else server)"
    have next_ok: "next_server < servers" using "2.prems" by (simp add: next_server_def)
    have after: "asked_after servers next_server as = asked_after servers server (?a # as)" for as
      by (simp add: asked_after_def next_server_def mod_simps)
    have "PutAppend_loop servers server (?a # answers) =
        (case PutAppend_loop servers next_server answers of (asked, r) \<Rightarrow> (server # asked, r))"
      using not by (auto simp: next_server_def refused_def accepted_def Let_def)
    moreover have "PutAppend_loop servers next_server answers =
      (let tried = ?tried in
       (map (\<lambda>i. asked_after servers next_server (take i tried)) [0..<Suc (length tried)],
        if length tried < length answers then Some (asked_after servers next_server tried) else None))"
      by (rule "2.IH" [OF next_ok])
    ultimately show ?thesis
      using not "2.prems" after by (simp add: upt Let_def comp_def del: upt_Suc) (simp add: asked_after_def)
  qed
qed

text \<open>A read returns when a server answers with a value or without the key.\<close>

lemma snd_again: "snd (case p of (asked, r) \<Rightarrow> (server # asked, r)) = snd p"
  by (cases p) simp

lemma Get_loop_returns:
  "snd (Get_loop servers server answers) \<noteq> None \<longleftrightarrow>
     (\<exists>a \<in> set answers. fst a \<and> (fst (snd a) = OK \<or> fst (snd a) = ErrNoKey))"
proof (induction servers server answers rule: Get_loop.induct)
  case (2 servers server ok err val answers)
  show ?case
  proof (cases "\<not> ok \<or> err = ErrWrongLeader")
    case True
    then have "\<not> (ok \<and> (err = OK \<or> err = ErrNoKey))" using err_distinct by metis
    then show ?thesis using True "2.IH" by (auto simp: snd_again)
  next
    case False
    then show ?thesis using "2.IH" by (cases "err = ErrNoKey"; cases "err = OK") (simp_all add: snd_again)
  qed
qed simp

section \<open>Properties\<close>

text \<open>C37: A put or append of a client returns exactly when some server has accepted it: all calls up to
  then carry the same request, under a request number the client never used before, and go to
  the servers in turn, from the last known leader on to the next one after each refusal or failed
  call; the server that accepted is the one remembered.\<close>

theorem clerk_PutAppend_spec:
  assumes "m_recentLeaderId c < m_servers c" "tried = takeWhile (\<lambda>a. \<not> accepted a) answers"
  shows "\<exists>calls returned c'. clerk_PutAppend key val opr answers c = Inr (calls, returned, c')
    \<and> (returned \<longleftrightarrow> (\<exists>a \<in> set answers. accepted a))
    \<and> length calls = length tried + 1
    \<and> (\<forall>i < length calls. calls ! i = (asked_after (m_servers c) (m_recentLeaderId c) (take i tried),
         put_append_op opr key val (m_clientId c) (m_requestId c + 1)))
    \<and> m_requestId c' = m_requestId c + 1 \<and> m_clientId c' = m_clientId c \<and> m_servers c' = m_servers c
    \<and> m_recentLeaderId c' = (if returned then fst (last calls) else m_recentLeaderId c)
    \<and> m_recentLeaderId c' < m_servers c'"
proof -
  let ?n = "m_servers c" and ?s = "m_recentLeaderId c"
  let ?args = "put_append_op opr key val (m_clientId c) (m_requestId c + 1)"
  let ?asked = "map (\<lambda>i. asked_after ?n ?s (take i tried)) [0..<Suc (length tried)]"
  have tried: "length tried < length answers \<longleftrightarrow> (\<exists>a \<in> set answers. accepted a)"
    unfolding assms(2)
    by (metis (no_types, lifting) length_takeWhile_le linorder_not_less nat_less_le takeWhile_eq_all_conv
        takeWhile_eq_take take_all_iff)
  have loop: "PutAppend_loop ?n ?s answers =
      (?asked, if length tried < length answers then Some (asked_after ?n ?s tried) else None)"
    using PutAppend_loop_spec [OF assms(1), of answers] unfolding assms(2) by (simp add: Let_def)
  have lastcall: "last (map (\<lambda>s. (s, ?args)) ?asked) = (asked_after ?n ?s tried, ?args)" by simp
  have range: "asked_after ?n ?s as < ?n" for as using assms(1) by (simp add: asked_after_def)
  show ?thesis
    using assms(1) range lastcall
    by (auto simp: clerk_PutAppend_def Let_def loop tried simp del: upt_Suc)
qed

text \<open>Three servers, of which the last known leader is down, the next one not the leader and the third the new leader.\<close>

theorem clerk_PutAppend_spec_witness:
  "\<exists>calls c'. clerk_PutAppend ''k'' ''v'' ''Put'' [(False, []), (True, ErrWrongLeader), (True, OK)]
       (Clerk 3 ''id'') = Inr (calls, True, c')
     \<and> map fst calls = [0, 1, 2] \<and> m_recentLeaderId c' = 2"
proof -
  let ?answers = "[(False, []), (True, ErrWrongLeader), (True, OK)]"
  have c: "m_recentLeaderId (Clerk 3 ''id'') < m_servers (Clerk 3 ''id'')" by (simp add: Clerk_def)
  have tried: "[(False, []), (True, ErrWrongLeader)] = takeWhile (\<lambda>a. \<not> accepted a) ?answers"
    by (simp add: accepted_def err_distinct)
  obtain calls returned c' where r: "clerk_PutAppend ''k'' ''v'' ''Put'' ?answers (Clerk 3 ''id'') = Inr (calls, returned, c')"
    "returned \<longleftrightarrow> (\<exists>a \<in> set ?answers. accepted a)" "length calls = 3"
    "\<forall>i < length calls. fst (calls ! i) = asked_after 3 0 (take i [(False, []), (True, ErrWrongLeader)])"
    "m_recentLeaderId c' = (if returned then fst (last calls) else 0)"
    using clerk_PutAppend_spec [OF c tried, of "''k''" "''v''" "''Put''"] by (auto simp: Clerk_def)
  have "returned" using r(2) by (simp add: accepted_def)
  have "fst (calls ! 0) = 0" "fst (calls ! 1) = 1" "fst (calls ! 2) = 2"
    using r(3,4) by (simp_all add: asked_after_def refused_def numeral_2_eq_2)
  moreover obtain x y z where "calls = [x, y, z]" using r(3) by (auto simp: length_Suc_conv numeral_3_eq_3)
  ultimately show ?thesis using r(1,5) \<open>returned\<close> by auto
qed

end
