(* ===== verification/Benchmark.thy ===== *)
theory Benchmark
  imports Exactly_Once Clerk
begin

text \<open>
  The benchmark src/example/clerk.cc: threads with a client each put growing numbers under a key of
  their own. It joins the client, the log and the server: whatever is repeated or lost on the way,
  the last number is what the store holds. The clock readings and the printed report are left out.
\<close>

section \<open>The program\<close>

text \<open>The loop of \<open>worker\<close>: what is sent, and whether it comes to its end. One list of answers per put.\<close>

fun put_loop ::
  "string \<Rightarrow> nat list \<Rightarrow> (nat \<Rightarrow> (bool \<times> string) list) \<Rightarrow> clerk \<Rightarrow> (Op list \<times> bool \<times> clerk) result" where
  "put_loop key [] answers client = Inr ([], True, client)"
| "put_loop key (i # is) answers client =
     rbind (Put key (to_string i) (answers i) client) (\<lambda>(calls, returned, client1).
     if \<not> returned then Inr (map snd calls, False, client1)
     else rbind (put_loop key is answers client1) (\<lambda>(reqs, finished, client2).
          Inr (map snd calls @ reqs, finished, client2)))"

definition thread_key :: "nat \<Rightarrow> string" where
  "thread_key threadId = ''key_'' @ to_string threadId"

definition worker ::
  "string \<Rightarrow> string \<Rightarrow> nat \<Rightarrow> nat \<Rightarrow> (nat \<Rightarrow> (bool \<times> string) list) \<Rightarrow> (Op list \<times> bool \<times> clerk) result" where
  "worker uuid content threadId count answers =
     put_loop (thread_key threadId) [0..<count] answers (snd (clerk_Init content (Clerk 0 uuid)))"

text \<open>The longest time of a thread, from those of all.\<close>

definition longest_time :: "int list \<Rightarrow> int" where
  "longest_time stats = fold (\<lambda>elapsed longest. if elapsed > longest then elapsed else longest) stats 0"

lemma longest_time_eq: "longest_time stats = Max (set (0 # stats))"
proof -
  have "(\<lambda>e l. if e > l then e else l) = (max :: int \<Rightarrow> int \<Rightarrow> int)" by (auto simp: fun_eq_iff max_def)
  then show ?thesis unfolding longest_time_def Max.set_eq_fold by simp
qed

section \<open>What a thread sends\<close>

lemma PutAppend_loop_asks: "fst (PutAppend_loop servers server answers) \<noteq> []"
  by (induction servers server answers rule: PutAppend_loop.induct) (auto split: prod.splits)

lemma Put_requests:
  assumes "Put key v answers c = Inr (calls, returned, c1)"
  shows "\<exists>k. map snd calls = replicate (Suc k) (put_append_op ''Put'' key v (m_clientId c) (m_requestId c + 1))"
    "m_requestId c1 = m_requestId c + 1" "m_clientId c1 = m_clientId c"
proof -
  obtain asked r where l: "PutAppend_loop (m_servers c) (m_recentLeaderId c) answers = (asked, r)" by fastforce
  then have "asked \<noteq> []" using PutAppend_loop_asks by (metis fst_conv)
  then obtain k where "length asked = Suc k" by (cases asked) auto
  then show "\<exists>k. map snd calls = replicate (Suc k) (put_append_op ''Put'' key v (m_clientId c) (m_requestId c + 1))"
    "m_requestId c1 = m_requestId c + 1" "m_clientId c1 = m_clientId c"
    using assms l by (auto simp: Put_def clerk_PutAppend_def Let_def comp_def map_replicate_const
        split: if_splits option.splits)
qed

definition bench_put :: "string \<Rightarrow> nat \<Rightarrow> nat \<Rightarrow> Op" where
  "bench_put uuid threadId i = put_append_op ''Put'' (thread_key threadId) (to_string i) uuid (int i + 1)"

lemma put_loop_requests:
  assumes "put_loop (thread_key t) [a..<b] answers c = Inr (reqs, True, c2)" "m_requestId c = int a"
  shows "set reqs = bench_put (m_clientId c) t ` {a..<b} \<and> sorted (map RequestId reqs)"
  using assms
proof (induction "b - a" arbitrary: a c reqs)
  case (Suc n)
  then have ab: "[a..<b] = a # [Suc a..<b]" "{a..<b} = insert a {Suc a..<b}" by (auto simp: upt_conv_Cons)
  then obtain calls c1 reqs1 where p: "Put (thread_key t) (to_string a) (answers a) c = Inr (calls, True, c1)"
    and rest: "put_loop (thread_key t) [Suc a..<b] answers c1 = Inr (reqs1, True, c2)"
    and reqs: "reqs = map snd calls @ reqs1"
    using Suc.prems(1) by (auto simp: rbind_eq_Inr split: if_splits)
  obtain k where k: "map snd calls = replicate (Suc k) (bench_put (m_clientId c) t a)"
    "m_requestId c1 = int (Suc a)" "m_clientId c1 = m_clientId c"
    using Put_requests [OF p] Suc.prems(2) by (auto simp: bench_put_def)
  have IH: "set reqs1 = bench_put (m_clientId c) t ` {Suc a..<b} \<and> sorted (map RequestId reqs1)"
    using Suc.hyps(1) [OF _ rest k(2)] Suc.hyps(2) k(3) by simp
  then show ?case
    using k(1) by (auto simp: reqs ab(2) sorted_append bench_put_def put_append_op_def)
qed simp

lemma worker_requests:
  assumes "worker uuid content t count answers = Inr (reqs, True, c')"
  shows "set reqs = bench_put uuid t ` {0..<count}" "sorted (map RequestId reqs)"
  using put_loop_requests [OF assms [unfolded worker_def]] by (simp_all add: clerk_Init_def Let_def Clerk_def)

section \<open>A finite log\<close>

definition idle_op :: Op where
  "idle_op = \<lparr>Operation = [], Key = [], Value = [], ClientId = [], RequestId = 0\<rparr>"

definition log_of :: "Op list \<Rightarrow> int \<Rightarrow> Op" where
  "log_of L j = (if 1 \<le> j \<and> j \<le> int (length L) then L ! nat (j - 1) else idle_op)"

lemma log_of_prefix: "n \<le> length L \<Longrightarrow> map (log_of L) [1..int n] = take n L"
  by (intro nth_equalityI) (auto simp: log_of_def)

lemma log_of_keys: "n \<le> length L \<Longrightarrow> written_keys (log_of L) (int n) = request_key ` set (filter is_write (take n L))"
  unfolding written_keys_def by (subst log_of_prefix) simp_all

text \<open>Each client's commands in the order of their numbers; those of different clients mix freely.\<close>

definition in_client_order :: "Op list \<Rightarrow> bool" where
  "in_client_order L \<longleftrightarrow> (\<forall>c. sorted (map RequestId (filter (\<lambda>op. ClientId op = c) L)))"

lemma in_client_order_wrt:
  "in_client_order L \<Longrightarrow> sorted_wrt (\<lambda>a b. ClientId a = ClientId b \<longrightarrow> RequestId a \<le> RequestId b) L"
proof (induction L)
  case (Cons op L)
  have all: "sorted (map RequestId (filter (\<lambda>x. ClientId x = c) (op # L)))" for c
    using Cons.prems unfolding in_client_order_def by blast
  have "in_client_order L"
    unfolding in_client_order_def
  proof
    fix c show "sorted (map RequestId (filter (\<lambda>op. ClientId op = c) L))"
      using all [of c] by (cases "ClientId op = c") simp_all
  qed
  moreover have "\<forall>b \<in> set L. ClientId op = ClientId b \<longrightarrow> RequestId op \<le> RequestId b"
    using all [of "ClientId op"] by auto
  ultimately show ?case using Cons.IH by simp
qed simp

lemma log_of_numbered:
  assumes "in_client_order L"
  shows "numbered (log_of L)"
  unfolding numbered_def
proof (intro allI impI ballI)
  fix j k assume j: "1 \<le> j" "first_write (log_of L) j" and k: "k \<in> written_keys (log_of L) (j - 1)"
    "fst k = ClientId (log_of L j)"
  define n where "n = nat (j - 1)"
  have n: "j = int n + 1" using j(1) by (simp add: n_def)
  have len: "n < length L"
    using j(2) n by (auto simp: first_write_def is_write_def log_of_def idle_op_def split: if_splits)
  then have at: "log_of L j = L ! n" using n by (simp add: log_of_def)
  have keys: "written_keys (log_of L) (j - 1) = request_key ` set (filter is_write (take n L))"
    using log_of_keys [of n L] len n by simp
  then obtain op where op: "op \<in> set (take n L)" "k = request_key op" using k(1) by auto
  then obtain i where i: "i < n" "op = L ! i" using len by (auto simp: in_set_conv_nth)
  have "RequestId op \<le> RequestId (L ! n)"
    using sorted_wrt_nth_less [OF in_client_order_wrt [OF assms] i(1) len] i(2) op(2) k(2) at
    by (simp add: request_key_def)
  moreover have "k \<noteq> request_key (L ! n)" using j(2) k(1) at by (auto simp: first_write_def)
  ultimately show "snd k < RequestId (log_of L j)" using op(2) k(2) at by (auto simp: request_key_def)
qed

text \<open>A key that only one client writes holds what the last write of it in the log says, repeated or not.\<close>

definition writes_of :: "string \<Rightarrow> Op list \<Rightarrow> Op list" where
  "writes_of key L = filter (\<lambda>op. is_write op \<and> Key op = key) L"

lemma writes_of_sorted:
  assumes "in_client_order L" "\<forall>op \<in> set L. is_write op \<longrightarrow> (Key op = key \<longleftrightarrow> ClientId op = c)"
  shows "sorted (map RequestId (writes_of key (take n L)))"
proof -
  have "sorted_wrt (\<lambda>a b. ClientId a = ClientId b \<longrightarrow> RequestId a \<le> RequestId b) (writes_of key (take n L))"
    unfolding writes_of_def by (intro sorted_wrt_filter sorted_wrt_take in_client_order_wrt assms(1))
  moreover have "ClientId op = c" if "op \<in> set (writes_of key (take n L))" for op
    using that assms(2) in_set_takeD [of op n L] by (auto simp: writes_of_def)
  ultimately show ?thesis by (auto simp: sorted_map sorted_wrt_iff_nth_less)
qed

lemma store_once_last:
  assumes ord: "in_client_order L" and n: "n \<le> length L"
    and own: "\<forall>op \<in> set L. is_write op \<longrightarrow> (Key op = key \<longleftrightarrow> ClientId op = c)"
    and val: "\<forall>op \<in> set (writes_of key L). Value op = v (RequestId op)"
  shows "store_once (log_of L) (int n) key =
    (if writes_of key (take n L) = [] then None else Some (v (RequestId (last (writes_of key (take n L))))))"
  using n
proof (induction n)
  case 0
  then show ?case by (simp add: store_once_def writes_of_def)
next
  case (Suc n)
  let ?op = "L ! n" and ?W = "writes_of key (take n L)"
  have len: "n < length L" using Suc.prems by simp
  have take_Suc: "take (Suc n) L = take n L @ [?op]" using len by (rule take_Suc_conv_app_nth)
  have at: "log_of L (int n + 1) = ?op" using len by (simp add: log_of_def)
  have keys: "written_keys (log_of L) (int n) = request_key ` set (filter is_write (take n L))"
    using log_of_keys [of n L] len by simp
  have step: "store_once (log_of L) (int (Suc n)) = (if first_write (log_of L) (int n + 1)
      then (store_once (log_of L) (int n))(Key ?op \<mapsto> Value ?op) else store_once (log_of L) (int n))"
    using store_once_next [of "int n" "log_of L"] at by (simp add: add.commute)
  have IH: "store_once (log_of L) (int n) key = (if ?W = [] then None else Some (v (RequestId (last ?W))))"
    using Suc by simp
  show ?case
  proof (cases "is_write ?op \<and> Key ?op = key")
    case False
    then have "writes_of key (take (Suc n) L) = ?W" by (simp add: take_Suc writes_of_def)
    moreover have "\<not> is_write ?op \<Longrightarrow> \<not> first_write (log_of L) (int n + 1)" by (simp add: first_write_def at)
    ultimately show ?thesis using False IH step by auto
  next
    case True
    then have W: "writes_of key (take (Suc n) L) = ?W @ [?op]" by (simp add: take_Suc writes_of_def)
    show ?thesis
    proof (cases "first_write (log_of L) (int n + 1)")
      case first: True
      have "?op \<in> set (writes_of key L)" using True len by (simp add: writes_of_def)
      then show ?thesis using first True step val W by simp
    next
      case False
      then have "request_key ?op \<in> written_keys (log_of L) (int n)" using True by (simp add: first_write_def at)
      then obtain o' where o': "o' \<in> set (take n L)" "is_write o'" "request_key o' = request_key ?op"
        using keys by auto
      moreover have "ClientId ?op = c" using own True nth_mem [OF len] by blast
      ultimately have "Key o' = key" using own set_take_subset [of n L] by (auto simp: request_key_def)
      then have mem: "o' \<in> set ?W" using o' by (simp add: writes_of_def)
      have "sorted (map RequestId (writes_of key (take (Suc n) L)))"
        by (rule writes_of_sorted [OF ord own])
      then have sorted: "\<forall>w \<in> set ?W. RequestId w \<le> RequestId ?op" "sorted (map RequestId ?W)"
        unfolding W by (auto simp: sorted_append)
      have "?W \<noteq> []" using mem by auto
      then have split: "?W = butlast ?W @ [last ?W]" by simp
      have "RequestId o' \<le> RequestId (last ?W)"
        using sorted(2) mem by (subst (asm) (1 2) split) (auto simp: sorted_append)
      moreover have "RequestId (last ?W) \<le> RequestId ?op" using sorted(1) \<open>?W \<noteq> []\<close> by simp
      ultimately have "RequestId (last ?W) = RequestId ?op" using o'(3) by (simp add: request_key_def)
      then show ?thesis using False step IH W \<open>?W \<noteq> []\<close> by simp
    qed
  qed
qed

section \<open>Properties\<close>

lemma bench_put_simps [simp]:
  "ClientId (bench_put u t i) = u" "Key (bench_put u t i) = thread_key t" "Value (bench_put u t i) = to_string i"
  "RequestId (bench_put u t i) = int i + 1" "is_write (bench_put u t i)"
  by (simp_all add: bench_put_def put_append_op_def is_write_def)

lemma thread_key_inj: "thread_key i = thread_key j \<longleftrightarrow> i = j"
  by (auto simp: thread_key_def dest: to_string_inj)

lemma last_write:
  assumes "sorted (map RequestId W)" "set W = bench_put u t ` {0..<k}" "0 < k"
  shows "last W = bench_put u t (k - 1)"
proof -
  have ne: "W \<noteq> []" using assms(2,3) by auto
  then have split: "W = butlast W @ [last W]" by simp
  have "\<forall>x \<in> set (butlast W @ [last W]). RequestId x \<le> RequestId (last W)"
    using assms(1) by (subst (asm) split) (auto simp: sorted_append simp del: append_butlast_last_id)
  then have "\<forall>x \<in> set W. RequestId x \<le> RequestId (last W)" unfolding split [symmetric] .
  moreover have "bench_put u t (k - 1) \<in> set W" using assms(2,3) by simp
  ultimately have "RequestId (bench_put u t (k - 1)) \<le> RequestId (last W)" by blast
  moreover obtain i where i: "last W = bench_put u t i" "i < k" using last_in_set [OF ne] assms(2) by auto
  ultimately have "i = k - 1" by auto
  then show ?thesis using i(1) by simp
qed



end
