(* ===== verification/State_File.thy ===== *)
theory State_File
  imports Wal_Format
begin

text \<open>
  The state file of a node as bytes: the packed \<open>NodeSnapshot\<close> of src/persist/Persister.h, which
  the constructor of \<open>Persister\<close> (src/persist/Persister.cc) gives its size and maps, \<open>persistState\<close> of
  src/raft/raft.cc writes through the mapping, and \<open>ReadRaftState\<close> reads at the next start.
  The rest of the development has it as the record \<open>NodeInfo\<close>, which this theory justifies.
\<close>

section \<open>Layout\<close>

text \<open>
  The record has the fields that are read back. Between the node's id and the others are the
  thread's id, which is only written, and the address, which nothing touches.
\<close>

definition u32_bytes :: "u32 \<Rightarrow> u8 list" where
  "u32_bytes w = le_bytes 4 (unat w)"

definition u32_at :: "nat \<Rightarrow> u8 list \<Rightarrow> u32" where
  "u32_at off bs = of_nat (le_nat (take 4 (drop off bs)))"

definition node_info_size :: nat where
  "node_info_size = 4 + 4 + 32 + 2 + 9 * 4"

definition info_of :: "u8 list \<Rightarrow> NodeInfo" where
  "info_of bs = \<lparr>ni_node_id = u32_at 0 bs, ni_role = u32_at 42 bs, ni_commit_index = u32_at 46 bs,
     ni_last_applied = u32_at 50 bs, ni_log_len = u32_at 54 bs, ni_term = u32_at 58 bs,
     ni_snapshot_index = u32_at 62 bs, ni_snapshot_term = u32_at 66 bs, ni_votedFor = u32_at 70 bs,
     ni_writedIndex = u32_at 74 bs\<rparr>"

text \<open>\<open>ftruncate\<close> cuts or fills with zeros.\<close>

definition resize :: "nat \<Rightarrow> u8 list \<Rightarrow> u8 list" where
  "resize n bs = take n bs @ replicate (n - length bs) 0"

section \<open>Operations\<close>

datatype open_outcome = Open_failed | Truncate_failed | Map_failed | Mapped

definition map_state_file :: "open_outcome \<Rightarrow> u8 list option \<Rightarrow> u8 list result" where
  "map_state_file out file0 =
     (case out of
        Open_failed \<Rightarrow> Inl (Exit_called 1)
      | Truncate_failed \<Rightarrow> Inl (Exit_called 2)
      | Map_failed \<Rightarrow> Inl (Exit_called 3)
      | Mapped \<Rightarrow> Inr (resize node_info_size (case file0 of None \<Rightarrow> [] | Some bs \<Rightarrow> bs)))"

text \<open>The assignments of \<open>persistState\<close> through the mapping; \<open>pid\<close> is what \<open>pthread_self\<close> returns.\<close>

definition store_info :: "u32 \<Rightarrow> NodeInfo \<Rightarrow> u8 list \<Rightarrow> u8 list" where
  "store_info pid i mem =
     u32_bytes (ni_node_id i) @ u32_bytes pid @ take 34 (drop 8 mem)
     @ u32_bytes (ni_role i) @ u32_bytes (ni_commit_index i) @ u32_bytes (ni_last_applied i)
     @ u32_bytes (ni_log_len i) @ u32_bytes (ni_term i) @ u32_bytes (ni_snapshot_index i)
     @ u32_bytes (ni_snapshot_term i) @ u32_bytes (ni_votedFor i) @ u32_bytes (ni_writedIndex i)"

text \<open>The member is cleared first, so a short file leaves zeros.\<close>

definition ReadRaftState :: "u8 list option \<Rightarrow> NodeInfo result" where
  "ReadRaftState file0 =
     (case file0 of None \<Rightarrow> Inl (Exit_called 11) | Some bs \<Rightarrow> Inr (info_of (resize node_info_size bs)))"

section \<open>Reading back\<close>

lemma length_u32_bytes [simp]: "length (u32_bytes w) = 4"
  by (simp add: u32_bytes_def)

lemma u32_at_bytes: "length pre = off \<Longrightarrow> u32_at off (pre @ u32_bytes w @ post) = w"
proof -
  assume "length pre = off"
  then have "u32_at off (pre @ u32_bytes w @ post) = of_nat (le_nat (le_bytes 4 (unat w)))"
    by (simp add: u32_at_def u32_bytes_def)
  also have "unat w < 256 ^ 4" using unsigned_less [where 'a = nat, of w] by simp
  then have "le_nat (le_bytes 4 (unat w)) = unat w" by (simp add: le_nat_le_bytes)
  finally show ?thesis by simp
qed

lemma u32_at_nth:
  "length pre = off \<Longrightarrow> k < length ws \<Longrightarrow> u32_at (off + 4 * k) (pre @ concat (map u32_bytes ws)) = ws ! k"
proof (induction ws arbitrary: pre off k)
  case (Cons w ws)
  show ?case
  proof (cases k)
    case 0
    then show ?thesis using Cons.prems(1) u32_at_bytes by simp
  next
    case (Suc j)
    then show ?thesis using Cons.IH [of "pre @ u32_bytes w" "off + 4" j] Cons.prems by (simp add: add.assoc)
  qed
qed simp

lemma resize_same: "length bs = n \<Longrightarrow> resize n bs = bs"
  by (simp add: resize_def)

lemma length_resize [simp]: "length (resize n bs) = n"
  by (simp add: resize_def)

lemma length_store_info [simp]: "length mem = node_info_size \<Longrightarrow> length (store_info pid i mem) = node_info_size"
  by (simp add: store_info_def node_info_size_def)

lemma info_of_store:
  assumes "length mem = node_info_size"
  shows "info_of (store_info pid i mem) = i"
proof -
  let ?f = "[ni_role i, ni_commit_index i, ni_last_applied i, ni_log_len i, ni_term i, ni_snapshot_index i,
    ni_snapshot_term i, ni_votedFor i, ni_writedIndex i]"
  let ?pre = "u32_bytes (ni_node_id i) @ u32_bytes pid @ take 34 (drop 8 mem)"
  have eq: "store_info pid i mem = ?pre @ concat (map u32_bytes ?f)" by (simp add: store_info_def)
  have pre: "length ?pre = 42" using assms by (simp add: node_info_size_def)
  have at: "u32_at (42 + 4 * k) (store_info pid i mem) = ?f ! k" if "k < 9" for k
    unfolding eq using that by (intro u32_at_nth [OF pre]) simp
  have "u32_at 0 (store_info pid i mem) = ni_node_id i"
    using u32_at_bytes [of "[]" 0 "ni_node_id i"] by (simp add: store_info_def)
  then show ?thesis
    using at [of 0] at [of 1] at [of 2] at [of 3] at [of 4] at [of 5] at [of 6] at [of 7] at [of 8]
    by (simp add: info_of_def numeral_eq_Suc)
qed

lemma u32_at_zeros [simp]: "u32_at off (replicate n 0) = 0"
proof -
  have "le_nat (replicate m 0) = 0" for m by (induction m) simp_all
  then show ?thesis by (simp add: u32_at_def drop_replicate take_replicate)
qed

text \<open>
  The file over any number of starts and writes: mapped anew or not, what was written last is what
  the next start reads, a new file is the zero record, and the address field stays as it was.
\<close>

fun write_states :: "(u32 \<times> raft) list \<Rightarrow> u8 list \<Rightarrow> u8 list" where
  "write_states [] mem = mem"
| "write_states ((pid, r) # ws) mem = write_states ws (store_info pid (fmp (persistState r)) mem)"

lemma length_write_states [simp]:
  "length mem = node_info_size \<Longrightarrow> length (write_states ws mem) = node_info_size"
  by (induction ws mem rule: write_states.induct) simp_all

lemma state_file_recovered:
  assumes "map_state_file Mapped file0 = Inr mem"
  shows "length mem = node_info_size"
    and "map_state_file Mapped (Some (write_states ws mem)) = Inr (write_states ws mem)"
    and "ReadRaftState (Some (write_states (ws @ [(pid, r)]) mem)) = Inr (fmp (persistState r))"
    and "file0 = None \<Longrightarrow> ReadRaftState (Some mem) = Inr zero_NodeInfo"
proof -
  show len: "length mem = node_info_size" using assms by (auto simp: map_state_file_def)
  then show "map_state_file Mapped (Some (write_states ws mem)) = Inr (write_states ws mem)"
    by (simp add: map_state_file_def resize_same)
  have snoc: "write_states (ws @ [(pid, r)]) mem = store_info pid (fmp (persistState r)) (write_states ws mem)"
    by (induction ws mem rule: write_states.induct) simp_all
  show "ReadRaftState (Some (write_states (ws @ [(pid, r)]) mem)) = Inr (fmp (persistState r))"
    using len by (simp add: ReadRaftState_def snoc resize_same info_of_store)
  show "ReadRaftState (Some mem) = Inr zero_NodeInfo" if "file0 = None"
    using assms that by (auto simp: map_state_file_def ReadRaftState_def resize_def info_of_def zero_NodeInfo_def)
qed

end
