(* ===== verification/Skip_Display.thy ===== *)
theory Skip_Display
  imports Skip_List "HOL-Library.Sublist"
begin

text \<open>
  \<open>display_list\<close> (src/include/common/skipList.h): the walk along every level, of which
  \<open>DprintfKVDB\<close> of the server makes use. The output is commented out in the source; the model
  returns the nodes in the order in which they are visited, so that it shows what is visited.
\<close>

partial_function (option) show_level :: "('k, 'v) node_heap \<Rightarrow> nat \<Rightarrow> addr option \<Rightarrow> ('k \<times> 'v) list option" where
  "show_level h i p =
     (case p of None \<Rightarrow> Some []
      | Some a \<Rightarrow>
          do { n \<leftarrow> h a; nxt \<leftarrow> fwd h a i; rest \<leftarrow> show_level h i nxt;
               Some ((node_key n, node_value n) # rest) })"

fun show_levels :: "('k, 'v) skip_list \<Rightarrow> nat list \<Rightarrow> ('k \<times> 'v) list list option" where
  "show_levels s [] = Some []"
| "show_levels s (i # is) =
     do { p \<leftarrow> fwd (heap s) (header s) i; l \<leftarrow> show_level (heap s) i p; ls \<leftarrow> show_levels s is; Some (l # ls) }"

definition display_list :: "('k, 'v) skip_list \<Rightarrow> ('k \<times> 'v) list list option" where
  "display_list s = show_levels s [0..<skip_list_level s + 1]"

definition DprintfKVDB :: "bool \<Rightarrow> ('k, 'v) skip_list \<Rightarrow> ('k \<times> 'v) list list option" where
  "DprintfKVDB debug s = (if \<not> debug then Some [] else display_list s)"

lemma show_level_chain:
  assumes "chain h i p ns None" "\<forall>a \<in> set ns. h a \<noteq> None"
  shows "\<exists>q. fwd h p i = Some q \<and> show_level h i q = Some (pairs h ns)"
  using assms
proof (induction ns arbitrary: p)
  case Nil
  then show ?case by (subst show_level.simps) simp
next
  case (Cons a ns)
  then obtain n where n: "h a = Some n" by auto
  obtain q where "fwd h a i = Some q" "show_level h i q = Some (pairs h ns)"
    using Cons.IH [of a] Cons.prems by auto
  then have "show_level h i (Some a) = Some (pairs h (a # ns))"
    using n by (subst show_level.simps) (simp add: key_of_def)
  then show ?case using Cons.prems(1) by auto
qed

lemma show_levels_ok:
  assumes "sl_rep s ns" "\<forall>i \<in> set is. i \<le> max_level s"
  shows "show_levels s is = Some (map (\<lambda>i. pairs (heap s) (at_level (heap s) i ns)) is)"
  using assms(2)
proof (induction "is")
  case (Cons i "is")
  have "chain (heap s) i (header s) (at_level (heap s) i ns) None"
    using assms(1) Cons.prems unfolding sl_rep_def by (metis list.set_intros(1))
  moreover have "\<forall>a \<in> set (at_level (heap s) i ns). heap s a \<noteq> None"
    using assms(1) by (fastforce simp: sl_rep_def at_level_def)
  ultimately obtain q where "fwd (heap s) (header s) i = Some q"
    "show_level (heap s) i q = Some (pairs (heap s) (at_level (heap s) i ns))"
    using show_level_chain by blast
  then show ?case using Cons by simp
qed simp

lemma subseq_pairs: "subseq xs ys \<Longrightarrow> subseq (pairs h xs) (pairs h ys)"
  unfolding pairs_def by (rule subseq_map)

text \<open>
  The walk returns, follows only valid pointers and visits one line per level: level 0 has all
  entries in the order of their keys, and each line is a part of it in the same order.
\<close>

lemma display_list_ok:
  assumes "sl_ok s m"
  shows "\<exists>ls. DprintfKVDB True s = Some ls \<and> length ls = skip_list_level s + 1
    \<and> map_of (ls ! 0) = m \<and> sorted_wrt (<) (map fst (ls ! 0)) \<and> (\<forall>l \<in> set ls. subseq l (ls ! 0))"
proof -
  obtain ns where rep: "sl_rep s ns" and m: "m = map_of (pairs (heap s) ns)"
    using assms by (auto simp: sl_ok_def)
  let ?ls = "map (\<lambda>i. pairs (heap s) (at_level (heap s) i ns)) [0..<skip_list_level s + 1]"
  have "display_list s = Some ?ls"
    using rep by (simp add: display_list_def show_levels_ok [OF rep] sl_rep_def del: upt_Suc)
  moreover have zero: "at_level (heap s) 0 ns = ns" by (simp add: at_level_def)
  then have first: "?ls ! 0 = pairs (heap s) ns" by (simp del: upt_Suc)
  moreover have "sorted_wrt (<) (map fst (pairs (heap s) ns))"
    using rep by (simp add: sl_rep_def pairs_def sorted_wrt_map comp_def)
  moreover have "\<forall>l \<in> set ?ls. subseq l (pairs (heap s) ns)"
    by (auto simp: at_level_def intro!: subseq_pairs simp del: upt_Suc)
  ultimately show ?thesis using m by (intro exI [of _ ?ls]) (simp add: DprintfKVDB_def del: upt_Suc)
qed

end
